(* ===== verification/Prelude.thy ===== *)
theory Prelude
  imports Complex_Main "HOL-Library.Word" "HOL-Library.Char_ord" "HOL-Library.List_Lexorder"
begin

text \<open>
  Shared vocabulary of the development: the machine integers and the clock of the Rust code, the
  ordered associative containers (\<open>BTreeMap\<close>, \<open>BTreeSet\<close>) as sorted lists, the byte encodings that
  are framed by a length prefix, and the generic laws the components rely on.

  \<^item> Named collections: \<open>machine_simps\<close> (casts and saturating arithmetic), \<open>table_simps\<close> (ordered
    tables), \<open>frame_intros\<close> (prefix-free encodings).
  \<^item> Locales: \<open>prefix_code\<close> (an encoding no code word of which is a prefix of another) and
    \<open>maintained_view\<close> (a summary kept up to date event by event that equals the summary recomputed
    from the whole history).
\<close>

named_theorems machine_simps
named_theorems table_simps
named_theorems frame_intros

section \<open>Machine integers and time\<close>

type_synonym u8 = "8 word"
type_synonym u16 = "16 word"
type_synonym u32 = "32 word"
type_synonym u64 = "64 word"
type_synonym bytes = "8 word list"

text \<open>An \<open>i32\<close> is an integer in \<open>-2\<^sup>3\<^sup>1 \<dots> 2\<^sup>3\<^sup>1 - 1\<close>; the Rust casts and saturating operations on
  it are written out.\<close>

definition i32_max :: int where
  "i32_max = 2147483647"

definition i32_min :: int where
  "i32_min = - 2147483648"

definition as_i32 :: "int \<Rightarrow> int" where
  "as_i32 x = (x + 2147483648) mod 4294967296 - 2147483648"

definition as_u32 :: "int \<Rightarrow> int" where
  "as_u32 x = x mod 4294967296"

definition i32_saturating_add :: "int \<Rightarrow> int \<Rightarrow> int" where
  "i32_saturating_add a b = max i32_min (min i32_max (a + b))"

lemma as_i32_id [machine_simps]: "i32_min \<le> x \<Longrightarrow> x \<le> i32_max \<Longrightarrow> as_i32 x = x"
  by (simp add: as_i32_def i32_min_def i32_max_def)

lemma as_i32_range: "i32_min \<le> as_i32 x \<and> as_i32 x \<le> i32_max"
proof -
  have "0 \<le> (x + 2147483648) mod 4294967296" "(x + 2147483648) mod 4294967296 < 4294967296"
    by simp_all
  then show ?thesis by (simp add: as_i32_def i32_min_def i32_max_def)
qed

lemma as_u32_id [machine_simps]: "0 \<le> x \<Longrightarrow> x \<le> i32_max \<Longrightarrow> as_u32 x = x"
  by (simp add: as_u32_def i32_max_def)

lemma saturating_add_mono: "0 \<le> b \<Longrightarrow> a \<le> i32_max \<Longrightarrow> a \<le> i32_saturating_add a b"
  by (simp add: i32_saturating_add_def)

lemma saturating_add_range:
  "i32_min \<le> i32_saturating_add a b \<and> i32_saturating_add a b \<le> i32_max"
  by (simp add: i32_saturating_add_def i32_min_def i32_max_def)

lemma saturating_add_pos:
  "0 \<le> a \<Longrightarrow> 0 < b \<Longrightarrow> 0 < i32_saturating_add a b"
  by (simp add: i32_saturating_add_def i32_min_def i32_max_def)

text \<open>Instants are nanoseconds since the epoch. \<open>num_seconds\<close> is \<open>chrono\<close>'s: the whole seconds of
  a difference, rounded towards zero. \<open>date_naive\<close> is the UTC day number.\<close>

type_synonym instant = int
type_synonym day = int

definition nanos_per_sec :: int where
  "nanos_per_sec = 1000000000"

definition num_seconds :: "int \<Rightarrow> int" where
  "num_seconds d = (if 0 \<le> d then d div nanos_per_sec else - ((- d) div nanos_per_sec))"

definition date_naive :: "instant \<Rightarrow> day" where
  "date_naive t = t div (86400 * nanos_per_sec)"

lemma num_seconds_nonneg: "0 \<le> d \<Longrightarrow> 0 \<le> num_seconds d"
  by (simp add: num_seconds_def nanos_per_sec_def)

lemma num_seconds_nonpos: "d \<le> 0 \<Longrightarrow> num_seconds d \<le> 0"
  by (cases "d = 0") (simp_all add: num_seconds_def nanos_per_sec_def)

lemma num_seconds_0 [simp]: "num_seconds 0 = 0"
  by (simp add: num_seconds_def)

lemma date_naive_mono: "s \<le> t \<Longrightarrow> date_naive s \<le> date_naive t"
  by (simp add: date_naive_def nanos_per_sec_def zdiv_mono1)

section \<open>Ordered tables\<close>

text \<open>A \<open>BTreeMap\<close> is the list of its entries in key order; a \<open>BTreeSet\<close> is the list of its
  elements in order (\<open>insort_insert\<close> of the library inserts into it). The same representation
  serves the rows of a database table with a primary key.\<close>

fun tab_upd :: "'k::linorder \<Rightarrow> 'v \<Rightarrow> ('k \<times> 'v) list \<Rightarrow> ('k \<times> 'v) list" where
  "tab_upd k v [] = [(k, v)]"
| "tab_upd k v ((a, b) # ps) =
     (if k < a then (k, v) # (a, b) # ps
      else if k = a then (k, v) # ps
      else (a, b) # tab_upd k v ps)"

abbreviation tab_ok :: "('k::linorder \<times> 'v) list \<Rightarrow> bool" where
  "tab_ok ps \<equiv> sorted_wrt (<) (map fst ps)"

lemma set_keys_tab_upd [table_simps]:
  "set (map fst (tab_upd k v ps)) = insert k (set (map fst ps))"
  by (induction k v ps rule: tab_upd.induct) (simp_all add: insert_commute)

lemma tab_ok_tab_upd [table_simps]: "tab_ok ps \<Longrightarrow> tab_ok (tab_upd k v ps)"
proof (induction ps)
  case Nil
  then show ?case by simp
next
  case (Cons p ps)
  obtain a b where p: "p = (a, b)" by (cases p)
  have "set (map fst (tab_upd k v ps)) = insert k (set (map fst ps))"
    by (rule set_keys_tab_upd)
  with Cons p show ?case by (auto simp: not_less)
qed

lemma map_of_tab_upd [table_simps]: "map_of (tab_upd k v ps) = (map_of ps)(k \<mapsto> v)"
  by (induction ps) (auto simp: fun_eq_iff)

lemma tab_ok_distinct: "tab_ok ps \<Longrightarrow> distinct (map fst ps)"
  by (simp add: strict_sorted_iff)

lemma tab_rebuild: "distinct (map fst ps) \<Longrightarrow> map (\<lambda>k. (k, the (map_of ps k))) (map fst ps) = ps"
  unfolding map_map by (rule map_idI) (auto simp: map_of_eq_Some_iff)

lemma tab_eqI:
  fixes ps qs :: "('k::linorder \<times> 'v) list"
  assumes "tab_ok ps" "tab_ok qs" "map_of ps = map_of qs"
  shows "ps = qs"
proof -
  from assms(1,2) have d: "distinct (map fst ps)" "distinct (map fst qs)"
    and "sorted (map fst ps)" "sorted (map fst qs)"
    by (simp_all add: strict_sorted_iff)
  moreover from assms(3) have "set (map fst ps) = set (map fst qs)"
    using dom_map_of_conv_image_fst [of ps] dom_map_of_conv_image_fst [of qs] by simp
  ultimately have "map fst ps = map fst qs"
    by (intro sorted_distinct_set_unique)
  with d assms(3) show ?thesis
    using tab_rebuild [of ps] tab_rebuild [of qs] by simp
qed

lemma sorted_list_of_set_insort_insert:
  "finite A \<Longrightarrow> sorted_list_of_set (insert x A) = insort_insert x (sorted_list_of_set A)"
  by (cases "x \<in> A") (simp_all add: insort_insert_key_def insert_absorb)

lemma sorted_map_last_le:
  "sorted (map f xs) \<Longrightarrow> y \<in> set xs \<Longrightarrow> f y \<le> (f (last xs) :: 'a::linorder)"
  by (induction xs rule: rev_induct) (auto simp: sorted_append)

lemma length_filter_mono: "(\<And>y. Q y \<Longrightarrow> P y) \<Longrightarrow> length (filter Q xs) \<le> length (filter P xs)"
  by (induction xs) auto

lemma length_filter_less_strict:
  assumes "x \<in> set xs" "P x" "\<not> Q x" "\<And>y. Q y \<Longrightarrow> P y"
  shows "length (filter Q xs) < length (filter P xs)"
  using assms(1)
proof (induction xs)
  case (Cons y ys)
  have "length (filter Q ys) \<le> length (filter P ys)"
    using assms(4) by (rule length_filter_mono)
  with Cons assms show ?case by (auto simp: less_Suc_eq_le)
qed simp

section \<open>Framed byte encodings\<close>

text \<open>\<open>u64::to_le_bytes\<close> and \<open>u32::to_le_bytes\<close>.\<close>

definition le_bytes :: "nat \<Rightarrow> nat \<Rightarrow> bytes" where
  "le_bytes n x = map (\<lambda>i. word_of_nat (x div 256 ^ i)) [0..<n]"

lemma length_le_bytes [simp]: "length (le_bytes n x) = n"
  by (simp add: le_bytes_def)

lemma le_bytes_Suc: "le_bytes (Suc n) x = word_of_nat x # le_bytes n (x div 256)"
  by (simp add: le_bytes_def upt_conv_Cons map_Suc_upt [symmetric] div_mult2_eq del: upt_Suc)

lemma le_bytes_inject:
  "x < 256 ^ n \<Longrightarrow> y < 256 ^ n \<Longrightarrow> le_bytes n x = le_bytes n y \<longleftrightarrow> x = y"
proof (induction n arbitrary: x y)
  case 0
  then show ?case by simp
next
  case (Suc n)
  have word: "(word_of_nat x :: u8) = word_of_nat y \<longleftrightarrow> x mod 256 = y mod 256"
    by (simp add: word_of_nat_eq_iff take_bit_eq_mod)
  have tails: "le_bytes n (x div 256) = le_bytes n (y div 256) \<longleftrightarrow> x div 256 = y div 256"
    using Suc.prems by (intro Suc.IH) (simp_all add: less_mult_imp_div_less mult.commute)
  have "x mod 256 = y mod 256 \<and> x div 256 = y div 256 \<longleftrightarrow> x = y"
    by (metis mod_div_mult_eq)
  then show ?case by (simp add: le_bytes_Suc word tails)
qed

text \<open>\<open>push_len_prefixed\<close>'s frame: the length as eight little-endian bytes, then the bytes.\<close>

definition len_prefixed :: "bytes \<Rightarrow> bytes" where
  "len_prefixed bs = le_bytes 8 (length bs) @ bs"

text \<open>An encoding is prefix-free when the encoding of one value, followed by anything, determines
  the encoding: a reader that knows where a field starts knows where it ends.\<close>

locale prefix_code =
  fixes enc :: "'a \<Rightarrow> bytes"
    and admissible :: "'a \<Rightarrow> bool"
  assumes prefix_free:
    "admissible x \<Longrightarrow> admissible y \<Longrightarrow> enc x @ xs = enc y @ ys \<Longrightarrow> enc x = enc y"
begin

lemma split_frame:
  assumes "admissible x" "admissible y" "enc x @ xs = enc y @ ys"
  shows "enc x = enc y \<and> xs = ys"
  using prefix_free [OF assms] assms(3) by simp

end

section \<open>Views maintained event by event\<close>

text \<open>A derived table is kept up to date by folding each event into it; \<open>derive\<close> computes the same
  table from the whole history. The law is that folding one more event commutes with deriving.\<close>

locale maintained_view =
  fixes empty_view :: "'s"
    and fold_in :: "'e \<Rightarrow> 's \<Rightarrow> 's"
    and derive :: "'e list \<Rightarrow> 's"
  assumes derive_Nil: "derive [] = empty_view"
    and derive_snoc: "derive (es @ [e]) = fold_in e (derive es)"
begin

lemma fold_is_derive: "fold fold_in es empty_view = derive es"
  by (induction es rule: rev_induct) (simp_all add: derive_Nil derive_snoc)

lemma fold_extends: "fold fold_in es (derive ds) = derive (ds @ es)"
proof (induction es rule: rev_induct)
  case (snoc e es)
  have "derive (ds @ es @ [e]) = fold_in e (derive (ds @ es))"
    using derive_snoc [of "ds @ es" e] by simp
  with snoc show ?case by simp
qed simp

end

end
