(* ===== verification/Domain.thy ===== *)
theory Domain
  imports Prelude
begin

text \<open>
  The domain types of \<open>crates/core-scoring/src/domain\<close>: the enumerations, the event as a sensor
  reports it, the per-address projection, and the signal weight table with the validation that
  couples an event to it. Addresses are \<open>std::net::IpAddr\<close>; decimals carry the scale that their
  textual form depends on; event metadata is \<open>serde_json::Value\<close>.
\<close>

section \<open>Addresses\<close>

datatype ip_addr = V4 u32 | V6 "128 word"

text \<open>\<open>IpAddr\<close>'s derived order: every IPv4 address before every IPv6 address, each by value.\<close>

instantiation ip_addr :: linorder
begin

fun less_eq_ip_addr :: "ip_addr \<Rightarrow> ip_addr \<Rightarrow> bool" where
  "less_eq_ip_addr (V4 a) (V4 b) = (a \<le> b)"
| "less_eq_ip_addr (V4 a) (V6 b) = True"
| "less_eq_ip_addr (V6 a) (V4 b) = False"
| "less_eq_ip_addr (V6 a) (V6 b) = (a \<le> b)"

definition less_ip_addr :: "ip_addr \<Rightarrow> ip_addr \<Rightarrow> bool" where
  "less_ip_addr x y \<longleftrightarrow> x \<le> y \<and> \<not> y \<le> x"

instance
proof
  fix x y z :: ip_addr
  show "(x < y) = (x \<le> y \<and> \<not> y \<le> x)" by (rule less_ip_addr_def)
  show "x \<le> x" by (cases x) simp_all
  show "x \<le> z" if "x \<le> y" "y \<le> z"
    using that by (cases x; cases y; cases z) auto
  show "x = y" if "x \<le> y" "y \<le> x"
    using that by (cases x; cases y) auto
  show "x \<le> y \<or> y \<le> x"
    by (cases x; cases y) auto
qed

end

definition octets4 :: "u32 \<Rightarrow> u8 list" where
  "octets4 w = map (\<lambda>i. ucast (drop_bit (8 * i) w)) [3, 2, 1, 0]"

definition segments6 :: "128 word \<Rightarrow> u16 list" where
  "segments6 w = map (\<lambda>i. ucast (drop_bit (16 * i) w)) [7, 6, 5, 4, 3, 2, 1, 0]"

definition ipv4_new :: "u8 \<Rightarrow> u8 \<Rightarrow> u8 \<Rightarrow> u8 \<Rightarrow> u32" where
  "ipv4_new a b c d =
     push_bit 24 (ucast a) + push_bit 16 (ucast b) + push_bit 8 (ucast c) + ucast d"

section \<open>Enumerations\<close>

datatype protocol = Tcp | Udp | Icmp

datatype category = Honeypot | Ids | Network | Waf | Auth

datatype feed_tier = Aggressive | Standard

datatype signal_type =
    HoneypotConnection
  | HoneypotLoginAttempt
  | HoneypotCommandExec
  | HoneypotMalwareUpload
  | HoneypotFileDownload
  | SuricataSev1
  | SuricataSev2
  | SuricataSev3
  | PortScan
  | SynFlood
  | BlockedConnection
  | WafSqliXss
  | WafGenericBlock
  | SshBruteForce
  | CatchallProbe
  | RemoteAuthFailure
  | HoneypotSessionEnd

datatype review_state = Pending | Approved | Rejected | Snoozed

text \<open>\<open>#[derive(Ord)]\<close> on \<open>Category\<close>: declaration order, which is the key order of the
  \<open>BTreeMap\<close> of category statistics.\<close>

primrec category_rank :: "category \<Rightarrow> nat" where
  "category_rank Honeypot = 0"
| "category_rank Ids = 1"
| "category_rank Network = 2"
| "category_rank Waf = 3"
| "category_rank Auth = 4"

lemma category_rank_inject: "category_rank c = category_rank d \<Longrightarrow> c = d"
  by (cases c; cases d) simp_all

instantiation category :: linorder
begin

definition less_eq_category :: "category \<Rightarrow> category \<Rightarrow> bool" where
  "less_eq_category c d \<longleftrightarrow> category_rank c \<le> category_rank d"

definition less_category :: "category \<Rightarrow> category \<Rightarrow> bool" where
  "less_category c d \<longleftrightarrow> category_rank c < category_rank d"

instance
  by standard (auto simp: less_eq_category_def less_category_def dest: category_rank_inject)

end

definition TELEMETRY :: "signal_type list" where
  "TELEMETRY = [HoneypotSessionEnd]"

definition is_telemetry :: "signal_type \<Rightarrow> bool" where
  "is_telemetry s \<longleftrightarrow> s \<in> set TELEMETRY"

definition ALL_SIGNALS :: "signal_type list" where
  "ALL_SIGNALS =
     [HoneypotConnection, HoneypotLoginAttempt, HoneypotCommandExec, HoneypotMalwareUpload,
      HoneypotFileDownload, SuricataSev1, SuricataSev2, SuricataSev3, PortScan, SynFlood,
      BlockedConnection, WafSqliXss, WafGenericBlock, SshBruteForce, CatchallProbe,
      RemoteAuthFailure, HoneypotSessionEnd]"

definition is_confirmed_real :: "protocol \<Rightarrow> bool \<Rightarrow> category \<Rightarrow> bool" where
  "is_confirmed_real p authenticated c \<longleftrightarrow> p = Tcp \<and> authenticated \<and> c = Honeypot"

section \<open>Decimals\<close>

text \<open>A \<open>rust_decimal::Decimal\<close> is a mantissa and a scale; comparison is by value, printing is not.
  \<open>rescale\<close> pads with zeros, or drops digits and rounds the magnitude half up on the last digit
  dropped.\<close>

record decimal =
  mantissa :: int
  scale :: nat

definition dval :: "decimal \<Rightarrow> rat" where
  "dval d = of_int (mantissa d) / 10 ^ scale d"

definition dec :: "int \<Rightarrow> nat \<Rightarrow> decimal" where
  "dec m s = \<lparr>mantissa = m, scale = s\<rparr>"

definition rescale :: "nat \<Rightarrow> decimal \<Rightarrow> decimal" where
  "rescale s d =
     (if scale d \<le> s then dec (mantissa d * 10 ^ (s - scale d)) s
      else let m = \<bar>mantissa d\<bar>;
               q = m div 10 ^ (scale d - s);
               digit = m div 10 ^ (scale d - s - 1) mod 10
           in dec (sgn (mantissa d) * (if 5 \<le> digit then q + 1 else q)) s)"

text \<open>\<open>Decimal::from(u32)\<close>.\<close>

definition decimal_from :: "u32 \<Rightarrow> rat" where
  "decimal_from w = of_nat (unat w)"

lemma decimal_from_nonneg [simp]: "0 \<le> decimal_from w"
  unfolding decimal_from_def by (rule of_nat_0_le_iff)

section \<open>Metadata\<close>

text \<open>\<open>serde_json::Value\<close>. Integers are kept apart by sign as the crate does; a float is its bits.
  An object is its entries in key order.\<close>

datatype json_number = PosInt u64 | NegInt u64 | Float u64

datatype json =
    JNull
  | JBool bool
  | JNumber json_number
  | JString string
  | JArray "json list"
  | JObject "(string \<times> json) list"

fun json_get :: "json \<Rightarrow> string \<Rightarrow> json option" where
  "json_get (JObject kvs) k = map_of kvs k"
| "json_get _ k = None"

fun as_u64 :: "json \<Rightarrow> nat option" where
  "as_u64 (JNumber (PosInt n)) = Some (unat n)"
| "as_u64 _ = None"

section \<open>Events, weights, projections\<close>

record event_input =
  ev_source_ip :: ip_addr
  ev_wan_ip :: "ip_addr option"
  ev_sensor :: string
  ev_signal_type :: signal_type
  ev_protocol :: protocol
  ev_authenticated :: bool
  ev_category :: category
  ev_weight :: u32
  ev_confidence :: decimal
  ev_observed_at :: instant
  ev_metadata :: json
  ev_session_id :: "128 word option"

record signal_weight_row =
  sw_weight :: u32
  sw_confidence :: decimal
  sw_category :: category

definition mk_weight :: "u32 \<Rightarrow> int \<Rightarrow> category \<Rightarrow> signal_weight_row" where
  "mk_weight w thousandths c =
     \<lparr>sw_weight = w, sw_confidence = dec thousandths 3, sw_category = c\<rparr>"

primrec signal_weight :: "signal_type \<Rightarrow> signal_weight_row" where
  "signal_weight HoneypotConnection = mk_weight 40 900 Honeypot"
| "signal_weight HoneypotLoginAttempt = mk_weight 50 920 Honeypot"
| "signal_weight HoneypotCommandExec = mk_weight 60 950 Honeypot"
| "signal_weight HoneypotMalwareUpload = mk_weight 80 980 Honeypot"
| "signal_weight HoneypotFileDownload = mk_weight 70 960 Honeypot"
| "signal_weight SuricataSev1 = mk_weight 30 700 Ids"
| "signal_weight SuricataSev2 = mk_weight 15 500 Ids"
| "signal_weight SuricataSev3 = mk_weight 5 300 Ids"
| "signal_weight PortScan = mk_weight 20 600 Network"
| "signal_weight SynFlood = mk_weight 25 700 Network"
| "signal_weight BlockedConnection = mk_weight 3 150 Network"
| "signal_weight WafSqliXss = mk_weight 35 850 Waf"
| "signal_weight WafGenericBlock = mk_weight 15 500 Waf"
| "signal_weight SshBruteForce = mk_weight 20 600 Auth"
| "signal_weight CatchallProbe = mk_weight 15 400 Network"
| "signal_weight RemoteAuthFailure = mk_weight 12 400 Auth"
| "signal_weight HoneypotSessionEnd = mk_weight 0 0 Honeypot"

datatype validation_error = ConfidenceOutOfRange | SensorEmpty | SignalTypeMismatch

definition from_signal ::
  "ip_addr \<Rightarrow> ip_addr option \<Rightarrow> string \<Rightarrow> signal_type \<Rightarrow> protocol \<Rightarrow> bool \<Rightarrow> instant \<Rightarrow> json
   \<Rightarrow> 128 word option \<Rightarrow> event_input" where
  "from_signal src wan sensor st p auth t meta sid =
     (let w = signal_weight st in
      \<lparr>ev_source_ip = src, ev_wan_ip = wan, ev_sensor = sensor, ev_signal_type = st,
       ev_protocol = p, ev_authenticated = auth, ev_category = sw_category w,
       ev_weight = sw_weight w, ev_confidence = sw_confidence w, ev_observed_at = t,
       ev_metadata = meta, ev_session_id = sid\<rparr>)"

definition validate :: "event_input \<Rightarrow> validation_error + unit" where
  "validate e =
     (if dval (ev_confidence e) < 0 \<or> 1 < dval (ev_confidence e) then Inl ConfidenceOutOfRange
      else if ev_sensor e = [] then Inl SensorEmpty
      else let w = signal_weight (ev_signal_type e) in
        if ev_category e \<noteq> sw_category w \<or> ev_weight e \<noteq> sw_weight w
           \<or> dval (ev_confidence e) \<noteq> dval (sw_confidence w)
        then Inl SignalTypeMismatch
        else Inr ())"

record category_stat =
  cs_weight :: rat
  cs_max_confidence :: rat

record ip_score =
  sc_source_ip :: ip_addr
  sc_raw_score :: rat
  sc_decay_anchor :: instant
  sc_max_confidence :: rat
  sc_event_count :: int
  sc_established_event_count :: int
  sc_distinct_categories :: int
  sc_category_breakdown :: "(category \<times> category_stat) list"
  sc_has_confirmed_real :: bool
  sc_distinct_wan_count :: int
  sc_distinct_sensor_count :: int
  sc_active_days :: int
  sc_last_active_day :: day
  sc_first_seen :: instant
  sc_last_seen :: instant
  sc_eligible :: bool
  sc_recommended_for_vendor :: bool
  sc_recommended_for_blocklist :: bool
  sc_tier :: "feed_tier option"
  sc_delisted :: bool

section \<open>The weight table and validation\<close>

lemma signal_weight_range:
  "unat (sw_weight (signal_weight s)) \<le> 80
   \<and> 0 \<le> dval (sw_confidence (signal_weight s)) \<and> dval (sw_confidence (signal_weight s)) \<le> 1"
  by (cases s) (simp_all add: mk_weight_def dval_def dec_def)

lemma validate_Inr_iff:
  "validate e = Inr () \<longleftrightarrow>
     ev_sensor e \<noteq> [] \<and> ev_category e = sw_category (signal_weight (ev_signal_type e))
     \<and> ev_weight e = sw_weight (signal_weight (ev_signal_type e))
     \<and> dval (ev_confidence e) = dval (sw_confidence (signal_weight (ev_signal_type e)))"
  using signal_weight_range [of "ev_signal_type e"] by (auto simp: validate_def Let_def)

lemma from_signal_simps [simp]:
  "ev_source_ip (from_signal src wan sensor st p auth t meta sid) = src"
  "ev_wan_ip (from_signal src wan sensor st p auth t meta sid) = wan"
  "ev_sensor (from_signal src wan sensor st p auth t meta sid) = sensor"
  "ev_signal_type (from_signal src wan sensor st p auth t meta sid) = st"
  "ev_protocol (from_signal src wan sensor st p auth t meta sid) = p"
  "ev_authenticated (from_signal src wan sensor st p auth t meta sid) = auth"
  "ev_category (from_signal src wan sensor st p auth t meta sid) = sw_category (signal_weight st)"
  "ev_weight (from_signal src wan sensor st p auth t meta sid) = sw_weight (signal_weight st)"
  "ev_confidence (from_signal src wan sensor st p auth t meta sid) = sw_confidence (signal_weight st)"
  "ev_observed_at (from_signal src wan sensor st p auth t meta sid) = t"
  "ev_metadata (from_signal src wan sensor st p auth t meta sid) = meta"
  "ev_session_id (from_signal src wan sensor st p auth t meta sid) = sid"
  by (simp_all add: from_signal_def Let_def)

lemma validate_from_signal:
  "sensor \<noteq> [] \<Longrightarrow> validate (from_signal src wan sensor st p auth t meta sid) = Inr ()"
  by (simp add: validate_Inr_iff)

lemma validated_confirmed_real:
  assumes "validate e = Inr ()"
  shows "is_confirmed_real (ev_protocol e) (ev_authenticated e) (ev_category e) \<longleftrightarrow>
    ev_protocol e = Tcp \<and> ev_authenticated e
    \<and> ev_signal_type e \<in> {HoneypotConnection, HoneypotLoginAttempt, HoneypotCommandExec,
         HoneypotMalwareUpload, HoneypotFileDownload, HoneypotSessionEnd}"
  using assms by (cases "ev_signal_type e")
    (simp_all add: validate_Inr_iff is_confirmed_real_def mk_weight_def)

lemma ALL_SIGNALS_complete: "set ALL_SIGNALS = UNIV \<and> distinct ALL_SIGNALS"
proof -
  have "s \<in> set ALL_SIGNALS" for s
    by (cases s) (simp_all add: ALL_SIGNALS_def)
  then show ?thesis by (auto simp: ALL_SIGNALS_def)
qed

lemma is_telemetry_iff: "is_telemetry s \<longleftrightarrow> s = HoneypotSessionEnd"
  by (simp add: is_telemetry_def TELEMETRY_def)

end
