(* ===== verification/Scoring.thy ===== *)
theory Scoring
  imports Domain
begin

text \<open>
  The pure scoring functions of \<open>crates/core-scoring/src/scoring\<close>: decay, breadth, persistence,
  eligibility, tier and recommendations, and the two functions built from them, \<open>apply_event\<close> (the
  write path folds one event into a projection) and \<open>project_to_now\<close> (the read path decays a stored
  projection to the present).

  Scores are rationals. \<open>Decimal\<close> arithmetic rounds to 28 significant digits and the decay factor
  passes through \<open>f64::powf\<close>; both are the two fields of \<open>arith\<close>, an argument of every definition
  that computes a score. \<open>arith_ok\<close> collects the documented behaviour a property may rely on.
\<close>

section \<open>Arithmetic the crate takes from rust_decimal and f64\<close>

record arith =
  rnd :: "rat \<Rightarrow> rat"
  half_pow :: "int \<Rightarrow> int \<Rightarrow> rat"

text \<open>\<open>rnd\<close> maps the exact result of a \<open>Decimal\<close> operation to the representable result: it is
  monotone, does nothing to a value that is already representable, and leaves numbers with at most
  three decimals alone. \<open>half_pow e h\<close> is
  \<open>Decimal::from_f64_retain(0.5f64.powf(e as f64 / h as f64)).unwrap_or(ZERO)\<close>: a factor between
  zero and one that does not grow with the elapsed time.\<close>

definition arith_ok :: "arith \<Rightarrow> bool" where
  "arith_ok A \<longleftrightarrow>
     (\<forall>x y. x \<le> y \<longrightarrow> rnd A x \<le> rnd A y) \<and>
     (\<forall>x. rnd A (rnd A x) = rnd A x) \<and>
     (\<forall>m::int. \<bar>m\<bar> \<le> 1000000000 \<longrightarrow> rnd A (of_int m / 1000) = of_int m / 1000) \<and>
     (\<forall>e h. 0 < e \<longrightarrow> 0 < h \<longrightarrow> 0 \<le> half_pow A e h \<and> half_pow A e h \<le> 1) \<and>
     (\<forall>e e' h. 0 < e \<longrightarrow> e \<le> e' \<longrightarrow> 0 < h \<longrightarrow> half_pow A e' h \<le> half_pow A e h)"

section \<open>Constants\<close>

definition HALF_LIFE_SECONDS :: int where "HALF_LIFE_SECONDS = 21600"
definition DEDUP_WINDOW_SECONDS :: int where "DEDUP_WINDOW_SECONDS = 60"
definition SCORE_CAP :: rat where "SCORE_CAP = 100"
definition BREADTH_PER_WAN :: rat where "BREADTH_PER_WAN = 15 / 100"
definition BREADTH_CAP :: rat where "BREADTH_CAP = 60 / 100"
definition BLOCKLIST_FLOOR :: rat where "BLOCKLIST_FLOOR = 50"
definition PERSIST_PER_DAY :: rat where "PERSIST_PER_DAY = 55 / 100"
definition PERSIST_GRACE_DAYS :: int where "PERSIST_GRACE_DAYS = 2"
definition PERSIST_CAP :: rat where "PERSIST_CAP = 60"
definition VOLUME_LIST_THRESHOLD :: int where "VOLUME_LIST_THRESHOLD = 1000"
definition VOLUME_LIST_WINDOW_SECONDS :: int where "VOLUME_LIST_WINDOW_SECONDS = 86400"
definition EVENT_SUMMARY_KEY :: string where "EVENT_SUMMARY_KEY = ''event_summary''"
definition OVERFLOW_SUMMARY_KEY :: string where "OVERFLOW_SUMMARY_KEY = ''overflow_summary''"
definition MAX_SUMMARY_EVENTS :: nat where "MAX_SUMMARY_EVENTS = 1000000"
definition LIVE_FLOOR :: rat where "LIVE_FLOOR = 5 / 10"

lemmas scoring_constants =
  HALF_LIFE_SECONDS_def DEDUP_WINDOW_SECONDS_def SCORE_CAP_def BREADTH_PER_WAN_def
  BREADTH_CAP_def BLOCKLIST_FLOOR_def PERSIST_PER_DAY_def PERSIST_GRACE_DAYS_def PERSIST_CAP_def
  VOLUME_LIST_THRESHOLD_def VOLUME_LIST_WINDOW_SECONDS_def EVENT_SUMMARY_KEY_def
  OVERFLOW_SUMMARY_KEY_def MAX_SUMMARY_EVENTS_def LIVE_FLOOR_def

section \<open>Decay, breadth, persistence\<close>

definition decay :: "arith \<Rightarrow> rat \<Rightarrow> int \<Rightarrow> int \<Rightarrow> rat" where
  "decay A prev elapsed_seconds half_life_seconds =
     (if elapsed_seconds \<le> 0 then prev
      else rnd A (prev * half_pow A elapsed_seconds half_life_seconds))"

record wan_vantage =
  wv_wan_ip :: ip_addr
  wv_saw_authenticated_tcp :: bool

fun dedupe_prefix :: "ip_addr \<Rightarrow> ip_addr" where
  "dedupe_prefix (V4 w) =
     V4 (ipv4_new (octets4 w ! 0) (octets4 w ! 1) (octets4 w ! 2) 0)"
| "dedupe_prefix (V6 w) = V6 (push_bit 64 (drop_bit 64 w))"

definition distinct_wan_count :: "wan_vantage list \<Rightarrow> int" where
  "distinct_wan_count vantages =
     as_u32 (int (card (set (map (\<lambda>v. dedupe_prefix (wv_wan_ip v))
       (filter wv_saw_authenticated_tcp vantages)))))"

definition breadth_factor :: "arith \<Rightarrow> int \<Rightarrow> rat" where
  "breadth_factor A n =
     (let extra_wans = max 0 (n - 1)
      in rnd A (1 + min BREADTH_CAP (rnd A (BREADTH_PER_WAN * of_int extra_wans))))"

definition effective_score :: "arith \<Rightarrow> rat \<Rightarrow> int \<Rightarrow> rat" where
  "effective_score A raw n = min SCORE_CAP (rnd A (raw * breadth_factor A n))"

definition persistence_points :: "arith \<Rightarrow> int \<Rightarrow> rat" where
  "persistence_points A active_days =
     (let beyond_grace = max 0 (active_days - PERSIST_GRACE_DAYS)
      in min PERSIST_CAP (rnd A (PERSIST_PER_DAY * of_int beyond_grace)))"

section \<open>Gates\<close>

definition eligible :: "bool \<Rightarrow> int \<Rightarrow> int \<Rightarrow> bool \<Rightarrow> bool" where
  "eligible has_confirmed_real event_count distinct_categories delisted \<longleftrightarrow>
     \<not> delisted \<and> has_confirmed_real \<and> 2 \<le> event_count"

definition tier :: "rat \<Rightarrow> rat \<Rightarrow> feed_tier option" where
  "tier raw_score max_confidence =
     (if 90 \<le> raw_score \<and> 95 / 100 \<le> max_confidence then Some Aggressive
      else if 75 \<le> raw_score \<and> 70 / 100 \<le> max_confidence then Some Standard
      else None)"

definition recommended_for_vendor :: "bool \<Rightarrow> feed_tier option \<Rightarrow> bool" where
  "recommended_for_vendor el t \<longleftrightarrow> el \<and> t \<noteq> None"

definition recommended_for_blocklist :: "bool \<Rightarrow> rat \<Rightarrow> bool" where
  "recommended_for_blocklist el effective \<longleftrightarrow> el \<and> BLOCKLIST_FLOOR \<le> effective"

definition recommended_by_volume :: "bool \<Rightarrow> int \<Rightarrow> int \<Rightarrow> bool" where
  "recommended_by_volume delisted event_count seconds_since_last_seen \<longleftrightarrow>
     \<not> delisted \<and> VOLUME_LIST_THRESHOLD \<le> event_count
     \<and> seconds_since_last_seen \<le> VOLUME_LIST_WINDOW_SECONDS"

section \<open>The fold and the read projection\<close>

definition flagged :: "event_input \<Rightarrow> string \<Rightarrow> bool" where
  "flagged e key \<longleftrightarrow> json_get (ev_metadata e) key = Some (JBool True)"

definition is_unattributed_summary :: "event_input \<Rightarrow> bool" where
  "is_unattributed_summary e \<longleftrightarrow> flagged e OVERFLOW_SUMMARY_KEY"

definition represented_events :: "event_input \<Rightarrow> int" where
  "represented_events e =
     (let is_summary = ev_signal_type e \<in> {HoneypotConnection, HoneypotLoginAttempt}
            \<and> flagged e EVENT_SUMMARY_KEY \<and> \<not> flagged e OVERFLOW_SUMMARY_KEY;
          count = (if is_summary then Option.bind (json_get (ev_metadata e) ''suppressed_count'') as_u64
                   else None);
          n = (case count of Some n \<Rightarrow> if 0 < n then min n MAX_SUMMARY_EVENTS else 1 | None \<Rightarrow> 1)
      in if int n \<le> i32_max then int n else i32_max)"

definition live :: "(category \<times> category_stat) list \<Rightarrow> category_stat list" where
  "live breakdown = filter (\<lambda>s. LIVE_FLOOR < cs_weight s) (map snd breakdown)"

fun max_or_zero :: "rat list \<Rightarrow> rat" where
  "max_or_zero [] = 0"
| "max_or_zero (x # xs) = fold max xs x"

definition derive_projection ::
  "arith \<Rightarrow> ip_addr \<Rightarrow> rat \<Rightarrow> (category \<times> category_stat) list \<Rightarrow> bool \<Rightarrow> int \<Rightarrow> int \<Rightarrow> int \<Rightarrow> int
   \<Rightarrow> int \<Rightarrow> day \<Rightarrow> instant \<Rightarrow> instant \<Rightarrow> instant \<Rightarrow> bool \<Rightarrow> ip_score" where
  "derive_projection A source_ip raw_score breakdown has_confirmed_real event_count
     established_event_count distinct_wans distinct_sensors active_days last_active_day
     first_seen last_seen decay_anchor delisted =
     (let distinct_categories = as_i32 (int (length (live breakdown)));
          max_confidence = max_or_zero (map cs_max_confidence (live breakdown));
          is_eligible = eligible has_confirmed_real (as_u32 event_count)
            (as_u32 distinct_categories) delisted;
          gated_raw = min SCORE_CAP (rnd A (raw_score + persistence_points A active_days));
          effective = effective_score A gated_raw (as_u32 distinct_wans);
          feed_tier = tier gated_raw max_confidence;
          rec_vendor = recommended_for_vendor is_eligible feed_tier;
          seconds_since_last_seen = num_seconds (decay_anchor - last_seen);
          rec_blocklist = (recommended_for_blocklist is_eligible effective
            \<or> recommended_by_volume delisted (as_u32 established_event_count)
                seconds_since_last_seen)
      in \<lparr>sc_source_ip = source_ip, sc_raw_score = raw_score, sc_decay_anchor = decay_anchor,
          sc_max_confidence = max_confidence, sc_event_count = event_count,
          sc_established_event_count = established_event_count,
          sc_distinct_categories = distinct_categories, sc_category_breakdown = breakdown,
          sc_has_confirmed_real = has_confirmed_real, sc_distinct_wan_count = distinct_wans,
          sc_distinct_sensor_count = distinct_sensors, sc_active_days = active_days,
          sc_last_active_day = last_active_day, sc_first_seen = first_seen,
          sc_last_seen = last_seen, sc_eligible = is_eligible,
          sc_recommended_for_vendor = rec_vendor, sc_recommended_for_blocklist = rec_blocklist,
          sc_tier = feed_tier, sc_delisted = delisted\<rparr>)"

definition decay_breakdown ::
  "arith \<Rightarrow> int \<Rightarrow> int \<Rightarrow> (category \<times> category_stat) list \<Rightarrow> (category \<times> category_stat) list" where
  "decay_breakdown A elapsed half_life b =
     map (\<lambda>(c, s). (c, s\<lparr>cs_weight := decay A (cs_weight s) elapsed half_life\<rparr>)) b"

definition add_contribution ::
  "arith \<Rightarrow> event_input \<Rightarrow> (category \<times> category_stat) list \<Rightarrow> (category \<times> category_stat) list" where
  "add_contribution A e b =
     (let old = (case map_of b (ev_category e) of
                   Some s \<Rightarrow> s | None \<Rightarrow> \<lparr>cs_weight = 0, cs_max_confidence = 0\<rparr>)
      in tab_upd (ev_category e)
           \<lparr>cs_weight = rnd A (cs_weight old + decimal_from (ev_weight e)),
            cs_max_confidence = (if cs_max_confidence old < dval (ev_confidence e)
                                 then dval (ev_confidence e) else cs_max_confidence old)\<rparr> b)"

definition next_active_day :: "(int \<times> day) option \<Rightarrow> day \<Rightarrow> int \<times> day" where
  "next_active_day prev event_day =
     (case prev of
        None \<Rightarrow> (1, event_day)
      | Some (days, last_day) \<Rightarrow>
          (if last_day < event_day then days + 1 else days, max last_day event_day))"

definition apply_event ::
  "arith \<Rightarrow> ip_score option \<Rightarrow> event_input \<Rightarrow> int \<Rightarrow> bool \<Rightarrow> int \<Rightarrow> int \<Rightarrow> ip_score" where
  "apply_event A prev e half_life deduped wans sensors =
     (let now = ev_observed_at e;
          (decayed_raw, breakdown, first_seen, prev_count, prev_established, prev_real, delisted,
           prev_days) =
            (case prev of
               None \<Rightarrow> (0, [], now, 0, 0, False, False, None)
             | Some p \<Rightarrow>
                 (let elapsed = num_seconds (now - sc_decay_anchor p)
                  in (decay A (sc_raw_score p) elapsed half_life,
                      decay_breakdown A elapsed half_life (sc_category_breakdown p),
                      sc_first_seen p, sc_event_count p, sc_established_event_count p,
                      sc_has_confirmed_real p, sc_delisted p,
                      Some (sc_active_days p, sc_last_active_day p))));
          (active_days, last_active_day) = next_active_day prev_days (date_naive now);
          unattributed = is_unattributed_summary e;
          (new_raw, breakdown') =
            (if deduped \<or> unattributed then (decayed_raw, breakdown)
             else (min SCORE_CAP (rnd A (decayed_raw + decimal_from (ev_weight e))),
                   add_contribution A e breakdown));
          has_confirmed_real = (prev_real \<or>
            (\<not> unattributed
             \<and> is_confirmed_real (ev_protocol e) (ev_authenticated e) (ev_category e)));
          represented = represented_events e;
          event_count = i32_saturating_add prev_count represented;
          established = (if ev_protocol e = Tcp
            then i32_saturating_add prev_established represented else prev_established)
      in derive_projection A (ev_source_ip e) new_raw breakdown' has_confirmed_real event_count
           established wans sensors active_days last_active_day first_seen now now delisted)"

definition project_to_now :: "arith \<Rightarrow> ip_score \<Rightarrow> instant \<Rightarrow> int \<Rightarrow> ip_score" where
  "project_to_now A stored now half_life =
     (let elapsed = num_seconds (now - sc_decay_anchor stored);
          raw_score = decay A (sc_raw_score stored) elapsed half_life;
          breakdown = decay_breakdown A elapsed half_life (sc_category_breakdown stored)
      in derive_projection A (sc_source_ip stored) raw_score breakdown
           (sc_has_confirmed_real stored) (sc_event_count stored)
           (sc_established_event_count stored) (sc_distinct_wan_count stored)
           (sc_distinct_sensor_count stored) (sc_active_days stored)
           (sc_last_active_day stored) (sc_first_seen stored) (sc_last_seen stored) now
           (sc_delisted stored))"

section \<open>Laws of the arithmetic\<close>

lemma rnd_mono: "arith_ok A \<Longrightarrow> x \<le> y \<Longrightarrow> rnd A x \<le> rnd A y"
  by (simp add: arith_ok_def)

lemma rnd_idem: "arith_ok A \<Longrightarrow> rnd A (rnd A x) = rnd A x"
  by (simp add: arith_ok_def)

lemma rnd_exact: "arith_ok A \<Longrightarrow> \<bar>m\<bar> \<le> 1000000000 \<Longrightarrow> rnd A (of_int m / 1000) = of_int m / 1000"
  by (simp add: arith_ok_def)

lemma rnd_int: "arith_ok A \<Longrightarrow> \<bar>m\<bar> \<le> 1000000 \<Longrightarrow> rnd A (of_int m) = of_int m"
  using rnd_exact [of A "1000 * m"] by simp

lemma rnd_0: "arith_ok A \<Longrightarrow> rnd A 0 = 0"
  using rnd_int [of A 0] by simp

lemma rnd_1: "arith_ok A \<Longrightarrow> rnd A 1 = 1"
  using rnd_int [of A 1] by simp

lemma rnd_100: "arith_ok A \<Longrightarrow> rnd A 100 = 100"
  using rnd_int [of A 100] by simp

lemma rnd_nonneg: "arith_ok A \<Longrightarrow> 0 \<le> x \<Longrightarrow> 0 \<le> rnd A x"
  using rnd_mono [of A 0 x] by (simp add: rnd_0)

lemma half_pow_range:
  "arith_ok A \<Longrightarrow> 0 < e \<Longrightarrow> 0 < h \<Longrightarrow> 0 \<le> half_pow A e h \<and> half_pow A e h \<le> 1"
  by (simp add: arith_ok_def)

lemma half_pow_antimono:
  "arith_ok A \<Longrightarrow> 0 < e \<Longrightarrow> e \<le> e' \<Longrightarrow> 0 < h \<Longrightarrow> half_pow A e' h \<le> half_pow A e h"
  unfolding arith_ok_def by blast

lemma decay_nonneg: "arith_ok A \<Longrightarrow> 0 < h \<Longrightarrow> 0 \<le> x \<Longrightarrow> 0 \<le> decay A x e h"
  using half_pow_range [of A e h] by (simp add: decay_def rnd_nonneg)

lemma decay_fixed: "arith_ok A \<Longrightarrow> rnd A x = x \<Longrightarrow> rnd A (decay A x e h) = decay A x e h"
  by (simp add: decay_def rnd_idem)

lemma decay_le:
  assumes "arith_ok A" "0 < h" "0 \<le> x" "rnd A x = x"
  shows "decay A x e h \<le> x"
proof (cases "e \<le> 0")
  case False
  then have "x * half_pow A e h \<le> x"
    using assms half_pow_range [of A e h] by (simp add: mult_left_le)
  then have "rnd A (x * half_pow A e h) \<le> rnd A x"
    by (rule rnd_mono [OF assms(1)])
  with False assms(4) show ?thesis by (simp add: decay_def)
qed (simp add: decay_def)

lemma decay_mono:
  assumes "arith_ok A" "0 < h" "x \<le> y"
  shows "decay A x e h \<le> decay A y e h"
proof (cases "e \<le> 0")
  case False
  then show ?thesis
    using assms half_pow_range [of A e h]
    by (auto simp: decay_def intro!: rnd_mono mult_right_mono)
qed (simp add: decay_def assms)

lemma decay_antimono:
  assumes "arith_ok A" "0 < h" "0 \<le> x" "rnd A x = x" "e \<le> e'"
  shows "decay A x e' h \<le> decay A x e h"
proof (cases "e \<le> 0")
  case True
  then show ?thesis using decay_le [OF assms(1-4), of e'] by (simp add: decay_def)
next
  case False
  then have "x * half_pow A e' h \<le> x * half_pow A e h"
    using assms half_pow_antimono [of A e e' h] by (intro mult_left_mono) simp_all
  with False assms(1,5) show ?thesis
    by (simp add: decay_def rnd_mono)
qed

section \<open>Breadth and persistence\<close>

lemma breadth_factor_range:
  assumes "arith_ok A"
  shows "1 \<le> breadth_factor A n \<and> breadth_factor A n \<le> 16 / 10"
proof -
  let ?x = "min BREADTH_CAP (rnd A (BREADTH_PER_WAN * of_int (max 0 (n - 1))))"
  have "0 \<le> ?x" "?x \<le> 6 / 10"
    by (simp_all add: scoring_constants rnd_nonneg assms)
  then have "rnd A 1 \<le> rnd A (1 + ?x)" "rnd A (1 + ?x) \<le> rnd A (of_int 1600 / 1000)"
    by (intro rnd_mono [OF assms]; simp)+
  then show ?thesis
    using rnd_exact [OF assms, of 1600] by (simp add: breadth_factor_def Let_def rnd_1 assms)
qed

lemma persistence_points_range:
  "arith_ok A \<Longrightarrow> 0 \<le> persistence_points A d \<and> persistence_points A d \<le> PERSIST_CAP"
  by (simp add: persistence_points_def Let_def scoring_constants rnd_nonneg)

lemma persistence_points_grace:
  "arith_ok A \<Longrightarrow> d \<le> PERSIST_GRACE_DAYS \<Longrightarrow> persistence_points A d = 0"
  by (simp add: persistence_points_def Let_def scoring_constants rnd_0 max_absorb1)

lemma persistence_points_mono:
  assumes "arith_ok A" "d \<le> d'"
  shows "persistence_points A d \<le> persistence_points A d'"
proof -
  have "rnd A (PERSIST_PER_DAY * of_int (max 0 (d - PERSIST_GRACE_DAYS)))
      \<le> rnd A (PERSIST_PER_DAY * of_int (max 0 (d' - PERSIST_GRACE_DAYS)))"
    using assms(2) by (intro rnd_mono [OF assms(1)]) (simp add: scoring_constants)
  then show ?thesis
    by (simp add: persistence_points_def Let_def min.coboundedI2 min.mono)
qed

lemma distinct_wan_count_cong:
  "dedupe_prefix ` wv_wan_ip ` {v \<in> set vs. wv_saw_authenticated_tcp v}
     = dedupe_prefix ` wv_wan_ip ` {v \<in> set ws. wv_saw_authenticated_tcp v}
   \<Longrightarrow> distinct_wan_count vs = distinct_wan_count ws"
  by (simp add: distinct_wan_count_def image_image)

lemma distinct_wan_count_spoofed:
  "\<not> wv_saw_authenticated_tcp v \<Longrightarrow> distinct_wan_count (v # vs) = distinct_wan_count vs"
  by (simp add: distinct_wan_count_def)

lemma distinct_wan_count_same_prefix:
  assumes "v \<in> set vs" "wv_saw_authenticated_tcp v" "dedupe_prefix (wv_wan_ip w) = dedupe_prefix (wv_wan_ip v)"
  shows "distinct_wan_count (w # vs) = distinct_wan_count vs"
proof -
  have "dedupe_prefix (wv_wan_ip w) \<in> (\<lambda>v. dedupe_prefix (wv_wan_ip v)) ` {v \<in> set vs. wv_saw_authenticated_tcp v}"
    using assms by force
  then show ?thesis by (simp add: distinct_wan_count_def insert_absorb)
qed

section \<open>The projection and its derived facts\<close>

lemma derive_projection_sel [simp]:
  fixes A ip raw b real ec est wans sens days lday fs ls anchor del
  defines "r \<equiv> derive_projection A ip raw b real ec est wans sens days lday fs ls anchor del"
  shows "sc_source_ip r = ip" "sc_raw_score r = raw" "sc_decay_anchor r = anchor"
    "sc_event_count r = ec" "sc_established_event_count r = est" "sc_category_breakdown r = b"
    "sc_has_confirmed_real r = real" "sc_distinct_wan_count r = wans"
    "sc_distinct_sensor_count r = sens" "sc_active_days r = days" "sc_last_active_day r = lday"
    "sc_first_seen r = fs" "sc_last_seen r = ls" "sc_delisted r = del"
    "sc_max_confidence r = max_or_zero (map cs_max_confidence (live b))"
  by (simp_all add: r_def derive_projection_def Let_def)

lemma derive_projection_gates:
  fixes A ip raw b real ec est wans sens days lday fs ls anchor del
  defines "r \<equiv> derive_projection A ip raw b real ec est wans sens days lday fs ls anchor del"
    and "gated \<equiv> min SCORE_CAP (rnd A (raw + persistence_points A days))"
  shows "sc_eligible r \<longleftrightarrow> \<not> del \<and> real \<and> 2 \<le> as_u32 ec"
    "sc_tier r = tier gated (sc_max_confidence r)"
    "sc_recommended_for_vendor r \<longleftrightarrow> sc_eligible r \<and> sc_tier r \<noteq> None"
    "sc_recommended_for_blocklist r \<longleftrightarrow>
       sc_eligible r \<and> BLOCKLIST_FLOOR \<le> effective_score A gated (as_u32 wans)
       \<or> recommended_by_volume del (as_u32 est) (num_seconds (anchor - ls))"
  by (simp_all add: r_def gated_def derive_projection_def Let_def eligible_def
      recommended_for_vendor_def recommended_for_blocklist_def)

text \<open>A projection is coherent when its derived facts are the ones its base facts give.\<close>

definition rederive :: "arith \<Rightarrow> ip_score \<Rightarrow> ip_score" where
  "rederive A s = derive_projection A (sc_source_ip s) (sc_raw_score s) (sc_category_breakdown s)
     (sc_has_confirmed_real s) (sc_event_count s) (sc_established_event_count s)
     (sc_distinct_wan_count s) (sc_distinct_sensor_count s) (sc_active_days s)
     (sc_last_active_day s) (sc_first_seen s) (sc_last_seen s) (sc_decay_anchor s) (sc_delisted s)"

definition prior_raw :: "arith \<Rightarrow> ip_score option \<Rightarrow> instant \<Rightarrow> int \<Rightarrow> rat" where
  "prior_raw A prev now h =
     (case prev of None \<Rightarrow> 0
      | Some p \<Rightarrow> decay A (sc_raw_score p) (num_seconds (now - sc_decay_anchor p)) h)"

definition prior_breakdown ::
  "arith \<Rightarrow> ip_score option \<Rightarrow> instant \<Rightarrow> int \<Rightarrow> (category \<times> category_stat) list" where
  "prior_breakdown A prev now h =
     (case prev of None \<Rightarrow> []
      | Some p \<Rightarrow> decay_breakdown A (num_seconds (now - sc_decay_anchor p)) h (sc_category_breakdown p))"

lemma apply_event_sel:
  fixes A prev e h d w n
  defines "r \<equiv> apply_event A prev e h d w n"
    and "skip \<equiv> d \<or> is_unattributed_summary e"
  shows "sc_source_ip r = ev_source_ip e"
    "sc_raw_score r = (if skip then prior_raw A prev (ev_observed_at e) h
       else min SCORE_CAP (rnd A (prior_raw A prev (ev_observed_at e) h + decimal_from (ev_weight e))))"
    "sc_category_breakdown r = (if skip then prior_breakdown A prev (ev_observed_at e) h
       else add_contribution A e (prior_breakdown A prev (ev_observed_at e) h))"
    "sc_has_confirmed_real r \<longleftrightarrow> (case prev of None \<Rightarrow> False | Some p \<Rightarrow> sc_has_confirmed_real p)
       \<or> \<not> is_unattributed_summary e
         \<and> is_confirmed_real (ev_protocol e) (ev_authenticated e) (ev_category e)"
    "sc_event_count r = i32_saturating_add
       (case prev of None \<Rightarrow> 0 | Some p \<Rightarrow> sc_event_count p) (represented_events e)"
    "sc_established_event_count r =
       (let before = (case prev of None \<Rightarrow> 0 | Some p \<Rightarrow> sc_established_event_count p)
        in if ev_protocol e = Tcp then i32_saturating_add before (represented_events e) else before)"
    "sc_distinct_wan_count r = w" "sc_distinct_sensor_count r = n"
    "(sc_active_days r, sc_last_active_day r) = next_active_day
       (map_option (\<lambda>p. (sc_active_days p, sc_last_active_day p)) prev) (date_naive (ev_observed_at e))"
    "sc_first_seen r = (case prev of None \<Rightarrow> ev_observed_at e | Some p \<Rightarrow> sc_first_seen p)"
    "sc_last_seen r = ev_observed_at e" "sc_decay_anchor r = ev_observed_at e"
    "sc_delisted r \<longleftrightarrow> (case prev of None \<Rightarrow> False | Some p \<Rightarrow> sc_delisted p)"
    "rederive A r = r"
  by (cases prev; simp add: r_def skip_def apply_event_def Let_def prior_raw_def
      prior_breakdown_def rederive_def split: prod.split)+

lemma project_to_now_sel:
  fixes A s now h
  defines "r \<equiv> project_to_now A s now h"
  shows "sc_source_ip r = sc_source_ip s"
    "sc_raw_score r = prior_raw A (Some s) now h"
    "sc_category_breakdown r = prior_breakdown A (Some s) now h"
    "sc_has_confirmed_real r = sc_has_confirmed_real s" "sc_event_count r = sc_event_count s"
    "sc_established_event_count r = sc_established_event_count s"
    "sc_distinct_wan_count r = sc_distinct_wan_count s"
    "sc_active_days r = sc_active_days s" "sc_last_active_day r = sc_last_active_day s"
    "sc_last_seen r = sc_last_seen s" "sc_decay_anchor r = now" "sc_delisted r = sc_delisted s"
    "rederive A r = r"
  by (simp_all add: r_def project_to_now_def Let_def prior_raw_def prior_breakdown_def rederive_def)

lemma coherent_gates:
  assumes "rederive A s = s"
  shows "sc_eligible s \<longleftrightarrow> \<not> sc_delisted s \<and> sc_has_confirmed_real s \<and> 2 \<le> as_u32 (sc_event_count s)"
    "sc_tier s = tier (min SCORE_CAP (rnd A (sc_raw_score s + persistence_points A (sc_active_days s))))
       (sc_max_confidence s)"
    "sc_recommended_for_vendor s \<longleftrightarrow> sc_eligible s \<and> sc_tier s \<noteq> None"
    "sc_recommended_for_blocklist s \<longleftrightarrow>
       sc_eligible s \<and> BLOCKLIST_FLOOR \<le> effective_score A
         (min SCORE_CAP (rnd A (sc_raw_score s + persistence_points A (sc_active_days s))))
         (as_u32 (sc_distinct_wan_count s))
       \<or> recommended_by_volume (sc_delisted s) (as_u32 (sc_established_event_count s))
           (num_seconds (sc_decay_anchor s - sc_last_seen s))"
    "sc_max_confidence s = max_or_zero (map cs_max_confidence (live (sc_category_breakdown s)))"
proof -
  have s: "s = derive_projection A (sc_source_ip s) (sc_raw_score s) (sc_category_breakdown s)
     (sc_has_confirmed_real s) (sc_event_count s) (sc_established_event_count s)
     (sc_distinct_wan_count s) (sc_distinct_sensor_count s) (sc_active_days s)
     (sc_last_active_day s) (sc_first_seen s) (sc_last_seen s) (sc_decay_anchor s) (sc_delisted s)"
    using assms by (simp add: rederive_def)
  show "sc_max_confidence s = max_or_zero (map cs_max_confidence (live (sc_category_breakdown s)))"
    by (subst s) simp
  show "sc_eligible s \<longleftrightarrow> \<not> sc_delisted s \<and> sc_has_confirmed_real s \<and> 2 \<le> as_u32 (sc_event_count s)"
    by (subst s) (rule derive_projection_gates)
  show "sc_tier s = tier (min SCORE_CAP (rnd A (sc_raw_score s + persistence_points A (sc_active_days s))))
       (sc_max_confidence s)"
    using s derive_projection_gates(2) by metis
  show "sc_recommended_for_vendor s \<longleftrightarrow> sc_eligible s \<and> sc_tier s \<noteq> None"
    using s derive_projection_gates(3) by metis
  show "sc_recommended_for_blocklist s \<longleftrightarrow>
       sc_eligible s \<and> BLOCKLIST_FLOOR \<le> effective_score A
         (min SCORE_CAP (rnd A (sc_raw_score s + persistence_points A (sc_active_days s))))
         (as_u32 (sc_distinct_wan_count s))
       \<or> recommended_by_volume (sc_delisted s) (as_u32 (sc_established_event_count s))
           (num_seconds (sc_decay_anchor s - sc_last_seen s))"
    using s derive_projection_gates(4) by metis
qed

section \<open>The projection invariant\<close>

definition stat_ok :: "arith \<Rightarrow> category_stat \<Rightarrow> bool" where
  "stat_ok A s \<longleftrightarrow> 0 \<le> cs_weight s \<and> rnd A (cs_weight s) = cs_weight s
     \<and> 0 \<le> cs_max_confidence s \<and> cs_max_confidence s \<le> 1"

definition breakdown_ok :: "arith \<Rightarrow> (category \<times> category_stat) list \<Rightarrow> bool" where
  "breakdown_ok A b \<longleftrightarrow> tab_ok b \<and> (\<forall>s \<in> snd ` set b. stat_ok A s)"

definition score_ok :: "arith \<Rightarrow> ip_score \<Rightarrow> bool" where
  "score_ok A s \<longleftrightarrow>
     0 \<le> sc_raw_score s \<and> sc_raw_score s \<le> SCORE_CAP \<and> rnd A (sc_raw_score s) = sc_raw_score s
     \<and> breakdown_ok A (sc_category_breakdown s)
     \<and> 0 \<le> sc_established_event_count s \<and> sc_established_event_count s \<le> sc_event_count s
     \<and> 1 \<le> sc_event_count s \<and> sc_event_count s \<le> i32_max
     \<and> 1 \<le> sc_active_days s
     \<and> sc_active_days s \<le> sc_last_active_day s - date_naive (sc_first_seen s) + 1
     \<and> rederive A s = s"

lemma represented_events_range: "1 \<le> represented_events e \<and> represented_events e \<le> 1000000"
  by (auto simp: represented_events_def Let_def scoring_constants i32_max_def
      split: option.split)

lemma map_of_decay_breakdown:
  "map_of (decay_breakdown A el h b) c =
     map_option (\<lambda>s. s\<lparr>cs_weight := decay A (cs_weight s) el h\<rparr>) (map_of b c)"
  by (induction b) (auto simp: decay_breakdown_def)

lemma keys_decay_breakdown: "map fst (decay_breakdown A el h b) = map fst b"
  by (simp add: decay_breakdown_def comp_def case_prod_beta)

lemma stat_ok_decay:
  "arith_ok A \<Longrightarrow> 0 < h \<Longrightarrow> stat_ok A s
   \<Longrightarrow> stat_ok A (s\<lparr>cs_weight := decay A (cs_weight s) el h\<rparr>)"
  by (simp add: stat_ok_def decay_nonneg decay_fixed)

lemma breakdown_ok_decay:
  assumes "arith_ok A" "0 < h" "breakdown_ok A b"
  shows "breakdown_ok A (decay_breakdown A el h b)"
proof -
  have "tab_ok (decay_breakdown A el h b)"
    using assms(3) unfolding keys_decay_breakdown by (simp add: breakdown_ok_def)
  then show ?thesis
    using assms unfolding breakdown_ok_def decay_breakdown_def
    by (force intro: stat_ok_decay)
qed

lemma snd_set_tab_upd: "snd ` set (tab_upd k v ps) \<subseteq> insert v (snd ` set ps)"
  by (induction k v ps rule: tab_upd.induct) auto

lemma breakdown_ok_tab_upd: "breakdown_ok A b \<Longrightarrow> stat_ok A v \<Longrightarrow> breakdown_ok A (tab_upd k v b)"
  using snd_set_tab_upd [of k v b] unfolding breakdown_ok_def
  by (blast intro: tab_ok_tab_upd)

definition event_bounds :: "event_input \<Rightarrow> bool" where
  "event_bounds e \<longleftrightarrow> 0 \<le> dval (ev_confidence e) \<and> dval (ev_confidence e) \<le> 1"

lemma validate_event_bounds: "validate e = Inr () \<Longrightarrow> event_bounds e"
  using signal_weight_range [of "ev_signal_type e"]
  by (simp add: validate_Inr_iff event_bounds_def)

lemma breakdown_ok_add:
  assumes "arith_ok A" "event_bounds e" "breakdown_ok A b"
  shows "breakdown_ok A (add_contribution A e b)"
proof -
  let ?old = "case map_of b (ev_category e) of
     Some s \<Rightarrow> s | None \<Rightarrow> \<lparr>cs_weight = 0, cs_max_confidence = 0\<rparr>"
  have old: "0 \<le> cs_weight ?old \<and> 0 \<le> cs_max_confidence ?old \<and> cs_max_confidence ?old \<le> 1"
    using assms(3) by (auto simp: breakdown_ok_def stat_ok_def split: option.split
        dest!: map_of_SomeD)
  have "stat_ok A \<lparr>cs_weight = rnd A (cs_weight ?old + decimal_from (ev_weight e)),
     cs_max_confidence = (if cs_max_confidence ?old < dval (ev_confidence e)
        then dval (ev_confidence e) else cs_max_confidence ?old)\<rparr>" (is "stat_ok A ?new")
    using old assms(1,2) by (simp add: stat_ok_def rnd_nonneg rnd_idem event_bounds_def)
  moreover have "add_contribution A e b = tab_upd (ev_category e) ?new b"
    by (simp add: add_contribution_def Let_def)
  ultimately show ?thesis
    using breakdown_ok_tab_upd [OF assms(3)] by metis
qed

lemma next_active_day_ok:
  assumes "next_active_day prev d = (days, last_day)"
    "pred_option (\<lambda>(n, l). 1 \<le> n \<and> n \<le> l - f + 1) prev" "prev = None \<Longrightarrow> f = d"
  shows "1 \<le> days \<and> days \<le> last_day - f + 1"
  using assms by (auto simp: next_active_day_def split: option.splits if_splits)

lemma prior_raw_ok:
  assumes "arith_ok A" "0 < h" "pred_option (score_ok A) prev"
  shows "0 \<le> prior_raw A prev t h \<and> prior_raw A prev t h \<le> SCORE_CAP
    \<and> rnd A (prior_raw A prev t h) = prior_raw A prev t h"
  using assms decay_le [OF assms(1,2)]
  by (fastforce simp: prior_raw_def rnd_0 score_ok_def scoring_constants decay_nonneg decay_fixed
      split: option.split intro: order_trans)

lemma prior_breakdown_ok:
  assumes "arith_ok A" "0 < h" "pred_option (score_ok A) prev"
  shows "breakdown_ok A (prior_breakdown A prev t h)"
  using assms by (auto simp: prior_breakdown_def score_ok_def breakdown_ok_decay
      split: option.split) (simp add: breakdown_ok_def)

lemma raw_step_ok:
  assumes "arith_ok A" "0 \<le> x" "rnd A x = x" "0 \<le> w"
  shows "0 \<le> min SCORE_CAP (rnd A (x + w)) \<and> min SCORE_CAP (rnd A (x + w)) \<le> SCORE_CAP
    \<and> rnd A (min SCORE_CAP (rnd A (x + w))) = min SCORE_CAP (rnd A (x + w))"
  using assms by (auto simp: min_def scoring_constants rnd_nonneg rnd_idem rnd_100)

lemma apply_event_ok:
  assumes A: "arith_ok A" "0 < h" and prev: "pred_option (score_ok A) prev" and e: "event_bounds e"
  shows "score_ok A (apply_event A prev e h d w n)" (is "score_ok A ?r")
proof -
  note sel = apply_event_sel [of A prev e h d w n]
  note raw = prior_raw_ok [OF A prev, of "ev_observed_at e"]
  note br = prior_breakdown_ok [OF A prev, of "ev_observed_at e"]
  have 1: "0 \<le> sc_raw_score ?r \<and> sc_raw_score ?r \<le> SCORE_CAP
      \<and> rnd A (sc_raw_score ?r) = sc_raw_score ?r"
    using raw raw_step_ok [OF A(1)] by (simp add: sel(2))
  have 2: "breakdown_ok A (sc_category_breakdown ?r)"
    using br breakdown_ok_add [OF A(1) e br] by (simp add: sel(3))
  have 3: "0 \<le> sc_established_event_count ?r \<and> sc_established_event_count ?r \<le> sc_event_count ?r
      \<and> 1 \<le> sc_event_count ?r \<and> sc_event_count ?r \<le> i32_max"
    using prev represented_events_range [of e]
    by (cases prev) (auto simp: apply_event_sel(5,6) Let_def score_ok_def i32_saturating_add_def i32_min_def
        i32_max_def)
  have 4: "1 \<le> sc_active_days ?r
      \<and> sc_active_days ?r \<le> sc_last_active_day ?r - date_naive (sc_first_seen ?r) + 1"
    using prev by (intro next_active_day_ok [OF sel(9) [symmetric]])
      (auto simp: apply_event_sel(10) score_ok_def split: option.splits)
  show ?thesis
    using 1 2 3 4 sel(14) by (simp add: score_ok_def)
qed

lemma project_to_now_ok:
  assumes A: "arith_ok A" "0 < h" and s: "score_ok A s"
  shows "score_ok A (project_to_now A s now h)"
proof -
  note sel = project_to_now_sel [of A s now h]
  have "sc_first_seen (project_to_now A s now h) = sc_first_seen s"
    by (simp add: project_to_now_def Let_def)
  then show ?thesis
    using s prior_raw_ok [OF A, of "Some s" now] prior_breakdown_ok [OF A, of "Some s" now] sel(13)
    by (simp add: score_ok_def sel)
qed


section \<open>Whole histories\<close>

text \<open>\<open>score_run\<close> folds a list of events, each with the dedup flag and the two breadth counts the
  repository computed for it, into the projection of one source.\<close>

type_synonym fold_input = "event_input \<times> bool \<times> int \<times> int"

fun score_step :: "arith \<Rightarrow> int \<Rightarrow> fold_input \<Rightarrow> ip_score option \<Rightarrow> ip_score option" where
  "score_step A h (e, deduped, wans, sensors) prev =
     Some (apply_event A prev e h deduped wans sensors)"

definition score_run :: "arith \<Rightarrow> int \<Rightarrow> fold_input list \<Rightarrow> ip_score option" where
  "score_run A h xs = fold (score_step A h) xs None"

lemma score_run_Nil [simp]: "score_run A h [] = None"
  by (simp add: score_run_def)

lemma score_run_snoc:
  "score_run A h (xs @ [(e, d, w, n)]) = Some (apply_event A (score_run A h xs) e h d w n)"
  by (simp add: score_run_def)

lemma score_run_Some: "xs \<noteq> [] \<longleftrightarrow> (\<exists>s. score_run A h xs = Some s)"
  by (cases xs rule: rev_cases) (auto simp: score_run_snoc split_paired_all)

definition latches :: "event_input \<Rightarrow> bool" where
  "latches e \<longleftrightarrow> \<not> is_unattributed_summary e
     \<and> is_confirmed_real (ev_protocol e) (ev_authenticated e) (ev_category e)"

lemma saturating_sum:
  "0 \<le> a \<Longrightarrow> 0 \<le> b \<Longrightarrow> i32_saturating_add (min i32_max a) b = min i32_max (a + b)"
  by (auto simp: i32_saturating_add_def i32_max_def i32_min_def)

lemma represented_events_nonneg: "0 \<le> represented_events e"
  using represented_events_range [of e] by simp

lemma sum_represented_nonneg: "0 \<le> (\<Sum>x\<leftarrow>xs. represented_events (f x))"
  by (intro sum_list_nonneg) (auto simp: represented_events_nonneg)

lemma score_run_latch:
  "score_run A h xs = Some s \<Longrightarrow> sc_has_confirmed_real s \<longleftrightarrow> (\<exists>x \<in> set xs. latches (fst x))"
proof (induction xs arbitrary: s rule: rev_induct)
  case (snoc x xs)
  obtain e d w n where x: "x = (e, d, w, n)" by (cases x) auto
  with snoc.prems have s: "s = apply_event A (score_run A h xs) e h d w n"
    by (simp add: score_run_snoc)
  show ?case
  proof (cases "score_run A h xs")
    case None
    then have "xs = []" using score_run_Some [of xs A h] by auto
    with s x show ?thesis by (simp add: apply_event_sel(4) latches_def)
  next
    case (Some p)
    with snoc.IH [of p] s x show ?thesis
      by (auto simp: apply_event_sel(4) latches_def)
  qed
qed simp

lemma score_run_counts:
  "score_run A h xs = Some s \<Longrightarrow>
     sc_event_count s = min i32_max (\<Sum>x\<leftarrow>xs. represented_events (fst x)) \<and>
     sc_established_event_count s = min i32_max
       (\<Sum>x\<leftarrow>filter (\<lambda>x. ev_protocol (fst x) = Tcp) xs. represented_events (fst x))"
proof (induction xs arbitrary: s rule: rev_induct)
  case (snoc x xs)
  obtain e d w n where x: "x = (e, d, w, n)" by (cases x) auto
  with snoc.prems have s: "s = apply_event A (score_run A h xs) e h d w n"
    by (simp add: score_run_snoc)
  have r: "0 \<le> represented_events e" using represented_events_range [of e] by simp
  show ?case
  proof (cases "score_run A h xs")
    case None
    then have "xs = []" using score_run_Some [of xs A h] by auto
    with s x r show ?thesis
      by (simp add: apply_event_sel(5,6) i32_saturating_add_def i32_min_def i32_max_def)
  next
    case (Some p)
    with snoc.IH [of p] s x r show ?thesis
      by (simp add: apply_event_sel(5,6) Let_def saturating_sum sum_represented_nonneg)
  qed
qed simp

lemma score_run_not_delisted: "score_run A h xs = Some s \<Longrightarrow> \<not> sc_delisted s"
proof (induction xs arbitrary: s rule: rev_induct)
  case (snoc x xs)
  then show ?case
    by (cases x; cases "score_run A h xs") (auto simp: score_run_snoc apply_event_sel(13))
qed simp

lemma score_run_coherent: "score_run A h xs = Some s \<Longrightarrow> rederive A s = s"
  by (cases xs rule: rev_cases) (auto simp: score_run_snoc apply_event_sel(14) split_paired_all)

lemma score_run_ok:
  "arith_ok A \<Longrightarrow> 0 < h \<Longrightarrow> \<forall>x \<in> set xs. event_bounds (fst x) \<Longrightarrow> pred_option (score_ok A) (score_run A h xs)"
proof (induction xs rule: rev_induct)
  case (snoc x xs)
  then show ?case by (cases x) (auto simp: score_run_snoc intro: apply_event_ok)
qed simp

lemma score_run_last_seen:
  "score_run A h (xs @ [x]) = Some s \<Longrightarrow> sc_last_seen s = ev_observed_at (fst x)
     \<and> sc_decay_anchor s = ev_observed_at (fst x) \<and> sc_source_ip s = ev_source_ip (fst x)"
  by (cases x) (auto simp: score_run_snoc apply_event_sel)


text \<open>Active days: on events in time order the counter is the number of distinct UTC days.\<close>

lemma score_run_active_days:
  assumes "sorted (map (\<lambda>x. ev_observed_at (fst x)) xs)" "score_run A h xs = Some s"
  shows "sc_active_days s = int (card ((\<lambda>x. date_naive (ev_observed_at (fst x))) ` set xs))
    \<and> sc_last_active_day s = date_naive (ev_observed_at (fst (last xs)))"
  using assms
proof (induction xs arbitrary: s rule: rev_induct)
  case (snoc x xs)
  let ?day = "\<lambda>x :: fold_input. date_naive (ev_observed_at (fst x))"
  obtain e d w n where x: "x = (e, d, w, n)" by (cases x) auto
  with snoc.prems have s: "s = apply_event A (score_run A h xs) e h d w n"
    by (simp add: score_run_snoc)
  note days = apply_event_sel(9) [of A "score_run A h xs" e h d w n, folded s]
  show ?case
  proof (cases "score_run A h xs")
    case None
    then have "xs = []" using score_run_Some [of xs A h] by auto
    with days None x show ?thesis by (simp add: next_active_day_def)
  next
    case (Some p)
    then have ne: "xs \<noteq> []" by auto
    have le: "\<forall>y \<in> set xs. ?day y \<le> ?day (last xs)" "?day (last xs) \<le> ?day x"
      using snoc.prems(1) ne
      by (auto simp: sorted_append intro!: date_naive_mono sorted_map_last_le [where f = "\<lambda>x. ev_observed_at (fst x)"])
    have IH: "sc_active_days p = int (card (?day ` set xs))" "sc_last_active_day p = ?day (last xs)"
      using snoc.IH [of p] snoc.prems(1) Some by (simp_all add: sorted_append)
    have "?day x \<in> ?day ` set xs" if "\<not> ?day (last xs) < ?day x"
      using le(2) that ne by (metis antisym_conv1 image_eqI last_in_set)
    moreover have "?day x \<notin> ?day ` set xs" if "?day (last xs) < ?day x"
      using le(1) that by force
    ultimately show ?thesis
      using days Some IH le(2) x
      by (auto simp: next_active_day_def insert_absorb max_absorb2)
  qed
qed simp

section \<open>Reads over time\<close>

fun tier_rank :: "feed_tier option \<Rightarrow> nat" where
  "tier_rank None = 0"
| "tier_rank (Some Standard) = 1"
| "tier_rank (Some Aggressive) = 2"

lemma tier_mono: "r \<le> r' \<Longrightarrow> c \<le> c' \<Longrightarrow> tier_rank (tier r c) \<le> tier_rank (tier r' c')"
  by (auto simp: tier_def)

lemma fold_max_le: "fold max xs (a :: rat) \<le> b \<longleftrightarrow> a \<le> b \<and> (\<forall>x \<in> set xs. x \<le> b)"
  by (induction xs arbitrary: a) auto

lemma max_or_zero_le: "0 \<le> b \<Longrightarrow> \<forall>x \<in> set xs. x \<le> b \<Longrightarrow> max_or_zero xs \<le> b"
  by (cases xs) (auto simp: fold_max_le)

lemma max_or_zero_ge: "x \<in> set xs \<Longrightarrow> x \<le> max_or_zero xs"
  by (cases xs) (use fold_max_le in auto)

lemma max_or_zero_nonneg: "\<forall>x \<in> set xs. 0 \<le> x \<Longrightarrow> 0 \<le> max_or_zero xs"
proof (cases xs)
  case (Cons a as)
  then show "\<forall>x \<in> set xs. 0 \<le> x \<Longrightarrow> ?thesis"
    using max_or_zero_ge [of a xs] by force
qed simp

lemma live_decayed:
  "x \<in> set (map cs_max_confidence (live (decay_breakdown A el h b))) \<longleftrightarrow>
     (\<exists>(c, s) \<in> set b. x = cs_max_confidence s \<and> LIVE_FLOOR < decay A (cs_weight s) el h)"
  by (auto simp: live_def decay_breakdown_def image_iff split: prod.splits) force+

lemma live_decay_confidence:
  assumes "arith_ok A" "0 < h" "breakdown_ok A b" "el \<le> el'"
  shows "max_or_zero (map cs_max_confidence (live (decay_breakdown A el' h b)))
    \<le> max_or_zero (map cs_max_confidence (live (decay_breakdown A el h b)))" (is "?l \<le> ?r")
proof (rule max_or_zero_le)
  have ok: "\<forall>s \<in> snd ` set b. stat_ok A s" using assms(3) by (simp add: breakdown_ok_def)
  show "0 \<le> ?r"
    using ok by (intro max_or_zero_nonneg)
      (force simp: live_def decay_breakdown_def stat_ok_def)
  show "\<forall>x \<in> set (map cs_max_confidence (live (decay_breakdown A el' h b))). x \<le> ?r"
  proof
    fix x
    assume "x \<in> set (map cs_max_confidence (live (decay_breakdown A el' h b)))"
    then obtain c s where cs: "(c, s) \<in> set b" "x = cs_max_confidence s"
      "LIVE_FLOOR < decay A (cs_weight s) el' h"
      unfolding live_decayed by auto
    from ok cs(1) have "0 \<le> cs_weight s" "rnd A (cs_weight s) = cs_weight s"
      by (force simp: stat_ok_def)+
    then have "decay A (cs_weight s) el' h \<le> decay A (cs_weight s) el h"
      using assms by (intro decay_antimono) auto
    with cs have "x \<in> set (map cs_max_confidence (live (decay_breakdown A el h b)))"
      unfolding live_decayed by fastforce
    then show "x \<le> ?r" by (rule max_or_zero_ge)
  qed
qed

lemma num_seconds_mono: "d \<le> d' \<Longrightarrow> num_seconds d \<le> num_seconds d'"
proof (cases "0 \<le> d \<longleftrightarrow> 0 \<le> d'")
  case True
  then show "d \<le> d' \<Longrightarrow> ?thesis"
    by (auto simp: num_seconds_def nanos_per_sec_def zdiv_mono1)
next
  case False
  then show "d \<le> d' \<Longrightarrow> ?thesis"
    using num_seconds_nonneg [of d'] num_seconds_nonpos [of d] by linarith
qed

lemma project_to_now_antimono:
  assumes A: "arith_ok A" "0 < h" and s: "score_ok A s" and t: "t \<le> t'"
  shows "sc_raw_score (project_to_now A s t' h) \<le> sc_raw_score (project_to_now A s t h)
    \<and> tier_rank (sc_tier (project_to_now A s t' h)) \<le> tier_rank (sc_tier (project_to_now A s t h))"
proof -
  let ?el = "num_seconds (t - sc_decay_anchor s)" and ?el' = "num_seconds (t' - sc_decay_anchor s)"
  let ?p = "persistence_points A (sc_active_days s)"
  have el: "?el \<le> ?el'" using t by (intro num_seconds_mono) simp
  have raw: "decay A (sc_raw_score s) ?el' h \<le> decay A (sc_raw_score s) ?el h"
    using A s el by (intro decay_antimono) (simp_all add: score_ok_def)
  have conf: "sc_max_confidence (project_to_now A s t' h) \<le> sc_max_confidence (project_to_now A s t h)"
    using live_decay_confidence [OF A _ el] s
    by (simp add: coherent_gates(5) [OF project_to_now_sel(13)] project_to_now_sel(3)
        prior_breakdown_def score_ok_def)
  have "min SCORE_CAP (rnd A (decay A (sc_raw_score s) ?el' h + ?p))
      \<le> min SCORE_CAP (rnd A (decay A (sc_raw_score s) ?el h + ?p))"
    using raw by (intro min.mono order_refl rnd_mono [OF A(1)]) simp
  with conf raw show ?thesis
    by (simp add: coherent_gates(2) [OF project_to_now_sel(13)] project_to_now_sel(2,8)
        prior_raw_def tier_mono)
qed

section \<open>What moves a score\<close>

definition counted_weight :: "fold_input list \<Rightarrow> rat" where
  "counted_weight xs = (\<Sum>(e, deduped, _)\<leftarrow>xs.
     if deduped \<or> is_unattributed_summary e then 0 else decimal_from (ev_weight e))"

lemma counted_weight_snoc:
  "counted_weight (xs @ [(e, d, w, n)]) = counted_weight xs
     + (if d \<or> is_unattributed_summary e then 0 else decimal_from (ev_weight e))"
  by (simp add: counted_weight_def)

lemma counted_weight_int: "\<exists>k::nat. counted_weight xs = of_nat k"
proof (induction xs rule: rev_induct)
  case (snoc x xs)
  then obtain k where "counted_weight xs = of_nat k" by blast
  then show ?case
    by (cases x) (auto simp: counted_weight_snoc decimal_from_def simp del: of_nat_unat
        intro: exI [of _ k] exI [of _ "k + unat (ev_weight (fst x))"])
qed (simp add: counted_weight_def exI [of _ 0])

lemma score_run_raw_le:
  assumes A: "arith_ok A" "0 < h"
  shows "\<forall>x \<in> set xs. event_bounds (fst x) \<Longrightarrow> score_run A h xs = Some s
    \<Longrightarrow> sc_raw_score s \<le> counted_weight xs"
proof (induction xs arbitrary: s rule: rev_induct)
  case (snoc x xs)
  obtain e d w n where x: "x = (e, d, w, n)" by (cases x) auto
  let ?prev = "score_run A h xs" and ?t = "ev_observed_at e"
  have ok: "pred_option (score_ok A) ?prev"
    using snoc.prems(1) by (intro score_run_ok [OF A]) simp
  have nn: "0 \<le> counted_weight xs" using counted_weight_int [of xs] by force
  have prior: "prior_raw A ?prev ?t h \<le> counted_weight xs"
  proof (cases ?prev)
    case (Some p)
    with snoc have "sc_raw_score p \<le> counted_weight xs" by simp
    moreover have "decay A (sc_raw_score p) (num_seconds (?t - sc_decay_anchor p)) h \<le> sc_raw_score p"
      using ok Some A by (intro decay_le) (simp_all add: score_ok_def)
    ultimately show ?thesis using Some by (simp add: prior_raw_def)
  qed (simp add: prior_raw_def nn)
  obtain k where k: "counted_weight (xs @ [x]) = of_nat k" using counted_weight_int by blast
  have "min SCORE_CAP (rnd A (prior_raw A ?prev ?t h + decimal_from (ev_weight e))) \<le> of_nat k"
    if "\<not> (d \<or> is_unattributed_summary e)"
  proof (cases "k \<le> 1000000")
    case True
    have "prior_raw A ?prev ?t h + decimal_from (ev_weight e) \<le> of_int (int k)"
      using prior k that x by (simp add: counted_weight_snoc)
    then have "rnd A (prior_raw A ?prev ?t h + decimal_from (ev_weight e)) \<le> rnd A (of_int (int k))"
      by (rule rnd_mono [OF A(1)])
    with True show ?thesis
      using rnd_int [OF A(1), of "int k"] by (simp add: min.coboundedI2)
  next
    case False
    then have "of_nat 100 \<le> (of_nat k :: rat)" by (intro of_nat_mono) simp
    then show ?thesis by (simp add: SCORE_CAP_def min.coboundedI1)
  qed
  moreover have "counted_weight (xs @ [x]) = counted_weight xs" if "d \<or> is_unattributed_summary e"
    using that x by (simp add: counted_weight_snoc)
  ultimately show ?case
    using snoc.prems(2) x prior k by (auto simp: score_run_snoc apply_event_sel(2))
qed simp

end
