(* ===== verification/Hashing.thy ===== *)
theory Hashing
  imports Domain
begin

text \<open>
  \<open>crates/core-scoring/src/hashing.rs\<close>: the frozen canonical byte encoding of an event and the hash
  chain link computed from it. \<open>std\<close>'s textual form of an address and the JSON text of the unit
  enum variants are modelled; the textual forms of a decimal, an instant and a metadata value, and
  the digest, come from other packages and are the fields of \<open>codec\<close>.

  The lemmas show that the encoding is injective field by field: no two fields can blur into each
  other, because every field is a prefix-free code.
\<close>

section \<open>Text\<close>

record codec =
  decimal_text :: "decimal \<Rightarrow> bytes"
  rfc3339_text :: "instant \<Rightarrow> bytes"
  json_text :: "json \<Rightarrow> bytes"
  sha256 :: "bytes \<Rightarrow> bytes"

definition text_bytes :: "string \<Rightarrow> bytes" where
  "text_bytes s = map (\<lambda>c. word_of_nat (of_char c)) s"

fun radix :: "nat \<Rightarrow> nat \<Rightarrow> nat list" where
  "radix b n = (if n < b \<or> b < 2 then [n] else radix b (n div b) @ [n mod b])"

declare radix.simps [simp del]

definition digit_text :: "nat \<Rightarrow> char" where
  "digit_text d = ''0123456789abcdef'' ! d"

definition number_text :: "nat \<Rightarrow> nat \<Rightarrow> string" where
  "number_text b n = map digit_text (radix b n)"

fun join :: "string \<Rightarrow> string list \<Rightarrow> string" where
  "join sep [] = ''''"
| "join sep [x] = x"
| "join sep (x # y # zs) = x @ sep @ join sep (y # zs)"

definition ipv4_text :: "u32 \<Rightarrow> string" where
  "ipv4_text w = join ''.'' (map (\<lambda>o8. number_text 10 (unat o8)) (octets4 w))"

text \<open>The longest run of zero segments, the first of them if several are longest.\<close>

fun zero_span :: "u16 list \<Rightarrow> nat \<Rightarrow> nat \<times> nat \<Rightarrow> nat \<times> nat \<Rightarrow> nat \<times> nat" where
  "zero_span [] i current longest = longest"
| "zero_span (s # ss) i (start, len) longest =
     (if s = 0 then
        let current = (if len = 0 then i else start, len + 1)
        in zero_span ss (i + 1) current (if snd longest < snd current then current else longest)
      else zero_span ss (i + 1) (0, 0) longest)"

definition segments_text :: "u16 list \<Rightarrow> string" where
  "segments_text ss = join '':'' (map (\<lambda>s. number_text 16 (unat s)) ss)"

definition to_ipv4_mapped :: "128 word \<Rightarrow> u32 option" where
  "to_ipv4_mapped w =
     (if drop_bit 32 w = 0xffff then Some (ucast w) else None)"

definition ipv6_text :: "128 word \<Rightarrow> string" where
  "ipv6_text w =
     (case to_ipv4_mapped w of
        Some v4 \<Rightarrow> ''::ffff:'' @ ipv4_text v4
      | None \<Rightarrow>
          (let ss = segments6 w; (start, len) = zero_span ss 0 (0, 0) (0, 0)
           in if 1 < len then segments_text (take start ss) @ ''::'' @ segments_text (drop (start + len) ss)
              else segments_text ss))"

fun ip_text :: "ip_addr \<Rightarrow> string" where
  "ip_text (V4 w) = ipv4_text w"
| "ip_text (V6 w) = ipv6_text w"

primrec protocol_label :: "protocol \<Rightarrow> string" where
  "protocol_label Tcp = ''Tcp''"
| "protocol_label Udp = ''Udp''"
| "protocol_label Icmp = ''Icmp''"

primrec category_label :: "category \<Rightarrow> string" where
  "category_label Honeypot = ''Honeypot''"
| "category_label Ids = ''Ids''"
| "category_label Network = ''Network''"
| "category_label Waf = ''Waf''"
| "category_label Auth = ''Auth''"

primrec signal_label :: "signal_type \<Rightarrow> string" where
  "signal_label HoneypotConnection = ''HoneypotConnection''"
| "signal_label HoneypotLoginAttempt = ''HoneypotLoginAttempt''"
| "signal_label HoneypotCommandExec = ''HoneypotCommandExec''"
| "signal_label HoneypotMalwareUpload = ''HoneypotMalwareUpload''"
| "signal_label HoneypotFileDownload = ''HoneypotFileDownload''"
| "signal_label SuricataSev1 = ''SuricataSev1''"
| "signal_label SuricataSev2 = ''SuricataSev2''"
| "signal_label SuricataSev3 = ''SuricataSev3''"
| "signal_label PortScan = ''PortScan''"
| "signal_label SynFlood = ''SynFlood''"
| "signal_label BlockedConnection = ''BlockedConnection''"
| "signal_label WafSqliXss = ''WafSqliXss''"
| "signal_label WafGenericBlock = ''WafGenericBlock''"
| "signal_label SshBruteForce = ''SshBruteForce''"
| "signal_label CatchallProbe = ''CatchallProbe''"
| "signal_label RemoteAuthFailure = ''RemoteAuthFailure''"
| "signal_label HoneypotSessionEnd = ''HoneypotSessionEnd''"

definition json_label :: "string \<Rightarrow> bytes" where
  "json_label s = text_bytes (CHR 0x22 # s @ [CHR 0x22])"

section \<open>The canonical encoding and the chain link\<close>

definition push_len_prefixed :: "bytes \<Rightarrow> bytes \<Rightarrow> bytes" where
  "push_len_prefixed buf bs = buf @ len_prefixed bs"

definition canonical_bytes :: "codec \<Rightarrow> event_input \<Rightarrow> bytes" where
  "canonical_bytes P e =
     (let buf = push_len_prefixed [] (text_bytes (ip_text (ev_source_ip e)));
          buf = (case ev_wan_ip e of
                   Some ip \<Rightarrow> push_len_prefixed (buf @ [1]) (text_bytes (ip_text ip))
                 | None \<Rightarrow> buf @ [0]);
          buf = push_len_prefixed buf (text_bytes (ev_sensor e));
          buf = push_len_prefixed buf (json_label (signal_label (ev_signal_type e)));
          buf = push_len_prefixed buf (json_label (protocol_label (ev_protocol e)));
          buf = buf @ [if ev_authenticated e then 1 else 0];
          buf = push_len_prefixed buf (json_label (category_label (ev_category e)));
          buf = buf @ le_bytes 4 (unat (ev_weight e));
          buf = push_len_prefixed buf (decimal_text P (ev_confidence e));
          buf = push_len_prefixed buf (rfc3339_text P (ev_observed_at e));
          buf = push_len_prefixed buf (json_text P (ev_metadata e))
      in buf)"

definition chain_hash :: "codec \<Rightarrow> bytes option \<Rightarrow> event_input \<Rightarrow> bytes" where
  "chain_hash P prev e =
     sha256 P ((case prev of Some h \<Rightarrow> h | None \<Rightarrow> []) @ canonical_bytes P e)"

section \<open>Injectivity of the encoding\<close>

lemma text_bytes_inject: "text_bytes s = text_bytes t \<longleftrightarrow> s = t"
proof -
  have "inj (\<lambda>c::char. word_of_nat (of_char c) :: u8)"
  proof (rule injI)
    fix c d :: char
    assume "(word_of_nat (of_char c) :: u8) = word_of_nat (of_char d)"
    then have "(of_char c :: nat) mod 256 = of_char d mod 256"
      by (simp add: word_of_nat_eq_iff take_bit_eq_mod)
    then show "c = d" by (simp add: of_char_mod_256)
  qed
  then show ?thesis by (simp add: text_bytes_def inj_map_eq_map)
qed

lemma json_label_inject: "json_label s = json_label t \<longleftrightarrow> s = t"
  by (simp add: json_label_def text_bytes_inject)

lemma label_inject:
  "protocol_label p = protocol_label p' \<longleftrightarrow> p = p'"
  "category_label c = category_label c' \<longleftrightarrow> c = c'"
  by (cases p; cases p'; simp) (cases c; cases c'; simp)

lemma signal_label_inject: "signal_label s = signal_label s' \<longleftrightarrow> s = s'"
  by (cases s; cases s') simp_all

definition frame_ok :: "bytes \<Rightarrow> bool" where
  "frame_ok bs \<longleftrightarrow> length bs < 2 ^ 64"

lemma len_prefixed_inject: "frame_ok bs \<Longrightarrow> frame_ok cs \<Longrightarrow> len_prefixed bs = len_prefixed cs \<longleftrightarrow> bs = cs"
  by (auto simp: len_prefixed_def)

interpretation frame: prefix_code len_prefixed frame_ok
proof
  fix x y xs ys
  assume ok: "frame_ok x" "frame_ok y" and eq: "len_prefixed x @ xs = len_prefixed y @ ys"
  then have "le_bytes 8 (length x) = le_bytes 8 (length y)"
    by (simp add: len_prefixed_def append_eq_append_conv)
  then have "length x = length y"
    using ok le_bytes_inject [of "length x" 8 "length y"] by (simp add: frame_ok_def)
  then show "len_prefixed x = len_prefixed y"
    using eq by (simp add: len_prefixed_def)
qed

text \<open>An address text is short, so it always fits its frame.\<close>

lemma radix_length: "2 \<le> b \<Longrightarrow> n < b ^ k \<Longrightarrow> 0 < k \<Longrightarrow> length (radix b n) \<le> k"
proof (induction k arbitrary: n)
  case (Suc k)
  show ?case
  proof (cases "n < b")
    case True
    then show ?thesis by (subst radix.simps) simp
  next
    case False
    with Suc.prems have "0 < k" by (cases k) auto
    moreover have "n div b < b ^ k"
      using Suc.prems by (simp add: less_mult_imp_div_less mult.commute)
    ultimately have "length (radix b (n div b)) \<le> k"
      using Suc.IH Suc.prems(1) by blast
    with False Suc.prems(1) show ?thesis by (subst radix.simps) simp
  qed
qed simp

lemma join_length: "\<forall>x \<in> set xs. length x \<le> k \<Longrightarrow> length (join sep xs) \<le> length xs * (k + length sep)"
  by (induction sep xs rule: join.induct) auto

lemma octet_text_length: "length (number_text 10 (unat (o8 :: u8))) \<le> 3"
proof -
  have "unat o8 < 10 ^ 3" using unsigned_less [of o8, where ?'a = nat] by simp
  then show ?thesis using radix_length [of 10 "unat o8" 3] by (simp add: number_text_def)
qed

lemma segment_text_length: "length (number_text 16 (unat (s :: u16))) \<le> 4"
proof -
  have "unat s < 16 ^ 4" using unsigned_less [of s, where ?'a = nat] by simp
  then show ?thesis using radix_length [of 16 "unat s" 4] by (simp add: number_text_def)
qed

lemma ipv4_text_length: "length (ipv4_text w) \<le> 16"
  using join_length [of "map (\<lambda>o8. number_text 10 (unat o8)) (octets4 w)" 3 "''.''"]
  by (simp add: ipv4_text_def octets4_def octet_text_length del: join.simps)

lemma segments_text_length: "length (segments_text ss) \<le> length ss * 5"
  using join_length [of "map (\<lambda>s. number_text 16 (unat s)) ss" 4 "'':''"]
  by (simp add: segments_text_def segment_text_length)

lemma ip_text_length: "length (ip_text ip) \<le> 82"
proof (cases ip)
  case (V4 w)
  then show ?thesis using ipv4_text_length [of w] by simp
next
  case (V6 w)
  have "length (segments6 w) = 8" by (simp add: segments6_def)
  moreover have "length (segments_text (take i (segments6 w))) \<le> 40"
    "length (segments_text (drop i (segments6 w))) \<le> 40" for i
    using segments_text_length [of "take i (segments6 w)"]
      segments_text_length [of "drop i (segments6 w)"] calculation by auto
  ultimately show ?thesis
    using V6 ipv4_text_length [of "ucast w"] segments_text_length [of "segments6 w"]
    by (auto simp: ipv6_text_def to_ipv4_mapped_def Let_def intro!: add_le_mono [of _ 40 _ 40, simplified]
        split: option.split prod.split)
qed

lemma ip_frame_ok: "frame_ok (text_bytes (ip_text ip))"
  using ip_text_length [of ip] by (simp add: frame_ok_def text_bytes_def)

definition wan_frame :: "ip_addr option \<Rightarrow> bytes" where
  "wan_frame w = (case w of Some ip \<Rightarrow> 1 # len_prefixed (text_bytes (ip_text ip)) | None \<Rightarrow> [0])"

interpretation wan: prefix_code wan_frame "\<lambda>_. True"
proof
  fix x y xs ys
  assume "wan_frame x @ xs = wan_frame y @ ys"
  then show "wan_frame x = wan_frame y"
    using ip_frame_ok by (cases x; cases y) (auto simp: wan_frame_def dest!: frame.split_frame)
qed

lemma wan_frame_inject:
  "wan_frame x = wan_frame y \<longleftrightarrow> map_option ip_text x = map_option ip_text y"
  by (cases x; cases y)
    (auto simp: wan_frame_def len_prefixed_inject text_bytes_inject ip_frame_ok)

lemma canonical_bytes_frames:
  "canonical_bytes P e =
     len_prefixed (text_bytes (ip_text (ev_source_ip e))) @ wan_frame (ev_wan_ip e)
     @ len_prefixed (text_bytes (ev_sensor e))
     @ len_prefixed (json_label (signal_label (ev_signal_type e)))
     @ len_prefixed (json_label (protocol_label (ev_protocol e)))
     @ [if ev_authenticated e then 1 else 0]
     @ len_prefixed (json_label (category_label (ev_category e)))
     @ le_bytes 4 (unat (ev_weight e))
     @ len_prefixed (decimal_text P (ev_confidence e))
     @ len_prefixed (rfc3339_text P (ev_observed_at e))
     @ len_prefixed (json_text P (ev_metadata e))"
  by (simp add: canonical_bytes_def Let_def push_len_prefixed_def wan_frame_def split: option.split)

text \<open>The variable fields of an event fit their eight-byte length.\<close>

definition event_fits :: "codec \<Rightarrow> event_input \<Rightarrow> bool" where
  "event_fits P e \<longleftrightarrow>
     frame_ok (text_bytes (ev_sensor e)) \<and> frame_ok (decimal_text P (ev_confidence e))
     \<and> frame_ok (rfc3339_text P (ev_observed_at e)) \<and> frame_ok (json_text P (ev_metadata e))"

lemma signal_frame_ok: "frame_ok (json_label (signal_label s))"
  by (cases s) (simp_all add: frame_ok_def json_label_def text_bytes_def)

lemma protocol_frame_ok: "frame_ok (json_label (protocol_label p))"
  by (cases p) (simp_all add: frame_ok_def json_label_def text_bytes_def)

lemma category_frame_ok: "frame_ok (json_label (category_label c))"
  by (cases c) (simp_all add: frame_ok_def json_label_def text_bytes_def)

lemmas frame_oks = ip_frame_ok signal_frame_ok protocol_frame_ok category_frame_ok

text \<open>What the chain hash binds: the fields of an event as the encoding writes them.\<close>

definition hashed_fields :: "codec \<Rightarrow> event_input \<Rightarrow>
    string \<times> string option \<times> string \<times> signal_type \<times> protocol \<times> bool \<times> category \<times> u32
    \<times> bytes \<times> bytes \<times> bytes" where
  "hashed_fields P e =
     (ip_text (ev_source_ip e), map_option ip_text (ev_wan_ip e), ev_sensor e, ev_signal_type e,
      ev_protocol e, ev_authenticated e, ev_category e, ev_weight e,
      decimal_text P (ev_confidence e), rfc3339_text P (ev_observed_at e), json_text P (ev_metadata e))"

lemma le_bytes_4_inject: "le_bytes 4 (unat (v :: u32)) = le_bytes 4 (unat w) \<longleftrightarrow> v = w"
  using le_bytes_inject [of "unat v" 4 "unat w"] unsigned_less [of v, where ?'a = nat]
    unsigned_less [of w, where ?'a = nat] by (simp add: word_unat_eq_iff)

lemma le_bytes_append_inject:
  "le_bytes n x @ xs = le_bytes n y @ ys \<longleftrightarrow> le_bytes n x = le_bytes n y \<and> xs = ys"
  by (simp add: append_eq_append_conv)

lemma frame_append_inject:
  "frame_ok x \<Longrightarrow> frame_ok y \<Longrightarrow> len_prefixed x @ xs = len_prefixed y @ ys \<longleftrightarrow> x = y \<and> xs = ys"
  using frame.split_frame [of x y xs ys] by (auto simp: len_prefixed_inject)

lemma wan_append_inject:
  "wan_frame x @ xs = wan_frame y @ ys \<longleftrightarrow> map_option ip_text x = map_option ip_text y \<and> xs = ys"
  by (metis wan.split_frame wan_frame_inject)

lemma canonical_bytes_inject:
  assumes "event_fits P e" "event_fits P e'"
  shows "canonical_bytes P e @ xs = canonical_bytes P e' @ ys
    \<longleftrightarrow> hashed_fields P e = hashed_fields P e' \<and> xs = ys"
  using assms
  by (auto simp: canonical_bytes_frames event_fits_def frame_oks frame_append_inject
      wan_append_inject text_bytes_inject json_label_inject label_inject signal_label_inject
      le_bytes_append_inject le_bytes_4_inject hashed_fields_def split: if_splits)

end
