(* ===== verification/Ledger.thy ===== *)
theory Ledger
  imports Scoring Hashing
begin

text \<open>
  \<open>crates/core-scoring/src/repository/events.rs\<close>: the append path over the database. The four tables
  the path touches are the fields of \<open>db\<close>; each SQL statement is a function on them. Every append
  runs under one advisory lock and inside one transaction, so an append is a function from the
  database before to the database after, and a failure returns the database unchanged.

  A new row's id is one more than the last (the gaps a rolled-back transaction leaves in the
  sequence are not modelled: ids are only compared). What the server itself decides is a field of
  \<open>env\<close>: whether it refuses an event's row (\<open>refuse\<close>) and the form in which a \<open>jsonb\<close> column
  returns a value (\<open>jsonb\<close>).
\<close>

section \<open>Tables\<close>

record event_row =
  er_id :: int
  er_source_ip :: ip_addr
  er_wan_ip :: "ip_addr option"
  er_sensor :: string
  er_signal_type :: signal_type
  er_protocol :: protocol
  er_authenticated :: bool
  er_category :: category
  er_weight :: int
  er_confidence :: rat
  er_observed_at :: instant
  er_metadata :: json
  er_prev_hash :: "bytes option"
  er_hash :: bytes
  er_session_id :: "128 word option"

record db =
  db_event :: "event_row list"
  db_vantage :: "ip_addr \<Rightarrow> (ip_addr \<times> bool) list"
  db_sensor :: "ip_addr \<Rightarrow> string list"
  db_score :: "ip_addr \<Rightarrow> ip_score option"

definition empty_db :: db where
  "empty_db = \<lparr>db_event = [], db_vantage = (\<lambda>_. []), db_sensor = (\<lambda>_. []), db_score = (\<lambda>_. None)\<rparr>"

datatype sql_error = Database "string option" | ColumnDecode | Decode | ConnectionError

datatype repo_error =
    Db sql_error
  | Invalid validation_error
  | Corrupt string
  | NotScorable signal_type

record env =
  en_codec :: codec
  en_arith :: arith
  en_refuse :: "event_input \<Rightarrow> sql_error option"
  en_jsonb :: "json \<Rightarrow> json"

definition is_event_specific :: "repo_error \<Rightarrow> bool" where
  "is_event_specific err =
     (case err of
        Invalid _ \<Rightarrow> True
      | Corrupt _ \<Rightarrow> True
      | Db (Database code) \<Rightarrow>
          (case code of Some c \<Rightarrow> take 2 c = ''22'' \<or> take 2 c = ''23'' | None \<Rightarrow> False)
      | Db ColumnDecode \<Rightarrow> True
      | Db Decode \<Rightarrow> True
      | _ \<Rightarrow> False)"

definition sqlstate :: "repo_error \<Rightarrow> string option" where
  "sqlstate err = (case err of Db (Database code) \<Rightarrow> code | _ \<Rightarrow> None)"

section \<open>Statements\<close>

definition normalize_event :: "event_input \<Rightarrow> event_input" where
  "normalize_event e =
     e\<lparr>ev_confidence := rescale 3 (ev_confidence e),
       ev_observed_at := ev_observed_at e - ev_observed_at e mod 1000\<rparr>"

definition chain_head :: "event_row list \<Rightarrow> bytes option" where
  "chain_head rows = (if rows = [] then None else Some (er_hash (last rows)))"

definition next_id :: "event_row list \<Rightarrow> int" where
  "next_id rows = (if rows = [] then 1 else er_id (last rows) + 1)"

text \<open>The \<open>trg_enforce_chain_linkage\<close> trigger of migration 0005: a row is accepted only if it is
  linked to the current head.\<close>

definition enforce_chain_linkage :: "event_row list \<Rightarrow> bytes option \<Rightarrow> bool" where
  "enforce_chain_linkage rows prev \<longleftrightarrow> prev = chain_head rows"

definition event_columns :: "env \<Rightarrow> int \<Rightarrow> bytes option \<Rightarrow> bytes \<Rightarrow> event_input \<Rightarrow> event_row" where
  "event_columns X rid prev h e =
     \<lparr>er_id = rid, er_source_ip = ev_source_ip e, er_wan_ip = ev_wan_ip e,
      er_sensor = ev_sensor e, er_signal_type = ev_signal_type e, er_protocol = ev_protocol e,
      er_authenticated = ev_authenticated e, er_category = ev_category e,
      er_weight = sint (ev_weight e), er_confidence = dval (ev_confidence e),
      er_observed_at = ev_observed_at e, er_metadata = en_jsonb X (ev_metadata e),
      er_prev_hash = prev, er_hash = h, er_session_id = ev_session_id e\<rparr>"

definition insert_chained :: "env \<Rightarrow> db \<Rightarrow> event_input \<Rightarrow> repo_error + (int \<times> db)" where
  "insert_chained X d e =
     (let prev_head = chain_head (db_event d);
          hash = chain_hash (en_codec X) prev_head e;
          new_id = next_id (db_event d)
      in case en_refuse X e of
           Some err \<Rightarrow> Inl (Db err)
         | None \<Rightarrow>
             if enforce_chain_linkage (db_event d) prev_head
             then Inr (new_id, d\<lparr>db_event := db_event d @ [event_columns X new_id prev_head hash e]\<rparr>)
             else Inl (Db (Database (Some ''P0001''))))"

definition max_time :: "instant list \<Rightarrow> instant option" where
  "max_time ts = (case ts of [] \<Rightarrow> None | t # rest \<Rightarrow> Some (fold max rest t))"

definition dedup_prior :: "event_row list \<Rightarrow> ip_addr \<Rightarrow> signal_type \<Rightarrow> int \<Rightarrow> instant option" where
  "dedup_prior rows src st new_id =
     max_time (map er_observed_at
       (filter (\<lambda>r. er_source_ip r = src \<and> er_signal_type r = st \<and> er_id r < new_id) rows))"

definition is_deduped :: "instant option \<Rightarrow> instant \<Rightarrow> bool" where
  "is_deduped prior observed_at =
     (case prior of
        Some p \<Rightarrow> \<bar>num_seconds (observed_at - p)\<bar> \<le> DEDUP_WINDOW_SECONDS
      | None \<Rightarrow> False)"

definition auth_tcp :: "event_input \<Rightarrow> bool" where
  "auth_tcp e \<longleftrightarrow> ev_protocol e = Tcp \<and> ev_authenticated e"

definition upsert_vantage :: "ip_addr \<Rightarrow> bool \<Rightarrow> (ip_addr \<times> bool) list \<Rightarrow> (ip_addr \<times> bool) list" where
  "upsert_vantage wan flag rows =
     (case map_of rows wan of
        None \<Rightarrow> tab_upd wan flag rows
      | Some old \<Rightarrow> if flag \<and> \<not> old then tab_upd wan (old \<or> flag) rows else rows)"

definition vantage_list :: "(ip_addr \<times> bool) list \<Rightarrow> wan_vantage list" where
  "vantage_list rows =
     map (\<lambda>(wan, flag). \<lparr>wv_wan_ip = wan, wv_saw_authenticated_tcp = flag\<rparr>) rows"

definition fold_breadth_sets :: "db \<Rightarrow> event_input \<Rightarrow> (int \<times> int) \<times> db" where
  "fold_breadth_sets d e =
     (let src = ev_source_ip e;
          d = (case ev_wan_ip e of
                 Some wan \<Rightarrow> d\<lparr>db_vantage := (db_vantage d)(src :=
                   upsert_vantage wan (auth_tcp e) (db_vantage d src))\<rparr>
               | None \<Rightarrow> d);
          d = d\<lparr>db_sensor := (db_sensor d)(src := insort_insert (ev_sensor e) (db_sensor d src))\<rparr>;
          vantages = vantage_list (db_vantage d src);
          sensors = length (db_sensor d src)
      in ((as_i32 (distinct_wan_count vantages), as_i32 (int sensors)), d))"

text \<open>The \<open>ip_score\<close> upsert: every column but \<open>delisted\<close> is overwritten on conflict.\<close>

definition upsert_score :: "ip_score \<Rightarrow> (ip_addr \<Rightarrow> ip_score option) \<Rightarrow> ip_addr \<Rightarrow> ip_score option" where
  "upsert_score s tbl =
     tbl(sc_source_ip s \<mapsto> (case tbl (sc_source_ip s) of
           None \<Rightarrow> s | Some old \<Rightarrow> s\<lparr>sc_delisted := sc_delisted old\<rparr>))"

section \<open>Operations\<close>

definition append_event :: "env \<Rightarrow> db \<Rightarrow> event_input \<Rightarrow> (repo_error + ip_score) \<times> db" where
  "append_event X d e =
     (case validate e of
        Inl v \<Rightarrow> (Inl (Invalid v), d)
      | Inr _ \<Rightarrow>
          if is_telemetry (ev_signal_type e) then (Inl (NotScorable (ev_signal_type e)), d)
          else let e = normalize_event e in
            (case insert_chained X d e of
               Inl err \<Rightarrow> (Inl err, d)
             | Inr (new_id, d1) \<Rightarrow>
                 (let stored = db_score d1 (ev_source_ip e);
                      prior = dedup_prior (db_event d1) (ev_source_ip e) (ev_signal_type e) new_id;
                      deduped = is_deduped prior (ev_observed_at e);
                      ((dwc, dsc), d2) = fold_breadth_sets d1 e;
                      new_score = apply_event (en_arith X) stored e HALF_LIFE_SECONDS deduped dwc dsc
                  in (Inr new_score, d2\<lparr>db_score := upsert_score new_score (db_score d2)\<rparr>))))"

definition append_telemetry_event :: "env \<Rightarrow> db \<Rightarrow> event_input \<Rightarrow> (repo_error + unit) \<times> db" where
  "append_telemetry_event X d e =
     (case validate e of
        Inl v \<Rightarrow> (Inl (Invalid v), d)
      | Inr _ \<Rightarrow>
          if \<not> is_telemetry (ev_signal_type e) then (Inl (NotScorable (ev_signal_type e)), d)
          else (case insert_chained X d (normalize_event e) of
                  Inl err \<Rightarrow> (Inl err, d)
                | Inr (_, d1) \<Rightarrow> (Inr (), d1)))"

definition read_stored_score :: "db \<Rightarrow> ip_addr \<Rightarrow> ip_score option" where
  "read_stored_score d ip = db_score d ip"

definition read_score :: "env \<Rightarrow> db \<Rightarrow> ip_addr \<Rightarrow> instant \<Rightarrow> ip_score option" where
  "read_score X d ip now =
     (case read_stored_score d ip of
        None \<Rightarrow> None
      | Some stored \<Rightarrow> Some (project_to_now (en_arith X) stored now HALF_LIFE_SECONDS))"

section \<open>Stored confidence\<close>

lemma rescale_exact:
  assumes "dval d = of_int k / 1000"
  shows "rescale 3 d = dec k 3"
proof (cases "scale d \<le> 3")
  case True
  have "of_int (mantissa d) * (1000 :: rat) = of_int k * 10 ^ scale d"
    using assms by (simp add: dval_def field_simps)
  also have "(1000 :: rat) = 10 ^ (3 - scale d) * 10 ^ scale d"
    using True by (simp flip: power_add)
  finally have "(of_int (mantissa d * 10 ^ (3 - scale d)) :: rat) = of_int k"
    by simp
  then have "mantissa d * 10 ^ (3 - scale d) = k" using of_int_eq_iff by blast
  with True show ?thesis by (simp add: rescale_def)
next
  case False
  define j where "j = scale d - 3"
  with False have sj: "scale d = j + 3" and j: "0 < j" by auto
  have "of_int (mantissa d) = (of_int (k * 10 ^ j) :: rat)"
    using assms by (simp add: dval_def sj power_add field_simps)
  then have m: "mantissa d = k * 10 ^ j" using of_int_eq_iff by blast
  obtain i where i: "j = Suc i" using j by (cases j) auto
  have abs: "\<bar>mantissa d\<bar> = \<bar>k\<bar> * 10 ^ j" by (simp add: m abs_mult)
  have "\<bar>mantissa d\<bar> div 10 ^ j = \<bar>k\<bar>" "\<bar>mantissa d\<bar> div 10 ^ (j - 1) mod 10 = 0"
    by (simp_all add: abs i)
  moreover have "sgn (mantissa d) * \<bar>k\<bar> = k" by (simp add: m sgn_mult mult_sgn_abs)
  ultimately show ?thesis using j by (simp add: rescale_def sj Let_def)
qed

lemma sw_confidence_thousandths: "\<exists>k. sw_confidence (signal_weight s) = dec k 3"
  by (cases s) (auto simp: mk_weight_def)

lemma validated_rescale:
  assumes "validate e = Inr ()"
  shows "rescale 3 (ev_confidence e) = sw_confidence (signal_weight (ev_signal_type e))"
proof -
  obtain k where k: "sw_confidence (signal_weight (ev_signal_type e)) = dec k 3"
    using sw_confidence_thousandths by blast
  with assms have "dval (ev_confidence e) = of_int k / 1000"
    by (simp add: validate_Inr_iff dval_def dec_def)
  with k show ?thesis by (simp add: rescale_exact)
qed

section \<open>Views kept beside the ledger\<close>

text \<open>What \<open>ip_vantage\<close> and \<open>ip_sensor\<close> hold for a source, derived from its scored events.\<close>

definition wans :: "event_input list \<Rightarrow> ip_addr set" where
  "wans es = {w. \<exists>e \<in> set es. ev_wan_ip e = Some w}"

definition spec_vantages :: "event_input list \<Rightarrow> (ip_addr \<times> bool) list" where
  "spec_vantages es =
     map (\<lambda>w. (w, \<exists>e \<in> set es. ev_wan_ip e = Some w \<and> auth_tcp e)) (sorted_list_of_set (wans es))"

definition spec_sensors :: "event_input list \<Rightarrow> string list" where
  "spec_sensors es = sorted_list_of_set (ev_sensor ` set es)"

definition fold_vantage :: "event_input \<Rightarrow> (ip_addr \<times> bool) list \<Rightarrow> (ip_addr \<times> bool) list" where
  "fold_vantage e rows =
     (case ev_wan_ip e of Some w \<Rightarrow> upsert_vantage w (auth_tcp e) rows | None \<Rightarrow> rows)"

lemma finite_wans: "finite (wans es)"
proof -
  have "wans es = (\<lambda>e. the (ev_wan_ip e)) ` {e \<in> set es. ev_wan_ip e \<noteq> None}"
    by (force simp: wans_def image_iff)
  then show ?thesis by simp
qed

lemma tab_ok_spec_vantages: "tab_ok (spec_vantages es)"
  by (simp add: spec_vantages_def comp_def)

lemma map_of_spec_vantages:
  "map_of (spec_vantages es) w =
     (if w \<in> wans es then Some (\<exists>e \<in> set es. ev_wan_ip e = Some w \<and> auth_tcp e) else None)"
  by (simp add: spec_vantages_def map_of_map_restrict restrict_map_def finite_wans)

lemma map_of_upsert_vantage:
  "map_of (upsert_vantage w flag rows) =
     (map_of rows)(w \<mapsto> (case map_of rows w of None \<Rightarrow> flag | Some old \<Rightarrow> old \<or> flag))"
  by (auto simp: upsert_vantage_def map_of_tab_upd fun_eq_iff split: option.split)

lemma tab_ok_upsert_vantage: "tab_ok rows \<Longrightarrow> tab_ok (upsert_vantage w flag rows)"
  by (auto simp: upsert_vantage_def intro: tab_ok_tab_upd split: option.split)

interpretation vantages: maintained_view "[]" fold_vantage spec_vantages
proof
  show "spec_vantages [] = []" by (simp add: spec_vantages_def wans_def)
next
  fix es e
  show "spec_vantages (es @ [e]) = fold_vantage e (spec_vantages es)"
  proof (cases "ev_wan_ip e")
    case None
    then have "wans (es @ [e]) = wans es" by (auto simp: wans_def)
    with None show ?thesis by (simp add: spec_vantages_def fold_vantage_def)
  next
    case (Some w)
    have "map_of (spec_vantages (es @ [e])) = map_of (upsert_vantage w (auth_tcp e) (spec_vantages es))"
    proof
      fix x
      show "map_of (spec_vantages (es @ [e])) x
        = map_of (upsert_vantage w (auth_tcp e) (spec_vantages es)) x"
        using Some by (auto simp: map_of_spec_vantages map_of_upsert_vantage wans_def)
    qed
    then show ?thesis
      using Some by (simp add: fold_vantage_def tab_eqI tab_ok_spec_vantages tab_ok_upsert_vantage)
  qed
qed

interpretation sensors: maintained_view "[]" "\<lambda>e. insort_insert (ev_sensor e)" spec_sensors
proof
  show "spec_sensors [] = []" by (simp add: spec_sensors_def)
next
  fix es e
  show "spec_sensors (es @ [e]) = insort_insert (ev_sensor e) (spec_sensors es)"
    using sorted_list_of_set_insort_insert [of "ev_sensor ` set es" "ev_sensor e"]
    by (simp add: spec_sensors_def)
qed

section \<open>What one append does\<close>

text \<open>The scored events of a source, in ledger order, as they were hashed and folded.\<close>

definition source_rows :: "event_row list \<Rightarrow> ip_addr \<Rightarrow> event_row list" where
  "source_rows rows ip = filter (\<lambda>r. er_source_ip r = ip \<and> \<not> is_telemetry (er_signal_type r)) rows"

definition fold_score ::
  "env \<Rightarrow> event_input \<Rightarrow> instant option \<Rightarrow> (ip_addr \<times> bool) list \<Rightarrow> string list
   \<Rightarrow> ip_score option \<Rightarrow> ip_score" where
  "fold_score X e prior vs ss stored =
     apply_event (en_arith X) stored e HALF_LIFE_SECONDS (is_deduped prior (ev_observed_at e))
       (as_i32 (distinct_wan_count (vantage_list vs))) (as_i32 (int (length ss)))"

lemma fold_breadth_sets_eq:
  "fold_breadth_sets d e =
     ((as_i32 (distinct_wan_count (vantage_list (fold_vantage e (db_vantage d (ev_source_ip e))))),
       as_i32 (int (length (insort_insert (ev_sensor e) (db_sensor d (ev_source_ip e)))))),
      d\<lparr>db_vantage := (db_vantage d)(ev_source_ip e := fold_vantage e (db_vantage d (ev_source_ip e))),
        db_sensor := (db_sensor d)(ev_source_ip e :=
          insort_insert (ev_sensor e) (db_sensor d (ev_source_ip e)))\<rparr>)"
  by (cases "ev_wan_ip e") (simp_all add: fold_breadth_sets_def fold_vantage_def Let_def)

definition appended_row :: "env \<Rightarrow> event_row list \<Rightarrow> event_input \<Rightarrow> event_row" where
  "appended_row X rows e = event_columns X (next_id rows) (chain_head rows)
     (chain_hash (en_codec X) (chain_head rows) e) e"

lemma insert_chained_eq:
  "insert_chained X d e =
     (case en_refuse X e of Some err \<Rightarrow> Inl (Db err)
      | None \<Rightarrow> Inr (next_id (db_event d), d\<lparr>db_event := db_event d @ [appended_row X (db_event d) e]\<rparr>))"
  by (simp add: insert_chained_def enforce_chain_linkage_def appended_row_def Let_def split: option.split)

text \<open>The database after an accepted scored event.\<close>

definition scored_append :: "env \<Rightarrow> event_input \<Rightarrow> db \<Rightarrow> db" where
  "scored_append X e d =
     (let src = ev_source_ip e;
          rows = db_event d @ [appended_row X (db_event d) e];
          vs = fold_vantage e (db_vantage d src);
          ss = insort_insert (ev_sensor e) (db_sensor d src);
          prior = dedup_prior rows src (ev_signal_type e) (next_id (db_event d))
      in \<lparr>db_event = rows, db_vantage = (db_vantage d)(src := vs), db_sensor = (db_sensor d)(src := ss),
          db_score = upsert_score (fold_score X e prior vs ss (db_score d src)) (db_score d)\<rparr>)"

lemma append_event_accepted:
  assumes "validate e = Inr ()" "\<not> is_telemetry (ev_signal_type e)"
    "en_refuse X (normalize_event e) = None"
  shows "snd (append_event X d e) = scored_append X (normalize_event e) d"
    "\<exists>s. fst (append_event X d e) = Inr s"
  using assms
  by (simp_all add: append_event_def insert_chained_eq Let_def fold_breadth_sets_eq
      scored_append_def fold_score_def split: prod.split)

lemma append_event_refused:
  "validate e = Inr () \<Longrightarrow> \<not> is_telemetry (ev_signal_type e)
   \<Longrightarrow> en_refuse X (normalize_event e) = Some err \<Longrightarrow> append_event X d e = (Inl (Db err), d)"
  by (simp add: append_event_def insert_chained_eq Let_def)

lemma append_telemetry_accepted:
  assumes "validate e = Inr ()" "is_telemetry (ev_signal_type e)"
    "en_refuse X (normalize_event e) = None"
  shows "append_telemetry_event X d e =
     (Inr (), d\<lparr>db_event := db_event d @ [appended_row X (db_event d) (normalize_event e)]\<rparr>)"
  using assms by (simp add: append_telemetry_event_def insert_chained_eq)

lemma normalize_event_sel [simp]:
  "ev_source_ip (normalize_event e) = ev_source_ip e" "ev_wan_ip (normalize_event e) = ev_wan_ip e"
  "ev_sensor (normalize_event e) = ev_sensor e"
  "ev_signal_type (normalize_event e) = ev_signal_type e"
  "ev_protocol (normalize_event e) = ev_protocol e"
  "ev_authenticated (normalize_event e) = ev_authenticated e"
  "ev_category (normalize_event e) = ev_category e" "ev_weight (normalize_event e) = ev_weight e"
  "ev_metadata (normalize_event e) = ev_metadata e"
  by (simp_all add: normalize_event_def)

lemma normalize_event_idem: "normalize_event (normalize_event e) = normalize_event e"
  by (simp add: normalize_event_def rescale_def dec_def Let_def)

lemma validate_normalize: "validate e = Inr () \<Longrightarrow> validate (normalize_event e) = Inr ()"
  by (simp add: validate_Inr_iff validated_rescale normalize_event_def)

end
