(* ===== verification/Replay.thy ===== *)
theory Replay
  imports Ledger
begin

text \<open>
  \<open>crates/core-scoring/src/repository/replay.rs\<close>: rebuilding a source's projection from the ledger
  rows alone, and verifying the hash chain over the whole ledger in pages.
\<close>

section \<open>Definitions\<close>

datatype chain_status = Intact | Broken int

text \<open>A \<open>NUMERIC(4,3)\<close> decodes with its three decimals, except that zero decodes with none.\<close>

definition numeric_decode :: "rat \<Rightarrow> decimal" where
  "numeric_decode v = (if v = 0 then dec 0 0 else dec \<lfloor>v * 1000\<rfloor> 3)"

definition reconstruct_event :: "event_row \<Rightarrow> event_input" where
  "reconstruct_event r =
     \<lparr>ev_source_ip = er_source_ip r, ev_wan_ip = er_wan_ip r, ev_sensor = er_sensor r,
      ev_signal_type = er_signal_type r, ev_protocol = er_protocol r,
      ev_authenticated = er_authenticated r, ev_category = er_category r,
      ev_weight = word_of_int (er_weight r),
      ev_confidence = rescale 3 (numeric_decode (er_confidence r)),
      ev_observed_at = er_observed_at r, ev_metadata = er_metadata r, ev_session_id = None\<rparr>"

text \<open>The vantages of events \<open>0..=k\<close>: one per distinct WAN, in order of first appearance.\<close>

fun note_vantage :: "ip_addr \<Rightarrow> bool \<Rightarrow> wan_vantage list \<Rightarrow> wan_vantage list" where
  "note_vantage wan flag [] = [\<lparr>wv_wan_ip = wan, wv_saw_authenticated_tcp = flag\<rparr>]"
| "note_vantage wan flag (v # vs) =
     (if wv_wan_ip v = wan
      then v\<lparr>wv_saw_authenticated_tcp := wv_saw_authenticated_tcp v \<or> flag\<rparr> # vs
      else v # note_vantage wan flag vs)"

definition replay_vantages :: "event_input list \<Rightarrow> wan_vantage list" where
  "replay_vantages es =
     fold (\<lambda>e vs. case ev_wan_ip e of None \<Rightarrow> vs | Some wan \<Rightarrow> note_vantage wan (auth_tcp e) vs) es []"

definition replay_prior :: "event_input list \<Rightarrow> signal_type \<Rightarrow> instant option" where
  "replay_prior es st = max_time (map ev_observed_at (filter (\<lambda>e. ev_signal_type e = st) es))"

fun rebuild_loop ::
  "env \<Rightarrow> event_input list \<Rightarrow> event_input list \<Rightarrow> ip_score option \<Rightarrow> ip_score option" where
  "rebuild_loop X seen [] acc = acc"
| "rebuild_loop X seen (e # es) acc =
     (let deduped = is_deduped (replay_prior seen (ev_signal_type e)) (ev_observed_at e);
          upto = seen @ [e];
          dwc = as_i32 (distinct_wan_count (replay_vantages upto));
          dsc = as_i32 (int (length (remdups_adj (sort (map ev_sensor upto)))))
      in rebuild_loop X upto es
           (Some (apply_event (en_arith X) acc e HALF_LIFE_SECONDS deduped dwc dsc)))"

definition rebuild_projection :: "env \<Rightarrow> db \<Rightarrow> ip_addr \<Rightarrow> ip_score option" where
  "rebuild_projection X d ip =
     (let rows = filter (\<lambda>r. er_source_ip r = ip \<and> er_signal_type r \<noteq> HoneypotSessionEnd) (db_event d)
      in if rows = [] then None
         else rebuild_loop X [] (map reconstruct_event rows) None)"

definition VERIFY_BATCH_ROWS :: int where
  "VERIFY_BATCH_ROWS = 5000"

text \<open>One page: the first row that fails either check, or the cursor and the hash to go on from.\<close>

fun verify_page ::
  "codec \<Rightarrow> event_row list \<Rightarrow> bytes option \<Rightarrow> int \<Rightarrow> int + (bytes option \<times> int)" where
  "verify_page P [] prior last_id = Inr (prior, last_id)"
| "verify_page P (r # rs) prior last_id =
     (if er_prev_hash r \<noteq> prior then Inl (er_id r)
      else if chain_hash P prior (reconstruct_event r) \<noteq> er_hash r then Inl (er_id r)
      else verify_page P rs (Some (er_hash r)) (er_id r))"

definition page_after :: "event_row list \<Rightarrow> int \<Rightarrow> int \<Rightarrow> event_row list" where
  "page_after rows last_id batch = take (nat batch) (filter (\<lambda>r. last_id < er_id r) rows)"

lemma verify_page_cursor:
  "verify_page P rs prior last_id = Inr (prior', last_id')
   \<Longrightarrow> last_id' = (if rs = [] then last_id else er_id (last rs))"
  by (induction rs arbitrary: prior last_id) (auto split: if_splits)

function verify_pages ::
  "codec \<Rightarrow> event_row list \<Rightarrow> int \<Rightarrow> bytes option \<Rightarrow> int \<Rightarrow> chain_status" where
  "verify_pages P rows batch prior last_id =
     (let page = page_after rows last_id batch
      in if page = [] then Intact
         else case verify_page P page prior last_id of
                Inl bad \<Rightarrow> Broken bad
              | Inr (prior', last_id') \<Rightarrow> verify_pages P rows batch prior' last_id')"
  by pat_completeness auto
termination
proof (relation "measure (\<lambda>(P, rows, batch, prior, last_id). length (filter (\<lambda>r. last_id < er_id r) rows))")
  fix P rows batch prior last_id page res and x :: "bytes option \<times> int" and prior' last_id'
  assume page: "page = page_after rows last_id batch" "page \<noteq> []"
    and res: "verify_page P page prior last_id = Inr x" "(prior', last_id') = x"
  let ?l = "last page"
  have "?l \<in> set page" using page(2) by simp
  then have l: "?l \<in> set rows" "last_id < er_id ?l"
    unfolding page(1) page_after_def by (auto dest: in_set_takeD)
  have id: "last_id' = er_id ?l"
    using verify_page_cursor [of P page prior last_id prior' last_id'] res page(2) by auto
  have "length (filter (\<lambda>r. er_id ?l < er_id r) rows) < length (filter (\<lambda>r. last_id < er_id r) rows)"
    using l by (intro length_filter_less_strict) auto
  then show "((P, rows, batch, prior', last_id'), P, rows, batch, prior, last_id)
    \<in> measure (\<lambda>(P, rows, batch, prior, last_id). length (filter (\<lambda>r. last_id < er_id r) rows))"
    using id by simp
qed simp

declare verify_pages.simps [simp del]

definition verify_chain_in_batches :: "codec \<Rightarrow> db \<Rightarrow> int \<Rightarrow> chain_status" where
  "verify_chain_in_batches P d batch = verify_pages P (db_event d) (max 1 batch) None 0"

definition verify_chain :: "codec \<Rightarrow> db \<Rightarrow> chain_status" where
  "verify_chain P d = verify_chain_in_batches P d VERIFY_BATCH_ROWS"

section \<open>Verification reads the chain\<close>

fun chain_from :: "codec \<Rightarrow> bytes option \<Rightarrow> event_row list \<Rightarrow> bool" where
  "chain_from P prior [] = True"
| "chain_from P prior (r # rs) \<longleftrightarrow>
     er_prev_hash r = prior \<and> er_hash r = chain_hash P prior (reconstruct_event r)
     \<and> chain_from P (Some (er_hash r)) rs"

abbreviation ids_ok :: "event_row list \<Rightarrow> bool" where
  "ids_ok rows \<equiv> sorted_wrt (<) (map er_id rows) \<and> (\<forall>r \<in> set rows. 0 < er_id r)"

lemma chain_from_append:
  "chain_from P prior (rs @ qs) \<longleftrightarrow>
     chain_from P prior rs \<and> chain_from P (if rs = [] then prior else chain_head rs) qs"
  by (induction rs arbitrary: prior) (auto simp: chain_head_def)

lemma chain_from_snoc:
  "chain_from P None (rs @ [r]) \<longleftrightarrow>
     chain_from P None rs \<and> er_prev_hash r = chain_head rs
     \<and> er_hash r = chain_hash P (chain_head rs) (reconstruct_event r)"
  by (auto simp: chain_from_append chain_head_def)

lemma verify_page_Inr_iff:
  "(\<exists>x. verify_page P rs prior l = Inr x) \<longleftrightarrow> chain_from P prior rs"
  by (induction rs arbitrary: prior l) auto

lemma verify_page_Inl:
  "verify_page P rs prior l = Inl bad \<Longrightarrow>
     \<exists>good r rest. rs = good @ r # rest \<and> er_id r = bad \<and> chain_from P prior good
       \<and> \<not> chain_from P prior (good @ [r])"
proof (induction rs arbitrary: prior l)
  case (Cons r rs)
  show ?case
  proof (cases "er_prev_hash r = prior \<and> chain_hash P prior (reconstruct_event r) = er_hash r")
    case True
    with Cons.prems have "verify_page P rs (Some (er_hash r)) (er_id r) = Inl bad" by simp
    then obtain good q rest where "rs = good @ q # rest" "er_id q = bad"
      "chain_from P (Some (er_hash r)) good" "\<not> chain_from P (Some (er_hash r)) (good @ [q])"
      using Cons.IH by blast
    with True show ?thesis
      by (intro exI [of _ "r # good"] exI [of _ q] exI [of _ rest]) auto
  next
    case False
    with Cons.prems have "er_id r = bad" by (auto split: if_splits)
    with False show ?thesis
      by (intro exI [of _ "[]"] exI [of _ r] exI [of _ rs]) auto
  qed
qed simp

lemma verify_page_append:
  "verify_page P (xs @ ys) prior l =
     (case verify_page P xs prior l of Inl b \<Rightarrow> Inl b | Inr (p, l') \<Rightarrow> verify_page P ys p l')"
  by (induction xs arbitrary: prior l) auto

definition page_status :: "int + (bytes option \<times> int) \<Rightarrow> chain_status" where
  "page_status x = (case x of Inl bad \<Rightarrow> Broken bad | Inr _ \<Rightarrow> Intact)"

lemma verify_pages_rest:
  assumes "sorted_wrt (<) (map er_id (seen @ rest))" "\<forall>r \<in> set seen. er_id r \<le> l"
    "\<forall>r \<in> set rest. l < er_id r" "0 < batch"
  shows "verify_pages P (seen @ rest) batch prior l = page_status (verify_page P rest prior l)"
  using assms
proof (induction "length rest" arbitrary: seen rest prior l rule: less_induct)
  case less
  let ?n = "nat batch"
  have "filter (\<lambda>r. l < er_id r) (seen @ rest) = rest"
    using less.prems(2,3) by (simp add: filter_empty_conv linorder_not_less filter_id_conv)
  then have page: "page_after (seen @ rest) l batch = take ?n rest"
    by (simp add: page_after_def)
  show ?case
  proof (cases "rest = []")
    case True
    with page show ?thesis by (simp add: verify_pages.simps [of P _ _ _ l] page_status_def)
  next
    case False
    with less.prems(4) have ne: "take ?n rest \<noteq> []" by simp
    show ?thesis
    proof (cases "verify_page P (take ?n rest) prior l")
      case (Inl bad)
      moreover have "verify_page P rest prior l = Inl bad"
        using verify_page_append [of P "take ?n rest" "drop ?n rest" prior l] Inl by simp
      ultimately show ?thesis
        using page ne by (simp add: verify_pages.simps [of P _ _ _ l] page_status_def)
    next
      case (Inr x)
      obtain p' l' where x: "x = (p', l')" by (cases x)
      have l': "l' = er_id (last (take ?n rest))"
        using verify_page_cursor [of P "take ?n rest" prior l p' l'] Inr x ne by simp
      have sorted: "sorted_wrt (<) (map er_id ((seen @ take ?n rest) @ drop ?n rest))"
        using less.prems(1) by simp
      have "sorted_wrt (<) (map er_id rest)"
        using less.prems(1) by (simp add: sorted_wrt_append)
      then have halves: "sorted_wrt (<) (map er_id (take ?n rest) @ map er_id (drop ?n rest))"
        by (metis append_take_drop_id map_append)
      have "\<forall>r \<in> set (drop ?n rest). l' < er_id r"
        using halves last_in_set [OF ne] unfolding sorted_wrt_append l' by auto
      moreover have "\<forall>r \<in> set (seen @ take ?n rest). er_id r \<le> l'"
      proof -
        have "r \<in> set (take ?n rest) \<Longrightarrow> er_id r \<le> l'" for r
          using halves unfolding sorted_wrt_append l'
          by (intro sorted_map_last_le) (auto simp: strict_sorted_iff)
        moreover have "l < l'"
          using less.prems(3) ne unfolding l' by (meson in_set_takeD last_in_set)
        ultimately show ?thesis using less.prems(2) by fastforce
      qed
      ultimately have "verify_pages P ((seen @ take ?n rest) @ drop ?n rest) batch p' l'
          = page_status (verify_page P (drop ?n rest) p' l')"
        using less.prems(4) False sorted by (intro less.hyps) auto
      moreover have "verify_page P rest prior l = verify_page P (drop ?n rest) p' l'"
        using verify_page_append [of P "take ?n rest" "drop ?n rest" prior l] Inr x by simp
      ultimately show ?thesis
        using page ne Inr x by (simp add: verify_pages.simps [of P _ _ _ l])
    qed
  qed
qed

lemma verify_chain_in_batches_eq:
  assumes "ids_ok (db_event d)"
  shows "verify_chain_in_batches P d batch = page_status (verify_page P (db_event d) None 0)"
  using verify_pages_rest [of "[]" "db_event d" 0 "max 1 batch" P None] assms
  by (simp add: verify_chain_in_batches_def)

lemma verify_chain_Intact_iff:
  "ids_ok (db_event d) \<Longrightarrow> verify_chain P d = Intact \<longleftrightarrow> chain_from P None (db_event d)"
  using verify_page_Inr_iff [of P "db_event d" None 0]
  by (auto simp: verify_chain_def verify_chain_in_batches_eq page_status_def split: sum.splits)

section \<open>Rows and events\<close>

text \<open>Metadata whose \<open>jsonb\<close> form is itself (the canonical form the source documents).\<close>

definition storable :: "env \<Rightarrow> event_input \<Rightarrow> bool" where
  "storable X e \<longleftrightarrow> en_jsonb X (ev_metadata e) = ev_metadata e"

lemma numeric_decode_thousandths: "rescale 3 (numeric_decode (of_int k / 1000)) = dec k 3"
  by (simp add: numeric_decode_def rescale_exact dval_def dec_def)

lemma reconstruct_columns:
  assumes "validate e = Inr ()" "normalize_event e = e" "storable X e"
  shows "reconstruct_event (event_columns X i prev h e) = e\<lparr>ev_session_id := None\<rparr>"
proof -
  obtain k where k: "sw_confidence (signal_weight (ev_signal_type e)) = dec k 3"
    using sw_confidence_thousandths by blast
  have c: "ev_confidence e = dec k 3"
    using validated_rescale [OF assms(1)] assms(2) k
    by (metis event_input.select_convs(9) event_input.surjective event_input.update_convs(9,10)
        normalize_event_def)
  have "rescale 3 (numeric_decode (dval (ev_confidence e))) = ev_confidence e"
    using numeric_decode_thousandths [of k] by (simp add: c dval_def dec_def)
  then show ?thesis
    using assms(3) by (simp add: reconstruct_event_def event_columns_def storable_def)
qed

lemma chain_hash_session [simp]:
  "chain_hash P prev (e\<lparr>ev_session_id := s\<rparr>) = chain_hash P prev e"
  by (simp add: chain_hash_def canonical_bytes_def Let_def)

lemma represented_events_session [simp]: "represented_events (e\<lparr>ev_session_id := s\<rparr>) = represented_events e"
  by (cases e) (simp only: represented_events_def flagged_def event_input.simps)

lemma apply_event_session [simp]:
  "apply_event A prev (e\<lparr>ev_session_id := s\<rparr>) h d w n = apply_event A prev e h d w n"
  by (cases e) (simp only: apply_event_def is_unattributed_summary_def flagged_def
      add_contribution_def represented_events_def event_input.simps)

lemma reconstruct_appended:
  assumes "validate e = Inr ()" "storable X e"
  shows "reconstruct_event (appended_row X rows (normalize_event e))
    = (normalize_event e)\<lparr>ev_session_id := None\<rparr>"
  using reconstruct_columns [OF validate_normalize [OF assms(1)] normalize_event_idem] assms(2)
  by (simp add: appended_row_def storable_def)

lemma appended_row_sel [simp]:
  "er_id (appended_row X rows e) = next_id rows"
  "er_source_ip (appended_row X rows e) = ev_source_ip e"
  "er_signal_type (appended_row X rows e) = ev_signal_type e"
  "er_prev_hash (appended_row X rows e) = chain_head rows"
  "er_hash (appended_row X rows e) = chain_hash (en_codec X) (chain_head rows) e"
  "er_observed_at (appended_row X rows e) = ev_observed_at e"
  by (simp_all add: appended_row_def event_columns_def)

lemma next_id_greater: "ids_ok rows \<Longrightarrow> r \<in> set rows \<Longrightarrow> er_id r < next_id rows"
  using sorted_map_last_le [of er_id rows r]
  by (auto simp: next_id_def strict_sorted_iff)

lemma ids_ok_snoc: "ids_ok rows \<Longrightarrow> er_id r = next_id rows \<Longrightarrow> ids_ok (rows @ [r])"
proof -
  assume ok: "ids_ok rows" and r: "er_id r = next_id rows"
  then have "0 < next_id rows"
    using last_in_set [of rows] by (fastforce simp: next_id_def)
  with ok r next_id_greater [OF ok] show ?thesis by (auto simp: sorted_wrt_append)
qed

lemma source_rows_snoc:
  "source_rows (rows @ [r]) ip =
     (if er_source_ip r = ip \<and> \<not> is_telemetry (er_signal_type r)
      then source_rows rows ip @ [r] else source_rows rows ip)"
  by (simp add: source_rows_def)

section \<open>Replay derives the inputs the append path kept\<close>

lemma note_vantage_authenticated:
  "(\<exists>v \<in> set (note_vantage w flag vs). wv_wan_ip v = x \<and> wv_saw_authenticated_tcp v) \<longleftrightarrow>
     (\<exists>v \<in> set vs. wv_wan_ip v = x \<and> wv_saw_authenticated_tcp v) \<or> flag \<and> x = w"
  by (induction vs) auto

lemma replay_vantages_snoc:
  "replay_vantages (es @ [e]) =
     (case ev_wan_ip e of None \<Rightarrow> replay_vantages es
      | Some w \<Rightarrow> note_vantage w (auth_tcp e) (replay_vantages es))"
  by (cases "ev_wan_ip e") (simp_all add: replay_vantages_def)

lemma replay_vantages_authenticated:
  "(\<exists>v \<in> set (replay_vantages es). wv_wan_ip v = w \<and> wv_saw_authenticated_tcp v)
     \<longleftrightarrow> (\<exists>e \<in> set es. ev_wan_ip e = Some w \<and> auth_tcp e)"
proof (induction es rule: rev_induct)
  case (snoc e es)
  then show ?case
    by (cases "ev_wan_ip e") (auto simp: replay_vantages_snoc note_vantage_authenticated)
qed (simp add: replay_vantages_def)

lemma set_vantage_list_spec:
  "set (vantage_list (spec_vantages es)) = (\<lambda>w. \<lparr>wv_wan_ip = w,
     wv_saw_authenticated_tcp = (\<exists>e \<in> set es. ev_wan_ip e = Some w \<and> auth_tcp e)\<rparr>) ` wans es"
  by (simp add: vantage_list_def spec_vantages_def finite_wans image_image)

lemma spec_vantages_authenticated:
  "(\<exists>v \<in> set (vantage_list (spec_vantages es)). wv_wan_ip v = w \<and> wv_saw_authenticated_tcp v)
     \<longleftrightarrow> (\<exists>e \<in> set es. ev_wan_ip e = Some w \<and> auth_tcp e)"
  unfolding set_vantage_list_spec by (auto simp: wans_def)

lemma replay_breadth:
  "distinct_wan_count (replay_vantages es) = distinct_wan_count (vantage_list (spec_vantages es))"
proof (rule distinct_wan_count_cong)
  have img: "wv_wan_ip ` {v \<in> set vs. wv_saw_authenticated_tcp v}
      = {w. \<exists>v \<in> set vs. wv_wan_ip v = w \<and> wv_saw_authenticated_tcp v}" for vs
    by auto
  show "dedupe_prefix ` wv_wan_ip ` {v \<in> set (replay_vantages es). wv_saw_authenticated_tcp v}
      = dedupe_prefix ` wv_wan_ip ` {v \<in> set (vantage_list (spec_vantages es)). wv_saw_authenticated_tcp v}"
    unfolding img replay_vantages_authenticated spec_vantages_authenticated ..
qed

lemma distinct_remdups_adj_sorted: "sorted xs \<Longrightarrow> distinct (remdups_adj xs)"
  by (induction xs rule: remdups_adj.induct) auto

lemma replay_sensors:
  "length (remdups_adj (sort (map ev_sensor es))) = length (spec_sensors es)"
proof -
  have "length (remdups_adj (sort (map ev_sensor es))) = card (ev_sensor ` set es)"
    using distinct_card [OF distinct_remdups_adj_sorted [of "sort (map ev_sensor es)"]] by simp
  then show ?thesis by (simp add: spec_sensors_def)
qed

lemma rebuild_loop_snoc:
  "rebuild_loop X seen (es @ [e]) acc =
     Some (apply_event (en_arith X) (rebuild_loop X seen es acc) e HALF_LIFE_SECONDS
       (is_deduped (replay_prior (seen @ es) (ev_signal_type e)) (ev_observed_at e))
       (as_i32 (distinct_wan_count (vantage_list (spec_vantages (seen @ es @ [e])))))
       (as_i32 (int (length (spec_sensors (seen @ es @ [e]))))))"
proof (induction es arbitrary: seen acc)
  case Nil
  then show ?case
    using replay_sensors [of "seen @ [e]"] by (simp add: Let_def replay_breadth)
next
  case (Cons x es)
  then show ?case by (simp add: Let_def)
qed

lemma dedup_prior_replay:
  assumes "ids_ok rows" "\<not> is_telemetry st" "er_id r = next_id rows"
  shows "dedup_prior (rows @ [r]) src st (next_id rows)
    = replay_prior (map reconstruct_event (source_rows rows src)) st"
proof -
  have "filter (\<lambda>r. er_source_ip r = src \<and> er_signal_type r = st \<and> er_id r < next_id rows) rows
      = filter (\<lambda>r. er_signal_type r = st) (source_rows rows src)"
    using next_id_greater [OF assms(1)] assms(2)
    by (auto simp: source_rows_def intro!: filter_cong)
  then show ?thesis
    using assms(3) by (auto simp: dedup_prior_def replay_prior_def filter_map comp_def reconstruct_event_def)
qed


section \<open>Reachable ledgers\<close>

text \<open>Databases the two append operations can produce, failures included, from canonical metadata.\<close>

inductive ledger_step :: "env \<Rightarrow> db \<Rightarrow> db \<Rightarrow> bool" for X where
  scored: "storable X e \<Longrightarrow> ledger_step X d (snd (append_event X d e))"
| telemetry: "storable X e \<Longrightarrow> ledger_step X d (snd (append_telemetry_event X d e))"

inductive reachable :: "env \<Rightarrow> db \<Rightarrow> bool" for X where
  start: "reachable X empty_db"
| step: "reachable X d \<Longrightarrow> ledger_step X d d' \<Longrightarrow> reachable X d'"

definition source_events :: "db \<Rightarrow> ip_addr \<Rightarrow> event_input list" where
  "source_events d ip = map reconstruct_event (source_rows (db_event d) ip)"

definition views_ok :: "env \<Rightarrow> db \<Rightarrow> bool" where
  "views_ok X d \<longleftrightarrow> (\<forall>ip.
     db_vantage d ip = spec_vantages (source_events d ip)
     \<and> db_sensor d ip = spec_sensors (source_events d ip)
     \<and> db_score d ip = rebuild_loop X [] (source_events d ip) None)"

definition ledger_inv :: "env \<Rightarrow> db \<Rightarrow> bool" where
  "ledger_inv X d \<longleftrightarrow> ids_ok (db_event d) \<and> chain_from (en_codec X) None (db_event d) \<and> views_ok X d"

lemma ledger_inv_empty: "ledger_inv X empty_db"
  by (simp add: ledger_inv_def views_ok_def source_events_def source_rows_def empty_db_def
      vantages.derive_Nil sensors.derive_Nil)

lemma chain_from_appended:
  assumes "validate e = Inr ()" "storable X e" "chain_from (en_codec X) None rows"
  shows "chain_from (en_codec X) None (rows @ [appended_row X rows (normalize_event e)])"
  using assms by (simp add: chain_from_snoc reconstruct_appended)

lemma source_events_appended:
  assumes "validate e = Inr ()" "storable X e"
    "db_event d' = db_event d @ [appended_row X (db_event d) (normalize_event e)]"
  shows "source_events d' ip =
    (if ev_source_ip e = ip \<and> \<not> is_telemetry (ev_signal_type e)
     then source_events d ip @ [(normalize_event e)\<lparr>ev_session_id := None\<rparr>] else source_events d ip)"
  using assms by (simp add: source_events_def source_rows_snoc reconstruct_appended)

lemma fold_vantage_session [simp]: "fold_vantage (e\<lparr>ev_session_id := s\<rparr>) = fold_vantage e"
  by (rule ext, cases "ev_wan_ip e") (simp_all add: fold_vantage_def auth_tcp_def)

lemma upsert_score_keeps:
  assumes "sc_source_ip s = ip" "\<And>old. tbl ip = Some old \<Longrightarrow> sc_delisted s = sc_delisted old"
  shows "upsert_score s tbl = tbl(ip \<mapsto> s)"
  using assms by (auto simp: upsert_score_def split: option.split)

lemma fold_score_upsert:
  "upsert_score (fold_score X e prior vs ss (tbl (ev_source_ip e))) tbl =
     tbl(ev_source_ip e \<mapsto> fold_score X e prior vs ss (tbl (ev_source_ip e)))"
  by (rule upsert_score_keeps) (simp_all add: fold_score_def apply_event_sel(1,13))

lemma scored_append_inv:
  assumes e: "validate e = Inr ()" "storable X e" "\<not> is_telemetry (ev_signal_type e)"
    and inv: "ledger_inv X d"
  shows "ledger_inv X (scored_append X (normalize_event e) d)" (is "ledger_inv X ?d'")
proof -
  let ?e = "normalize_event e" and ?src = "ev_source_ip e"
  let ?clean = "?e\<lparr>ev_session_id := None\<rparr>"
  let ?row = "appended_row X (db_event d) ?e"
  from inv have ids: "ids_ok (db_event d)" and chain: "chain_from (en_codec X) None (db_event d)"
    and views: "views_ok X d" by (simp_all add: ledger_inv_def)
  have rows: "db_event ?d' = db_event d @ [?row]" by (simp add: scored_append_def Let_def)
  note src = source_events_appended [OF e(1,2) rows]
  let ?es = "source_events d ?src"
  have vs: "fold_vantage ?e (db_vantage d ?src) = spec_vantages (?es @ [?clean])"
    using views by (simp add: views_ok_def vantages.derive_snoc)
  have ss: "insort_insert (ev_sensor ?e) (db_sensor d ?src) = spec_sensors (?es @ [?clean])"
    using views by (simp add: views_ok_def sensors.derive_snoc)
  have prior: "dedup_prior (db_event d @ [?row]) ?src (ev_signal_type e) (next_id (db_event d))
      = replay_prior ?es (ev_signal_type e)"
    using dedup_prior_replay [OF ids e(3)] by (simp add: source_events_def)
  have score: "rebuild_loop X [] (?es @ [?clean]) None =
      Some (fold_score X ?e (replay_prior ?es (ev_signal_type e)) (spec_vantages (?es @ [?clean]))
        (spec_sensors (?es @ [?clean])) (db_score d ?src))"
    using views by (simp add: rebuild_loop_snoc fold_score_def views_ok_def)
  have "db_vantage ?d' = (db_vantage d)(?src := spec_vantages (?es @ [?clean]))"
    "db_sensor ?d' = (db_sensor d)(?src := spec_sensors (?es @ [?clean]))"
    using vs ss by (simp_all add: scored_append_def Let_def)
  moreover have "db_score ?d' = (db_score d)(?src := rebuild_loop X [] (?es @ [?clean]) None)"
    using vs ss prior score fold_score_upsert [of X ?e _ _ _ "db_score d"]
    by (simp add: scored_append_def Let_def)
  ultimately have "views_ok X ?d'"
    using views e(3) by (simp add: views_ok_def src)
  moreover have "ids_ok (db_event ?d')" unfolding rows using ids by (rule ids_ok_snoc) simp
  ultimately show ?thesis
    using chain_from_appended [OF e(1,2) chain] rows by (simp add: ledger_inv_def)
qed

lemma telemetry_append_inv:
  assumes e: "validate e = Inr ()" "storable X e" "is_telemetry (ev_signal_type e)"
    and inv: "ledger_inv X d"
  shows "ledger_inv X (d\<lparr>db_event := db_event d @ [appended_row X (db_event d) (normalize_event e)]\<rparr>)"
    (is "ledger_inv X ?d'")
proof -
  have "source_events ?d' ip = source_events d ip" for ip
    using source_events_appended [OF e(1,2), of ?d' d ip] e(3) by simp
  moreover have "ids_ok (db_event ?d')"
    using inv ids_ok_snoc [of "db_event d" "appended_row X (db_event d) (normalize_event e)"]
    by (simp add: ledger_inv_def)
  ultimately show ?thesis
    using inv chain_from_appended [OF e(1,2)] by (simp add: ledger_inv_def views_ok_def)
qed

lemma append_event_rejected:
  "validate e = Inl v \<Longrightarrow> append_event X d e = (Inl (Invalid v), d)"
  "validate e = Inr u \<Longrightarrow> is_telemetry (ev_signal_type e)
   \<Longrightarrow> append_event X d e = (Inl (NotScorable (ev_signal_type e)), d)"
  by (simp_all add: append_event_def)

lemma append_telemetry_rejected:
  "validate e = Inl v \<Longrightarrow> append_telemetry_event X d e = (Inl (Invalid v), d)"
  "validate e = Inr u \<Longrightarrow> \<not> is_telemetry (ev_signal_type e)
   \<Longrightarrow> append_telemetry_event X d e = (Inl (NotScorable (ev_signal_type e)), d)"
  "validate e = Inr u \<Longrightarrow> is_telemetry (ev_signal_type e)
   \<Longrightarrow> en_refuse X (normalize_event e) = Some err \<Longrightarrow> append_telemetry_event X d e = (Inl (Db err), d)"
  by (simp_all add: append_telemetry_event_def insert_chained_eq)

lemma append_event_inv:
  assumes "storable X e" "ledger_inv X d"
  shows "ledger_inv X (snd (append_event X d e))"
proof (cases "validate e")
  case (Inr u)
  then have v: "validate e = Inr ()" by simp
  with assms show ?thesis
    by (cases "is_telemetry (ev_signal_type e)"; cases "en_refuse X (normalize_event e)")
      (simp_all add: append_event_rejected(2) append_event_refused append_event_accepted scored_append_inv)
qed (simp add: append_event_rejected assms)

lemma append_telemetry_inv:
  assumes "storable X e" "ledger_inv X d"
  shows "ledger_inv X (snd (append_telemetry_event X d e))"
proof (cases "validate e")
  case (Inr u)
  then have v: "validate e = Inr ()" by simp
  with assms show ?thesis
    by (cases "is_telemetry (ev_signal_type e)"; cases "en_refuse X (normalize_event e)")
      (simp_all add: append_telemetry_rejected append_telemetry_accepted telemetry_append_inv)
qed (simp add: append_telemetry_rejected assms)

lemma reachable_inv: "reachable X d \<Longrightarrow> ledger_inv X d"
proof (induction rule: reachable.induct)
  case start
  show ?case by (rule ledger_inv_empty)
next
  case (step d d')
  from step.hyps(2) step.IH show ?case
    by cases (simp_all add: append_event_inv append_telemetry_inv)
qed

lemma rebuild_projection_eq: "rebuild_projection X d ip = rebuild_loop X [] (source_events d ip) None"
  by (simp add: rebuild_projection_def source_events_def source_rows_def is_telemetry_iff Let_def)

end
