(* ===== verification/Batch.thy ===== *)
theory Batch
  imports Replay
begin

text \<open>
  \<open>crates/core-scoring/src/repository/batch.rs\<close>: appending many events in one transaction. Every
  input is read once before the first insert and carried forward in memory; only the final state of
  each source is written. A failing batch is retried in halves to isolate the event that caused it.
\<close>

section \<open>Definitions\<close>

record source_state =
  ss_score :: "ip_score option"
  ss_vantages :: "(ip_addr \<times> bool) list"
  ss_sensors :: "string list"
  ss_dirty_wans :: "ip_addr list"
  ss_new_sensors :: "string list"

type_synonym dedup_key = "ip_addr \<times> signal_type"

fun chain_links ::
  "codec \<Rightarrow> bytes option \<Rightarrow> event_input list \<Rightarrow> bytes option list \<times> bytes list" where
  "chain_links P prev [] = ([], [])"
| "chain_links P prev (e # es) =
     (let hash = chain_hash P prev e;
          (prevs, hashes) = chain_links P (Some hash) es
      in (prev # prevs, hash # hashes))"

definition load_source :: "db \<Rightarrow> ip_addr \<Rightarrow> source_state" where
  "load_source d ip =
     \<lparr>ss_score = db_score d ip, ss_vantages = db_vantage d ip, ss_sensors = db_sensor d ip,
      ss_dirty_wans = [], ss_new_sensors = []\<rparr>"

definition load_sources :: "db \<Rightarrow> event_input list \<Rightarrow> (ip_addr \<times> source_state) list" where
  "load_sources d scored =
     map (\<lambda>ip. (ip, load_source d ip)) (sort (remdups (map ev_source_ip scored)))"

definition load_dedup_priors ::
  "db \<Rightarrow> event_input list \<Rightarrow> dedup_key \<Rightarrow> instant option option" where
  "load_dedup_priors d scored =
     (\<lambda>(ip, st). if (ip, st) \<in> set (map (\<lambda>e. (ev_source_ip e, ev_signal_type e)) scored)
        then Some (max_time (map er_observed_at
               (filter (\<lambda>r. er_source_ip r = ip \<and> er_signal_type r = st) (db_event d))))
        else None)"

definition fold_state :: "env \<Rightarrow> event_input \<Rightarrow> bool \<Rightarrow> source_state \<Rightarrow> source_state" where
  "fold_state X e deduped st =
     (let st = (case ev_wan_ip e of
           None \<Rightarrow> st
         | Some wan \<Rightarrow>
             (case map_of (ss_vantages st) wan of
                None \<Rightarrow> st\<lparr>ss_vantages := tab_upd wan (auth_tcp e) (ss_vantages st),
                           ss_dirty_wans := insort_insert wan (ss_dirty_wans st)\<rparr>
              | Some flag \<Rightarrow>
                  if auth_tcp e \<and> \<not> flag
                  then st\<lparr>ss_vantages := tab_upd wan True (ss_vantages st),
                          ss_dirty_wans := insort_insert wan (ss_dirty_wans st)\<rparr>
                  else st));
          st = (if ev_sensor e \<in> set (ss_sensors st) then st
                else st\<lparr>ss_sensors := insort_insert (ev_sensor e) (ss_sensors st),
                        ss_new_sensors := insort_insert (ev_sensor e) (ss_new_sensors st)\<rparr>)
      in st\<lparr>ss_score := Some (apply_event (en_arith X) (ss_score st) e HALF_LIFE_SECONDS deduped
            (as_i32 (distinct_wan_count (vantage_list (ss_vantages st))))
            (as_i32 (int (length (ss_sensors st)))))\<rparr>)"

text \<open>The fold over the scored events; \<open>None\<close> is the panic of an unloaded source.\<close>

fun fold_batch ::
  "env \<Rightarrow> event_input list \<Rightarrow> (dedup_key \<Rightarrow> instant option option)
   \<Rightarrow> (ip_addr \<times> source_state) list \<Rightarrow> (ip_addr \<times> source_state) list option" where
  "fold_batch X [] newest sources = Some sources"
| "fold_batch X (e # es) newest sources =
     (let key = (ev_source_ip e, ev_signal_type e);
          prior = Option.bind (newest key) (\<lambda>p. p);
          deduped = is_deduped prior (ev_observed_at e);
          newest' = newest(key \<mapsto> Some (case prior of
             None \<Rightarrow> ev_observed_at e | Some p \<Rightarrow> max p (ev_observed_at e)))
      in case map_of sources (ev_source_ip e) of
           None \<Rightarrow> None
         | Some st \<Rightarrow>
             fold_batch X es newest' (tab_upd (ev_source_ip e) (fold_state X e deduped st) sources))"

fun insert_events ::
  "env \<Rightarrow> event_row list \<Rightarrow> event_input list \<Rightarrow> bytes option list \<Rightarrow> bytes list
   \<Rightarrow> repo_error + event_row list" where
  "insert_events X rows (e # es) (p # ps) (h # hs) =
     (case en_refuse X e of
        Some err \<Rightarrow> Inl (Db err)
      | None \<Rightarrow>
          if enforce_chain_linkage rows p
          then insert_events X (rows @ [event_columns X (next_id rows) p h e]) es ps hs
          else Inl (Db (Database (Some ''P0001''))))"
| "insert_events X rows _ _ _ = Inr rows"

definition write_source :: "ip_addr \<Rightarrow> source_state \<Rightarrow> db \<Rightarrow> db" where
  "write_source ip st d =
     d\<lparr>db_vantage := (db_vantage d)(ip :=
          fold (\<lambda>wan. case map_of (ss_vantages st) wan of
                  Some flag \<Rightarrow> upsert_vantage wan flag | None \<Rightarrow> id)
            (ss_dirty_wans st) (db_vantage d ip)),
       db_sensor := (db_sensor d)(ip := fold insort_insert (ss_new_sensors st) (db_sensor d ip)),
       db_score := (case ss_score st of
                      Some s \<Rightarrow> upsert_score s (db_score d) | None \<Rightarrow> db_score d)\<rparr>"

definition write_sources :: "(ip_addr \<times> source_state) list \<Rightarrow> db \<Rightarrow> db" where
  "write_sources sources d = fold (\<lambda>(ip, st). write_source ip st) sources d"

definition append_atomic :: "env \<Rightarrow> db \<Rightarrow> event_input list \<Rightarrow> repo_error + db" where
  "append_atomic X d events =
     (let (prev_hashes, hashes) = chain_links (en_codec X) (chain_head (db_event d)) events;
          scored = filter (\<lambda>e. \<not> is_telemetry (ev_signal_type e)) events;
          sources = load_sources d scored;
          newest = load_dedup_priors d scored
      in case fold_batch X scored newest sources of
           None \<Rightarrow> Inl (Corrupt ''panic: every scored source was loaded'')
         | Some sources \<Rightarrow>
             (case insert_events X (db_event d) events prev_hashes hashes of
                Inl err \<Rightarrow> Inl err
              | Inr rows \<Rightarrow> Inr (write_sources sources (d\<lparr>db_event := rows\<rparr>))))"

record batch_append =
  ba_appended :: nat
  ba_failure :: "repo_error option"

text \<open>The halving loop over the validated, normalized prefix: \<open>start\<close> (\<open>done\<close>) leading events are
  committed and the next attempt covers \<open>start..stop\<close> (\<open>done..end\<close>). The slice bounds hold whenever
  the loop is entered, so the guard is the loop's own \<open>start < length events\<close>.\<close>

function append_loop ::
  "env \<Rightarrow> event_input list \<Rightarrow> nat \<Rightarrow> nat \<Rightarrow> db \<Rightarrow> (nat \<times> repo_error option) \<times> db" where
  "append_loop X events start stop d =
     (if start < length events \<and> start < stop \<and> stop \<le> length events then
        (case append_atomic X d (take (stop - start) (drop start events)) of
           Inr d' \<Rightarrow> append_loop X events stop (length events) d'
         | Inl err \<Rightarrow>
             if 1 < stop - start \<and> is_event_specific err
             then append_loop X events start (start + (stop - start) div 2) d
             else ((start, Some err), d))
      else ((start, None), d))"
  by pat_completeness auto
termination
  by (relation "measures [\<lambda>(X, events, start, stop, d). length events - start,
        \<lambda>(X, events, start, stop, d). stop - start]") auto

declare append_loop.simps [simp del]

fun first_invalid :: "event_input list \<Rightarrow> nat \<Rightarrow> (nat \<times> validation_error) option" where
  "first_invalid [] i = None"
| "first_invalid (e # es) i =
     (case validate e of Inl v \<Rightarrow> Some (i, v) | Inr _ \<Rightarrow> first_invalid es (i + 1))"

definition append_events :: "env \<Rightarrow> db \<Rightarrow> event_input list \<Rightarrow> batch_append \<times> db" where
  "append_events X d events =
     (let invalid = first_invalid events 0;
          n = (case invalid of None \<Rightarrow> length events | Some (i, _) \<Rightarrow> i);
          normalized = map normalize_event (take n events)
      in case append_loop X normalized 0 (length normalized) d of
           ((appended, Some err), d') \<Rightarrow> (\<lparr>ba_appended = appended, ba_failure = Some err\<rparr>, d')
         | ((appended, None), d') \<Rightarrow>
             (\<lparr>ba_appended = appended,
               ba_failure = map_option (\<lambda>(_, v). Invalid v) invalid\<rparr>, d'))"

section \<open>One event, one row\<close>

text \<open>The effect of one accepted (validated, normalized) event on the database.\<close>

definition ingest :: "env \<Rightarrow> event_input \<Rightarrow> db \<Rightarrow> db" where
  "ingest X e d =
     (if is_telemetry (ev_signal_type e)
      then d\<lparr>db_event := db_event d @ [appended_row X (db_event d) e]\<rparr>
      else scored_append X e d)"

text \<open>What the tables satisfy at every moment: primary keys in order, rows filed under their key.\<close>

definition tables_ok :: "db \<Rightarrow> bool" where
  "tables_ok d \<longleftrightarrow> ids_ok (db_event d)
     \<and> (\<forall>ip. tab_ok (db_vantage d ip) \<and> sorted (db_sensor d ip) \<and> distinct (db_sensor d ip)
          \<and> pred_option (\<lambda>s. sc_source_ip s = ip) (db_score d ip))"

lemma db_event_ingest: "db_event (ingest X e d) = db_event d @ [appended_row X (db_event d) e]"
  by (simp add: ingest_def scored_append_def Let_def)

lemma tab_ok_fold_vantage: "tab_ok rows \<Longrightarrow> tab_ok (fold_vantage e rows)"
  by (simp add: fold_vantage_def tab_ok_upsert_vantage split: option.split)

lemma sc_source_fold_score [simp]: "sc_source_ip (fold_score X e p vs ss s) = ev_source_ip e"
  by (simp add: fold_score_def apply_event_sel(1))

lemma tables_ok_ingest:
  assumes "tables_ok d"
  shows "tables_ok (ingest X e d)"
proof -
  have "ids_ok (db_event (ingest X e d))"
    using assms ids_ok_snoc [of "db_event d" "appended_row X (db_event d) e"]
    by (simp add: tables_ok_def db_event_ingest)
  then show ?thesis
    using assms
    by (auto simp: tables_ok_def ingest_def scored_append_def Let_def fold_score_upsert
        tab_ok_fold_vantage sorted_insort_insert distinct_insort_insert)
qed

lemma max_time_snoc:
  "max_time (ts @ [t]) = Some (case max_time ts of None \<Rightarrow> t | Some p \<Rightarrow> max p t)"
  by (cases ts) (simp_all add: max_time_def max.commute)

definition seen_at :: "event_row list \<Rightarrow> dedup_key \<Rightarrow> instant option" where
  "seen_at rows k = max_time (map er_observed_at
     (filter (\<lambda>r. er_source_ip r = fst k \<and> er_signal_type r = snd k) rows))"

lemma seen_at_snoc:
  "seen_at (rows @ [r]) k =
     (if k = (er_source_ip r, er_signal_type r)
      then Some (case seen_at rows k of None \<Rightarrow> er_observed_at r | Some p \<Rightarrow> max p (er_observed_at r))
      else seen_at rows k)"
  by (cases k) (auto simp: seen_at_def max_time_snoc)

lemma dedup_prior_seen_at:
  assumes "ids_ok rows" "er_id r = next_id rows"
  shows "dedup_prior (rows @ [r]) src st (next_id rows) = seen_at rows (src, st)"
proof -
  have "filter (\<lambda>r. er_source_ip r = src \<and> er_signal_type r = st \<and> er_id r < next_id rows) rows
      = filter (\<lambda>r. er_source_ip r = src \<and> er_signal_type r = st) rows"
    using next_id_greater [OF assms(1)] by (auto intro!: filter_cong)
  then show ?thesis using assms(2) by (simp add: dedup_prior_def seen_at_def)
qed

section \<open>The in-memory fold follows the single-event path\<close>

lemma fold_state_eq:
  "fold_state X e dd st = st\<lparr>
     ss_vantages := fold_vantage e (ss_vantages st),
     ss_sensors := insort_insert (ev_sensor e) (ss_sensors st),
     ss_dirty_wans := (case ev_wan_ip e of
         None \<Rightarrow> ss_dirty_wans st
       | Some w \<Rightarrow> if map_of (fold_vantage e (ss_vantages st)) w = map_of (ss_vantages st) w
           then ss_dirty_wans st else insort_insert w (ss_dirty_wans st)),
     ss_new_sensors := (if ev_sensor e \<in> set (ss_sensors st) then ss_new_sensors st
       else insort_insert (ev_sensor e) (ss_new_sensors st)),
     ss_score := Some (apply_event (en_arith X) (ss_score st) e HALF_LIFE_SECONDS dd
       (as_i32 (distinct_wan_count (vantage_list (fold_vantage e (ss_vantages st)))))
       (as_i32 (int (length (insort_insert (ev_sensor e) (ss_sensors st))))))\<rparr>"
proof (cases "ev_wan_ip e")
  case None
  then show ?thesis
    by (cases "ev_sensor e \<in> set (ss_sensors st)")
      (simp_all add: fold_state_def fold_vantage_def insort_insert_triv Let_def)
next
  case (Some w)
  then show ?thesis
    by (cases "ev_sensor e \<in> set (ss_sensors st)"; cases "map_of (ss_vantages st) w"; cases "auth_tcp e")
      (simp_all add: fold_state_def fold_vantage_def upsert_vantage_def insort_insert_triv map_of_tab_upd Let_def)
qed

lemma fold_state_sel:
  "ss_vantages (fold_state X e dd st) = fold_vantage e (ss_vantages st)"
  "ss_sensors (fold_state X e dd st) = insort_insert (ev_sensor e) (ss_sensors st)"
  "ss_score (fold_state X e dd st) = Some (apply_event (en_arith X) (ss_score st) e HALF_LIFE_SECONDS dd
     (as_i32 (distinct_wan_count (vantage_list (fold_vantage e (ss_vantages st)))))
     (as_i32 (int (length (insort_insert (ev_sensor e) (ss_sensors st))))))"
  by (simp_all add: fold_state_eq)

text \<open>What the marks of a batch record: every changed WAN is dirty, flags only grow, and the sensors
  are the loaded ones and the new ones.\<close>

definition marks_ok :: "db \<Rightarrow> ip_addr \<Rightarrow> source_state \<Rightarrow> bool" where
  "marks_ok d ip st \<longleftrightarrow>
     (\<forall>w. map_of (ss_vantages st) w \<noteq> map_of (db_vantage d ip) w \<longrightarrow> w \<in> set (ss_dirty_wans st))
     \<and> (\<forall>w. map_of (db_vantage d ip) w \<noteq> None \<longrightarrow> map_of (ss_vantages st) w \<noteq> None)
     \<and> (\<forall>w. map_of (db_vantage d ip) w = Some True \<longrightarrow> map_of (ss_vantages st) w = Some True)
     \<and> set (ss_sensors st) = set (db_sensor d ip) \<union> set (ss_new_sensors st)
     \<and> (\<forall>s old. ss_score st = Some s \<longrightarrow> db_score d ip = Some old \<longrightarrow> sc_delisted s = sc_delisted old)
     \<and> (db_score d ip \<noteq> None \<longrightarrow> ss_score st \<noteq> None)"

lemma dirty_fold_state:
  "set (ss_dirty_wans (fold_state X e dd st)) =
     set (ss_dirty_wans st) \<union> {w. ev_wan_ip e = Some w
       \<and> map_of (fold_vantage e (ss_vantages st)) w \<noteq> map_of (ss_vantages st) w}"
  by (cases "ev_wan_ip e") (auto simp: fold_state_eq set_insort_insert)

lemma new_sensors_fold_state:
  "set (ss_new_sensors (fold_state X e dd st)) =
     set (ss_new_sensors st) \<union> (if ev_sensor e \<in> set (ss_sensors st) then {} else {ev_sensor e})"
  by (simp add: fold_state_eq set_insort_insert)

lemma map_of_fold_vantage:
  "map_of (fold_vantage e rows) w =
     (if ev_wan_ip e = Some w
      then Some (case map_of rows w of None \<Rightarrow> auth_tcp e | Some old \<Rightarrow> old \<or> auth_tcp e)
      else map_of rows w)"
  by (cases "ev_wan_ip e") (auto simp: fold_vantage_def map_of_upsert_vantage)

lemma marks_ok_fold_state:
  assumes "marks_ok d ip st"
  shows "marks_ok d ip (fold_state X e dd st)"
proof -
  have dirty: "w \<in> set (ss_dirty_wans (fold_state X e dd st))"
    if "map_of (ss_vantages (fold_state X e dd st)) w \<noteq> map_of (db_vantage d ip) w" for w
    using that assms by (cases "ev_wan_ip e = Some w")
      (auto simp: fold_state_sel dirty_fold_state map_of_fold_vantage marks_ok_def)
  have grown: "map_of (ss_vantages (fold_state X e dd st)) w = Some True"
    if "map_of (db_vantage d ip) w = Some True" for w
    using that assms by (auto simp: fold_state_sel map_of_fold_vantage marks_ok_def)
  have known: "map_of (ss_vantages (fold_state X e dd st)) w \<noteq> None"
    if "map_of (db_vantage d ip) w \<noteq> None" for w
    using that assms by (simp add: fold_state_sel map_of_fold_vantage marks_ok_def)
  have sens: "set (ss_sensors (fold_state X e dd st)) =
      set (db_sensor d ip) \<union> set (ss_new_sensors (fold_state X e dd st))"
    using assms by (auto simp: fold_state_sel(2) new_sensors_fold_state set_insort_insert marks_ok_def)
  have delist: "sc_delisted s = sc_delisted old"
    if "ss_score (fold_state X e dd st) = Some s" "db_score d ip = Some old" for s old
    using that assms by (cases "ss_score st") (auto simp: fold_state_sel(3) apply_event_sel(13) marks_ok_def)
  show ?thesis
    unfolding marks_ok_def
    by (intro conjI allI impI) (rule sens | erule dirty | erule known | erule grown | erule (1) delist | simp add: fold_state_sel(3))+
qed

text \<open>The batch's memory after a prefix of the events stands for the database \<open>d\<close> the prefix leads to,
  starting from \<open>d0\<close>.\<close>

definition mirrors :: "db \<Rightarrow> db \<Rightarrow> (dedup_key \<Rightarrow> instant option option)
    \<Rightarrow> (ip_addr \<times> source_state) list \<Rightarrow> bool" where
  "mirrors d0 d newest sources \<longleftrightarrow> tab_ok sources
     \<and> (\<forall>ip st. map_of sources ip = Some st \<longrightarrow> marks_ok d0 ip st \<and> ss_score st = db_score d ip
          \<and> ss_vantages st = db_vantage d ip \<and> ss_sensors st = db_sensor d ip)
     \<and> (\<forall>ip. map_of sources ip = None \<longrightarrow> db_score d ip = db_score d0 ip
          \<and> db_vantage d ip = db_vantage d0 ip \<and> db_sensor d ip = db_sensor d0 ip)
     \<and> (\<forall>k p. newest k = Some p \<longrightarrow> p = seen_at (db_event d) k \<and> \<not> is_telemetry (snd k))"

lemma appended_row_key [simp]:
  "er_source_ip (appended_row X rows e) = ev_source_ip e"
  "er_signal_type (appended_row X rows e) = ev_signal_type e"
  "er_observed_at (appended_row X rows e) = ev_observed_at e"
  "er_id (appended_row X rows e) = next_id rows"
  by (simp_all add: appended_row_def event_columns_def)

lemma mirrors_telemetry:
  assumes "mirrors d0 d newest sources" "is_telemetry (ev_signal_type e)"
  shows "mirrors d0 (ingest X e d) newest sources"
  using assms by (auto simp: mirrors_def ingest_def seen_at_snoc)

lemma ingest_scored:
  assumes "ids_ok (db_event d)" "\<not> is_telemetry (ev_signal_type e)"
  defines "ip \<equiv> ev_source_ip e"
  shows "db_vantage (ingest X e d) = (db_vantage d)(ip := fold_vantage e (db_vantage d ip))"
    "db_sensor (ingest X e d) = (db_sensor d)(ip := insort_insert (ev_sensor e) (db_sensor d ip))"
    "db_score (ingest X e d) = (db_score d)(ip \<mapsto> fold_score X e
       (seen_at (db_event d) (ip, ev_signal_type e)) (fold_vantage e (db_vantage d ip))
       (insort_insert (ev_sensor e) (db_sensor d ip)) (db_score d ip))"
  using assms
  by (simp_all add: ingest_def scored_append_def Let_def dedup_prior_seen_at fold_score_upsert)

lemma mirrors_scored:
  assumes m: "mirrors d0 d newest sources" and d: "ids_ok (db_event d)"
    and e: "\<not> is_telemetry (ev_signal_type e)"
    and st: "map_of sources (ev_source_ip e) = Some st"
    and k: "newest (ev_source_ip e, ev_signal_type e) = Some p"
  shows "mirrors d0 (ingest X e d)
     (newest((ev_source_ip e, ev_signal_type e) \<mapsto> Some (case p of
        None \<Rightarrow> ev_observed_at e | Some t \<Rightarrow> max t (ev_observed_at e))))
     (tab_upd (ev_source_ip e) (fold_state X e (is_deduped p (ev_observed_at e)) st) sources)"
proof -
  have p: "p = seen_at (db_event d) (ev_source_ip e, ev_signal_type e)"
    using m k by (auto simp: mirrors_def)
  have mem: "ss_score st = db_score d (ev_source_ip e)" "ss_vantages st = db_vantage d (ev_source_ip e)"
    "ss_sensors st = db_sensor d (ev_source_ip e)" "marks_ok d0 (ev_source_ip e) st"
    using m st by (auto simp: mirrors_def)
  have "tab_ok (tab_upd (ev_source_ip e) (fold_state X e (is_deduped p (ev_observed_at e)) st) sources)"
    using m by (simp add: mirrors_def tab_ok_tab_upd)
  then show ?thesis
    using m e mem marks_ok_fold_state [OF mem(4)]
    by (auto simp: mirrors_def map_of_tab_upd ingest_scored [OF d e] fold_state_sel fold_score_def
        db_event_ingest seen_at_snoc p split: option.split)
qed

lemma fold_batch_step:
  "newest (ev_source_ip e, ev_signal_type e) = Some p \<Longrightarrow> map_of sources (ev_source_ip e) = Some st \<Longrightarrow>
   fold_batch X (e # es) newest sources = fold_batch X es
     (newest((ev_source_ip e, ev_signal_type e) \<mapsto> Some (case p of
        None \<Rightarrow> ev_observed_at e | Some t \<Rightarrow> max t (ev_observed_at e))))
     (tab_upd (ev_source_ip e) (fold_state X e (is_deduped p (ev_observed_at e)) st) sources)"
  by (simp add: Let_def)

lemma fold_batch_mirrors:
  assumes "mirrors d0 d newest sources" "tables_ok d"
    "\<And>e. e \<in> set es \<Longrightarrow> \<not> is_telemetry (ev_signal_type e)
       \<Longrightarrow> newest (ev_source_ip e, ev_signal_type e) \<noteq> None \<and> map_of sources (ev_source_ip e) \<noteq> None"
  shows "\<exists>newest' sources'.
     fold_batch X (filter (\<lambda>e. \<not> is_telemetry (ev_signal_type e)) es) newest sources = Some sources'
     \<and> mirrors d0 (fold (ingest X) es d) newest' sources'"
  using assms
proof (induction es arbitrary: d newest sources)
  case Nil
  then show ?case by auto
next
  case (Cons e es)
  have ok: "tables_ok (ingest X e d)" and ids: "ids_ok (db_event d)"
    using Cons.prems(2) tables_ok_ingest tables_ok_def by blast+
  show ?case
  proof (cases "is_telemetry (ev_signal_type e)")
    case True
    then show ?thesis
      using Cons.IH [OF mirrors_telemetry [OF Cons.prems(1) True] ok] Cons.prems(3) by simp
  next
    case False
    obtain p st where k: "newest (ev_source_ip e, ev_signal_type e) = Some p"
      "map_of sources (ev_source_ip e) = Some st"
      using Cons.prems(3) [of e] False by auto
    let ?newest = "newest((ev_source_ip e, ev_signal_type e) \<mapsto> Some (case p of
        None \<Rightarrow> ev_observed_at e | Some t \<Rightarrow> max t (ev_observed_at e)))"
    let ?sources = "tab_upd (ev_source_ip e) (fold_state X e (is_deduped p (ev_observed_at e)) st) sources"
    have "?newest (ev_source_ip x, ev_signal_type x) \<noteq> None \<and> map_of ?sources (ev_source_ip x) \<noteq> None"
      if "x \<in> set es" "\<not> is_telemetry (ev_signal_type x)" for x
      using Cons.prems(3) [of x] that by (auto simp: map_of_tab_upd)
    from Cons.IH [OF mirrors_scored [OF Cons.prems(1) ids False k(2,1)] ok this]
    show ?thesis using False by (simp add: fold_batch_step [of newest e, OF k] del: fold_batch.simps fun_upd_apply)
  qed
qed

section \<open>Writing the final state\<close>

lemma write_vantages:
  "map_of (fold (\<lambda>wan. case map_of vs wan of Some flag \<Rightarrow> upsert_vantage wan flag | None \<Rightarrow> id) ws rows) w =
     (if w \<in> set ws
      then case map_of vs w of
          None \<Rightarrow> map_of rows w
        | Some flag \<Rightarrow> Some (case map_of rows w of None \<Rightarrow> flag | Some old \<Rightarrow> old \<or> flag)
      else map_of rows w)"
  by (induction ws arbitrary: rows) (auto simp: map_of_upsert_vantage split: option.splits)

lemma tab_ok_write_vantages:
  "tab_ok rows \<Longrightarrow>
   tab_ok (fold (\<lambda>wan. case map_of vs wan of Some flag \<Rightarrow> upsert_vantage wan flag | None \<Rightarrow> id) ws rows)"
  by (induction ws arbitrary: rows) (simp_all add: tab_ok_upsert_vantage split: option.split)

lemma fold_insort_insert:
  "sorted xs \<Longrightarrow> distinct xs \<Longrightarrow>
   sorted (fold insort_insert ys xs) \<and> distinct (fold insort_insert ys xs)
   \<and> set (fold insort_insert ys xs) = set xs \<union> set ys"
  by (induction ys arbitrary: xs)
    (auto simp: sorted_insort_insert distinct_insort_insert set_insort_insert)

text \<open>Writing a loaded source's marks turns its stored rows into the mirrored ones.\<close>

lemma write_source_restores:
  assumes st: "marks_ok d0 ip st" "ss_score st = db_score d ip" "ss_vantages st = db_vantage d ip"
      "ss_sensors st = db_sensor d ip"
    and ok: "tables_ok d0" "tables_ok d"
    and same: "db_vantage d1 ip = db_vantage d0 ip" "db_sensor d1 ip = db_sensor d0 ip"
      "db_score d1 ip = db_score d0 ip"
  shows "write_source ip st d1 = d1\<lparr>db_vantage := (db_vantage d1)(ip := db_vantage d ip),
     db_sensor := (db_sensor d1)(ip := db_sensor d ip),
     db_score := (db_score d1)(ip := db_score d ip)\<rparr>"
proof -
  let ?vs = "fold (\<lambda>wan. case map_of (ss_vantages st) wan of
      Some flag \<Rightarrow> upsert_vantage wan flag | None \<Rightarrow> id) (ss_dirty_wans st) (db_vantage d0 ip)"
  have "map_of ?vs w = map_of (db_vantage d ip) w" for w
  proof (cases "w \<in> set (ss_dirty_wans st)")
    case True
    then show ?thesis
      using st(1) by (cases "map_of (db_vantage d0 ip) w"; cases "map_of (ss_vantages st) w")
        (auto simp: write_vantages marks_ok_def st(3))
  next
    case False
    then show ?thesis using st(1) unfolding marks_ok_def write_vantages st(3) by metis
  qed
  then have vs: "?vs = db_vantage d ip"
    using ok by (intro tab_eqI) (auto simp: tables_ok_def intro!: tab_ok_write_vantages)
  have ss: "fold insort_insert (ss_new_sensors st) (db_sensor d0 ip) = db_sensor d ip"
    using ok st(1,4) fold_insort_insert [of "db_sensor d0 ip" "ss_new_sensors st"]
    by (intro sorted_distinct_set_unique) (auto simp: tables_ok_def marks_ok_def)
  have sc: "(case ss_score st of Some s \<Rightarrow> upsert_score s (db_score d1) | None \<Rightarrow> db_score d1)
      = (db_score d1)(ip := db_score d ip)"
  proof (cases "ss_score st")
    case None
    then show ?thesis using st(1,2) same(3) by (auto simp: marks_ok_def)
  next
    case (Some s)
    moreover have "pred_option (\<lambda>s. sc_source_ip s = ip) (db_score d ip)"
      using ok(2) by (simp add: tables_ok_def)
    then have "sc_source_ip s = ip" using Some st(2) by simp
    moreover have "sc_delisted s = sc_delisted old" if "db_score d1 ip = Some old" for old
      using that same(3) Some st(1) by (auto simp: marks_ok_def)
    ultimately show ?thesis using upsert_score_keeps [of s ip "db_score d1"] st(2) by simp
  qed
  show ?thesis unfolding write_source_def same vs ss sc by simp
qed

lemma write_sources_restores:
  assumes m: "mirrors d0 d newest sources" and ok: "tables_ok d0" "tables_ok d"
  shows "write_sources sources (d0\<lparr>db_event := db_event d\<rparr>) = d"
proof -
  have step: "fold (\<lambda>(ip, st). write_source ip st) ps d1 =
     \<lparr>db_event = db_event d1,
      db_vantage = (\<lambda>ip. if ip \<in> fst ` set ps then db_vantage d ip else db_vantage d1 ip),
      db_sensor = (\<lambda>ip. if ip \<in> fst ` set ps then db_sensor d ip else db_sensor d1 ip),
      db_score = (\<lambda>ip. if ip \<in> fst ` set ps then db_score d ip else db_score d1 ip)\<rparr>"
    if "distinct (map fst ps)" "set ps \<subseteq> set sources"
      "\<And>ip. ip \<in> fst ` set ps \<Longrightarrow> db_vantage d1 ip = db_vantage d0 ip
         \<and> db_sensor d1 ip = db_sensor d0 ip \<and> db_score d1 ip = db_score d0 ip" for ps and d1 :: db
    using that
  proof (induction ps arbitrary: d1)
    case (Cons p ps)
    obtain ip st where p: "p = (ip, st)" by force
    then have "map_of sources ip = Some st"
      using Cons.prems(2) m tab_ok_distinct by (auto simp: mirrors_def intro!: map_of_is_SomeI)
    then have w: "write_source ip st d1 = d1\<lparr>db_vantage := (db_vantage d1)(ip := db_vantage d ip),
        db_sensor := (db_sensor d1)(ip := db_sensor d ip),
        db_score := (db_score d1)(ip := db_score d ip)\<rparr>"
      using m p Cons.prems(3) [of ip] by (intro write_source_restores [OF _ _ _ _ ok]) (auto simp: mirrors_def)
    have ip: "ip \<notin> fst ` set ps" using Cons.prems(1) p by simp
    have "db_vantage (write_source ip st d1) i = db_vantage d0 i
        \<and> db_sensor (write_source ip st d1) i = db_sensor d0 i
        \<and> db_score (write_source ip st d1) i = db_score d0 i" if "i \<in> fst ` set ps" for i
      using that ip Cons.prems(3) [of i] by (auto simp: w)
    from Cons.IH [OF _ _ this] Cons.prems(1,2) p ip
    show ?case by (auto simp: w fun_eq_iff)
  qed simp
  have "distinct (map fst sources)" using m tab_ok_distinct by (auto simp: mirrors_def)
  moreover have "ip \<notin> fst ` set sources \<longleftrightarrow> map_of sources ip = None" for ip
    by (simp add: map_of_eq_None_iff)
  ultimately show ?thesis
    using m step [of sources "d0\<lparr>db_event := db_event d\<rparr>"]
    by (intro db.equality) (auto simp: write_sources_def mirrors_def fun_eq_iff)
qed

section \<open>A batch is its events, one at a time\<close>

fun first_refusal :: "env \<Rightarrow> event_input list \<Rightarrow> sql_error option" where
  "first_refusal X [] = None"
| "first_refusal X (e # es) = (case en_refuse X e of Some err \<Rightarrow> Some err | None \<Rightarrow> first_refusal X es)"

lemma insert_events_eq:
  "insert_events X (db_event d) es (fst (chain_links (en_codec X) (chain_head (db_event d)) es))
     (snd (chain_links (en_codec X) (chain_head (db_event d)) es)) =
   (case first_refusal X es of
      Some err \<Rightarrow> Inl (Db err)
    | None \<Rightarrow> Inr (db_event (fold (ingest X) es d)))"
proof (induction es arbitrary: d)
  case (Cons e es)
  have head: "chain_head (db_event (ingest X e d)) = Some (chain_hash (en_codec X) (chain_head (db_event d)) e)"
    by (simp add: db_event_ingest chain_head_def appended_row_def event_columns_def)
  obtain ps hs where "chain_links (en_codec X) (Some (chain_hash (en_codec X) (chain_head (db_event d)) e)) es
      = (ps, hs)" by force
  then show ?case
    using Cons.IH [of "ingest X e d"] unfolding head
    by (cases "en_refuse X e"; cases "first_refusal X es") (simp_all add: Let_def db_event_ingest
        appended_row_def enforce_chain_linkage_def)
qed simp

lemma append_atomic_eq:
  assumes "tables_ok d"
  shows "append_atomic X d es =
     (case first_refusal X es of Some err \<Rightarrow> Inl (Db err) | None \<Rightarrow> Inr (fold (ingest X) es d))"
proof -
  let ?scored = "filter (\<lambda>e. \<not> is_telemetry (ev_signal_type e)) es"
  have "mirrors d d (load_dedup_priors d ?scored) (load_sources d ?scored)"
    by (auto simp: mirrors_def load_sources_def load_source_def load_dedup_priors_def seen_at_def
        marks_ok_def strict_sorted_iff comp_def map_of_map_restrict restrict_map_def split: if_splits)
  moreover have "load_dedup_priors d ?scored (ev_source_ip e, ev_signal_type e) \<noteq> None
      \<and> map_of (load_sources d ?scored) (ev_source_ip e) \<noteq> None"
    if "e \<in> set es" "\<not> is_telemetry (ev_signal_type e)" for e
    using that by (auto simp: load_dedup_priors_def load_sources_def map_of_map_restrict restrict_map_def)
  ultimately obtain newest sources where
    "fold_batch X ?scored (load_dedup_priors d ?scored) (load_sources d ?scored) = Some sources"
    "mirrors d (fold (ingest X) es d) newest sources"
    using fold_batch_mirrors [OF _ assms] by meson
  moreover have "tables_ok (fold (ingest X) es d)"
    using assms by (induction es arbitrary: d) (simp_all add: tables_ok_ingest)
  ultimately show ?thesis
    using insert_events_eq [of X d es] write_sources_restores assms
    by (auto simp: append_atomic_def Let_def split: prod.split option.split)
qed

text \<open>The reference for a batch: offer the events one after another to the single-event operations and
  stop at the first error.\<close>

definition append_one :: "env \<Rightarrow> db \<Rightarrow> event_input \<Rightarrow> repo_error option \<times> db" where
  "append_one X d e =
     (if is_telemetry (ev_signal_type e)
      then case append_telemetry_event X d e of
          (Inl err, d') \<Rightarrow> (Some err, d') | (Inr _, d') \<Rightarrow> (None, d')
      else case append_event X d e of
          (Inl err, d') \<Rightarrow> (Some err, d') | (Inr _, d') \<Rightarrow> (None, d'))"

fun append_each :: "env \<Rightarrow> db \<Rightarrow> event_input list \<Rightarrow> nat \<Rightarrow> batch_append \<times> db" where
  "append_each X d [] n = (\<lparr>ba_appended = n, ba_failure = None\<rparr>, d)"
| "append_each X d (e # es) n =
     (case append_one X d e of
        (Some err, d') \<Rightarrow> (\<lparr>ba_appended = n, ba_failure = Some err\<rparr>, d')
      | (None, d') \<Rightarrow> append_each X d' es (n + 1))"

lemma append_one_eq:
  "append_one X d e =
     (case validate e of
        Inl v \<Rightarrow> (Some (Invalid v), d)
      | Inr _ \<Rightarrow> (case en_refuse X (normalize_event e) of
            Some err \<Rightarrow> (Some (Db err), d)
          | None \<Rightarrow> (None, ingest X (normalize_event e) d)))"
proof (cases "validate e")
  case (Inr u)
  then have v: "validate e = Inr ()" by simp
  show ?thesis
  proof (cases "is_telemetry (ev_signal_type e)")
    case True
    with v show ?thesis
      by (cases "en_refuse X (normalize_event e)")
        (auto simp: append_one_def append_telemetry_rejected append_telemetry_accepted ingest_def)
  next
    case False
    with v show ?thesis
      using append_event_accepted [OF v False, of X d]
      by (cases "en_refuse X (normalize_event e)"; cases "append_event X d e")
        (auto simp: append_one_def append_event_refused ingest_def)
  qed
qed (simp add: append_one_def append_event_rejected append_telemetry_rejected)

text \<open>The same on events that are already validated and normalized.\<close>

fun ingest_each :: "env \<Rightarrow> event_input list \<Rightarrow> nat \<Rightarrow> db \<Rightarrow> (nat \<times> repo_error option) \<times> db" where
  "ingest_each X [] n d = ((n, None), d)"
| "ingest_each X (e # es) n d =
     (case en_refuse X e of
        Some err \<Rightarrow> ((n, Some (Db err)), d)
      | None \<Rightarrow> ingest_each X es (n + 1) (ingest X e d))"

lemma ingest_each_append:
  "first_refusal X es = None \<Longrightarrow>
   ingest_each X (es @ fs) n d = ingest_each X fs (n + length es) (fold (ingest X) es d)"
  by (induction es arbitrary: n d) (simp_all split: option.splits)

lemma first_refusal_member: "first_refusal X es = Some err \<Longrightarrow> \<exists>e \<in> set es. en_refuse X e = Some err"
  by (induction es) (auto split: option.splits)

lemma tables_ok_fold: "tables_ok d \<Longrightarrow> tables_ok (fold (ingest X) es d)"
  by (induction es arbitrary: d) (simp_all add: tables_ok_ingest)

text \<open>The halving loop commits exactly the prefix before the first refused event, provided a refusal
  is one the loop isolates (\<open>is_event_specific\<close>).\<close>

lemma append_loop_eq:
  assumes "\<And>e err. e \<in> set es \<Longrightarrow> en_refuse X e = Some err \<Longrightarrow> is_event_specific (Db err)"
    and "tables_ok d" "start < stop \<or> start = length es" "stop \<le> length es"
  shows "append_loop X es start stop d = ingest_each X (drop start es) start d"
  using assms
proof (induction X es start stop d rule: append_loop.induct)
  case (1 X es start stop d)
  show ?case
  proof (cases "start < length es")
    case False
    then show ?thesis using 1(5) by (subst append_loop.simps) simp
  next
    case True
    then have b: "start < length es \<and> start < stop \<and> stop \<le> length es" using 1(5,6) by simp
    let ?slice = "take (stop - start) (drop start es)"
    note atomic = append_atomic_eq [OF 1(4), of X ?slice]
    have es: "drop start es = ?slice @ drop stop es"
      using b by (metis append_take_drop_id drop_drop le_add_diff_inverse2 less_imp_le_nat)
    show ?thesis
    proof (cases "first_refusal X ?slice")
      case None
      then have "append_loop X es start stop d = append_loop X es stop (length es) (fold (ingest X) ?slice d)"
        using b atomic by (subst append_loop.simps) simp
      also have "\<dots> = ingest_each X (drop stop es) stop (fold (ingest X) ?slice d)"
        using b by (intro 1(2) [OF b _ 1(3) tables_ok_fold [OF 1(4)]]) (simp_all add: atomic None le_less)
      finally show ?thesis
        using b by (subst es) (simp add: ingest_each_append [OF None] min_absorb2 diff_le_mono)
    next
      case (Some err)
      then have s: "is_event_specific (Db err)"
        using first_refusal_member 1(3) by (meson in_set_dropD in_set_takeD)
      show ?thesis
      proof (cases "1 < stop - start")
        case True
        then have "append_loop X es start stop d = append_loop X es start (start + (stop - start) div 2) d"
          using Some s b atomic by (subst append_loop.simps) simp
        also have "\<dots> = ingest_each X (drop start es) start d"
        proof (intro 1(1) [OF b _ _ 1(3,4)])
          show "start + (stop - start) div 2 \<le> length es" using b by linarith
          show "start < start + (stop - start) div 2 \<or> start = length es" using True by simp
        qed (use atomic Some s True in simp_all)
        finally show ?thesis .
      next
        case False
        then have "stop = Suc start" using b by linarith
        then have "?slice = [es ! start]" "drop start es = es ! start # drop (Suc start) es"
          using b by (simp_all add: take_Suc_conv_app_nth Cons_nth_drop_Suc)
        then show ?thesis
          using Some False b atomic by (subst append_loop.simps) (simp split: option.splits)
      qed
    qed
  qed
qed

lemma append_each_eq:
  "append_each X d es n =
     (case ingest_each X (map normalize_event
        (take (case first_invalid es 0 of None \<Rightarrow> length es | Some (i, _) \<Rightarrow> i) es)) n d of
        ((k, Some err), d') \<Rightarrow> (\<lparr>ba_appended = k, ba_failure = Some err\<rparr>, d')
      | ((k, None), d') \<Rightarrow> (\<lparr>ba_appended = k,
          ba_failure = map_option (\<lambda>(_, v). Invalid v) (first_invalid es 0)\<rparr>, d'))"
proof (induction es arbitrary: n d)
  case (Cons e es)
  have shift: "first_invalid xs (Suc i) = map_option (\<lambda>(j, v). (Suc j, v)) (first_invalid xs i)" for xs i
    by (induction xs arbitrary: i) (simp_all split: sum.split)
  show ?case
  proof (cases "validate e")
    case (Inr u)
    then show ?thesis
      by (cases "en_refuse X (normalize_event e)"; cases "first_invalid es 0")
        (auto simp: append_one_eq Cons.IH shift)
  qed (simp add: append_one_eq)
qed simp

lemma append_events_eq:
  assumes "tables_ok d"
    "\<And>e err. en_refuse X e = Some err \<Longrightarrow> is_event_specific (Db err)"
  shows "append_events X d es = append_each X d es 0"
  using assms(2)
  by (simp add: append_events_def append_each_eq Let_def append_loop_eq [OF _ assms(1)])

lemma reachable_tables_ok: "reachable X d \<Longrightarrow> tables_ok d"
proof (induction rule: reachable.induct)
  case start
  show ?case by (simp add: tables_ok_def empty_db_def)
next
  case (step d d')
  then obtain e where "d' = snd (append_event X d e) \<or> d' = snd (append_telemetry_event X d e)"
    by (auto elim: ledger_step.cases)
  moreover have "snd (append_event X d e) = d \<or> snd (append_event X d e) = ingest X (normalize_event e) d"
    by (cases "validate e"; cases "is_telemetry (ev_signal_type e)"; cases "en_refuse X (normalize_event e)")
      (simp_all add: append_event_rejected append_event_refused append_event_accepted ingest_def)
  moreover have "snd (append_telemetry_event X d e) = d
      \<or> snd (append_telemetry_event X d e) = ingest X (normalize_event e) d"
    by (cases "validate e"; cases "is_telemetry (ev_signal_type e)"; cases "en_refuse X (normalize_event e)")
      (simp_all add: append_telemetry_rejected append_telemetry_accepted ingest_def)
  ultimately show ?case using step.IH by (elim disjE) (simp_all add: tables_ok_ingest)
qed

lemma append_each_reachable:
  assumes "reachable X d" "\<And>e. e \<in> set es \<Longrightarrow> storable X e"
  shows "reachable X (snd (append_each X d es n))"
  using assms
proof (induction es arbitrary: d n)
  case (Cons e es)
  obtain r d' where one: "append_one X d e = (r, d')" by force
  have "snd (append_one X d e) = (if is_telemetry (ev_signal_type e)
      then snd (append_telemetry_event X d e) else snd (append_event X d e))"
    by (simp add: append_one_def split: prod.split sum.split)
  then have "ledger_step X d d'"
    using Cons.prems(2) [of e] one ledger_step.intros [of X e d] by (simp split: if_splits)
  then have "reachable X d'" by (rule reachable.step [OF Cons.prems(1)])
  then show ?case using Cons.IH [of d' "n + 1"] Cons.prems(2) one by (cases r) simp_all
qed simp

end
