(* ===== verification/Tamper.thy ===== *)
theory Tamper
  imports Replay
begin

text \<open>
  Tamper evidence of the hash chain (\<open>hashing.rs\<close> and \<open>verify_chain\<close> of \<open>repository/replay.rs\<close>): what an
  intact verdict says about the recorded events, and which row the auditor names after an edit or a
  removal. SHA-256 is a parameter; the lemmas assume no collision among the byte strings that the two
  compared ledgers actually hash, and name those strings.
\<close>

section \<open>Definitions\<close>

definition chain_input :: "codec \<Rightarrow> bytes option \<Rightarrow> event_input \<Rightarrow> bytes" where
  "chain_input P prior e = (case prior of Some h \<Rightarrow> h | None \<Rightarrow> []) @ canonical_bytes P e"

fun chain_inputs :: "codec \<Rightarrow> bytes option \<Rightarrow> event_row list \<Rightarrow> bytes list" where
  "chain_inputs P prior [] = []"
| "chain_inputs P prior (r # rs) =
     chain_input P prior (reconstruct_event r) # chain_inputs P (Some (er_hash r)) rs"

definition no_collision :: "codec \<Rightarrow> bytes list \<Rightarrow> bool" where
  "no_collision P xs \<longleftrightarrow> inj_on (sha256 P) (set xs)"

definition digest_ok :: "codec \<Rightarrow> bool" where
  "digest_ok P \<longleftrightarrow> (\<forall>m. length (sha256 P m) = 32)"

definition rows_fit :: "codec \<Rightarrow> event_row list \<Rightarrow> bool" where
  "rows_fit P rows \<longleftrightarrow> (\<forall>r \<in> set rows. event_fits P (reconstruct_event r))"

abbreviation recorded :: "codec \<Rightarrow> event_row list \<Rightarrow> _" where
  "recorded P rows \<equiv> map (\<lambda>r. (hashed_fields P (reconstruct_event r), er_hash r)) rows"

lemma chain_hash_input: "chain_hash P prior e = sha256 P (chain_input P prior e)"
  by (simp add: chain_hash_def chain_input_def)

lemma chain_inputs_snoc:
  "chain_inputs P None (rs @ [r]) = chain_inputs P None rs @ [chain_input P (chain_head rs) (reconstruct_event r)]"
proof -
  have "chain_inputs P prior (rs @ [r]) = chain_inputs P prior rs @
      [chain_input P (if rs = [] then prior else chain_head rs) (reconstruct_event r)]" for prior
    by (induction rs arbitrary: prior) (auto simp: chain_head_def)
  then show ?thesis by (simp add: chain_head_def)
qed

lemma chain_head_length:
  "chain_from P None rs \<Longrightarrow> digest_ok P \<Longrightarrow> chain_head rs = Some h \<Longrightarrow> length h = 32"
  by (cases rs rule: rev_cases) (auto simp: chain_head_def chain_from_snoc digest_ok_def chain_hash_input)

lemma chain_input_inject:
  assumes "event_fits P e" "event_fits P e'" "chain_input P p e = chain_input P p' e'"
    and "p = None \<longleftrightarrow> p' = None"
    and "\<And>h. p = Some h \<Longrightarrow> length h = 32" "\<And>h. p' = Some h \<Longrightarrow> length h = 32"
  shows "p = p' \<and> hashed_fields P e = hashed_fields P e'"
proof -
  have "length (case p of Some h \<Rightarrow> h | None \<Rightarrow> []) = length (case p' of Some h \<Rightarrow> h | None \<Rightarrow> [])"
    using assms(4-6) by (cases p; cases p') auto
  then have "(case p of Some h \<Rightarrow> h | None \<Rightarrow> []) = (case p' of Some h \<Rightarrow> h | None \<Rightarrow> [])"
    and c: "canonical_bytes P e = canonical_bytes P e'"
    using assms(3) by (simp_all add: chain_input_def append_eq_append_conv)
  moreover have "hashed_fields P e = hashed_fields P e'"
    using canonical_bytes_inject [OF assms(1,2), of "[]" "[]"] c by simp
  ultimately show ?thesis using assms(4) by (cases p; cases p') auto
qed

text \<open>Two intact chains of the same length with the same head record the same events.\<close>

lemma same_head_same_record:
  assumes "length rows = length rows'" "chain_from P None rows" "chain_from P None rows'"
    and "digest_ok P" "rows_fit P rows" "rows_fit P rows'"
    and "no_collision P (chain_inputs P None rows @ chain_inputs P None rows')"
    and "chain_head rows = chain_head rows'"
  shows "recorded P rows = recorded P rows'"
  using assms
proof (induction rows arbitrary: rows' rule: rev_induct)
  case (snoc r rs)
  obtain rs' r' where rows': "rows' = rs' @ [r']" and len: "length rs = length rs'"
    using snoc.prems(1) by (cases rows' rule: rev_cases) auto
  let ?i = "chain_input P (chain_head rs) (reconstruct_event r)"
  let ?i' = "chain_input P (chain_head rs') (reconstruct_event r')"
  have h: "er_hash r = sha256 P ?i" "er_hash r' = sha256 P ?i'"
    and c: "chain_from P None rs" "chain_from P None rs'"
    using snoc.prems(2,3) unfolding rows' chain_from_snoc chain_hash_input by auto
  have same: "er_hash r = er_hash r'" using snoc.prems(8) by (simp add: rows' chain_head_def)
  have "?i = ?i'"
    using snoc.prems(7) unfolding no_collision_def rows' chain_inputs_snoc
    by (rule inj_onD) (use h same in auto)
  moreover have "chain_head rs = None \<longleftrightarrow> chain_head rs' = None"
    using len by (auto simp: chain_head_def)
  moreover have "event_fits P (reconstruct_event r)" "event_fits P (reconstruct_event r')"
    using snoc.prems(5,6) by (simp_all add: rows_fit_def rows')
  ultimately have eq: "chain_head rs = chain_head rs'
      \<and> hashed_fields P (reconstruct_event r) = hashed_fields P (reconstruct_event r')"
    by (intro chain_input_inject chain_head_length [OF c(1) snoc.prems(4)]
        chain_head_length [OF c(2) snoc.prems(4)])
  have nc: "no_collision P (chain_inputs P None rs @ chain_inputs P None rs')"
    using snoc.prems(7) unfolding no_collision_def rows' chain_inputs_snoc
    by (rule inj_on_subset) auto
  have "rows_fit P rs" "rows_fit P rs'" using snoc.prems(5,6) by (simp_all add: rows_fit_def rows')
  from snoc.IH [OF len c snoc.prems(4) this nc] eq have "recorded P rs = recorded P rs'" by simp
  then show ?case using eq same by (simp add: rows')
qed simp

text \<open>The auditor names the first row that does not extend the chain before it.\<close>

lemma verify_chain_first_broken:
  assumes "db_event d = good @ r # rest" "ids_ok (db_event d)" "chain_from P None good"
    and "\<not> chain_from P None (good @ [r])"
  shows "verify_chain P d = Broken (er_id r)"
proof -
  have "verify_page P (gs @ r # rest) prior l = Inl (er_id r)"
    if "chain_from P prior gs" "\<not> chain_from P prior (gs @ [r])" for gs prior l
    using that by (induction gs arbitrary: prior l) auto
  then show ?thesis
    using assms by (simp add: verify_chain_def verify_chain_in_batches_eq page_status_def)
qed

lemma edited_row_detected:
  assumes d: "db_event d = good @ r # rest" "ids_ok (db_event d)" "verify_chain P d = Intact"
    and r': "er_id r' = er_id r" "er_prev_hash r' = er_prev_hash r" "er_hash r' = er_hash r"
    and fits: "event_fits P (reconstruct_event r)" "event_fits P (reconstruct_event r')"
    and diff: "hashed_fields P (reconstruct_event r') \<noteq> hashed_fields P (reconstruct_event r)"
    and nc: "no_collision P [chain_input P (er_prev_hash r) (reconstruct_event r),
               chain_input P (er_prev_hash r) (reconstruct_event r')]"
  shows "verify_chain P (d\<lparr>db_event := good @ r' # rest\<rparr>) = Broken (er_id r)"
proof -
  have "chain_from P None (good @ r # rest)" using d by (simp add: verify_chain_Intact_iff)
  then have c: "chain_from P None good" "er_prev_hash r = (if good = [] then None else chain_head good)"
    "er_hash r = sha256 P (chain_input P (er_prev_hash r) (reconstruct_event r))"
    by (auto simp: chain_from_append chain_hash_input)
  have "chain_input P (er_prev_hash r) (reconstruct_event r')
      \<noteq> chain_input P (er_prev_hash r) (reconstruct_event r)"
    using canonical_bytes_inject [OF fits(2,1), of "[]" "[]"] diff by (simp add: chain_input_def)
  then have "er_hash r' \<noteq> sha256 P (chain_input P (er_prev_hash r) (reconstruct_event r'))"
    using nc c(3) r'(3) by (auto simp: no_collision_def)
  then have "\<not> chain_from P None (good @ [r'])"
    using c(2) r'(2) by (auto simp: chain_from_append chain_hash_input)
  then show ?thesis
    using verify_chain_first_broken [of "d\<lparr>db_event := good @ r' # rest\<rparr>" good r' rest P] c(1) d r'(1)
    by (auto simp: sorted_wrt_append)
qed

lemma removed_row_detected:
  assumes d: "db_event d = good @ r # next # rest" "ids_ok (db_event d)" "verify_chain P d = Intact"
    and r: "er_prev_hash r \<noteq> Some (er_hash r)"
  shows "verify_chain P (d\<lparr>db_event := good @ next # rest\<rparr>) = Broken (er_id next)"
proof -
  have "chain_from P None (good @ r # next # rest)" using d by (simp add: verify_chain_Intact_iff)
  then have "chain_from P None good" "\<not> chain_from P None (good @ [next])"
    using r by (auto simp: chain_from_append split: if_splits)
  then show ?thesis
    using verify_chain_first_broken [of "d\<lparr>db_event := good @ next # rest\<rparr>" good "next" rest P] d
    by (auto simp: sorted_wrt_append)
qed

end
