(* ===== verification/History.thy ===== *)
theory History
  imports Batch Tamper
begin

text \<open>
  The recorded events of a source in a reachable ledger, as the inputs the scoring fold receives, and
  the fact that the stored score is the run over them. The second section has a concrete environment
  and events on which the hypotheses of the properties hold.
\<close>

section \<open>A stored score is the run over the source's recorded events\<close>

fun fold_inputs :: "event_input list \<Rightarrow> event_input list \<Rightarrow> fold_input list" where
  "fold_inputs seen [] = []"
| "fold_inputs seen (e # es) =
     (e, is_deduped (replay_prior seen (ev_signal_type e)) (ev_observed_at e),
      as_i32 (distinct_wan_count (vantage_list (spec_vantages (seen @ [e])))),
      as_i32 (int (length (spec_sensors (seen @ [e]))))) # fold_inputs (seen @ [e]) es"

lemma map_fst_fold_inputs: "map fst (fold_inputs seen es) = es"
  by (induction es arbitrary: seen) simp_all

lemma fold_inputs_snoc:
  "fold_inputs seen (es @ [e]) = fold_inputs seen es @
     [(e, is_deduped (replay_prior (seen @ es) (ev_signal_type e)) (ev_observed_at e),
       as_i32 (distinct_wan_count (vantage_list (spec_vantages (seen @ es @ [e])))),
       as_i32 (int (length (spec_sensors (seen @ es @ [e])))))]"
  by (induction es arbitrary: seen) simp_all

lemma rebuild_is_run:
  "rebuild_loop X [] es None = score_run (en_arith X) HALF_LIFE_SECONDS (fold_inputs [] es)"
  by (induction es rule: rev_induct) (simp_all add: rebuild_loop_snoc fold_inputs_snoc score_run_snoc)

abbreviation history :: "db \<Rightarrow> ip_addr \<Rightarrow> fold_input list" where
  "history d ip \<equiv> fold_inputs [] (source_events d ip)"

lemma stored_is_run:
  "reachable X d \<Longrightarrow> db_score d ip = score_run (en_arith X) HALF_LIFE_SECONDS (history d ip)"
  using reachable_inv [of X d] by (simp add: ledger_inv_def views_ok_def rebuild_is_run)

lemma history_events: "fst ` set (history d ip) = set (source_events d ip)"
  using map_fst_fold_inputs [of "[]" "source_events d ip"] by (metis list.set_map)

lemma source_events_filter:
  "source_events d ip = filter (\<lambda>e. ev_source_ip e = ip \<and> \<not> is_telemetry (ev_signal_type e))
     (map reconstruct_event (db_event d))"
  by (simp add: source_events_def source_rows_def filter_map comp_def reconstruct_event_def)

text \<open>Every row of a reachable ledger reads back as an event that passes validation.\<close>

lemma reachable_rows_valid:
  "reachable X d \<Longrightarrow> r \<in> set (db_event d) \<Longrightarrow> validate (reconstruct_event r) = Inr ()"
proof (induction arbitrary: r rule: reachable.induct)
  case start
  then show ?case by (simp add: empty_db_def)
next
  case (step d d')
  obtain e where e: "storable X e" "d' = snd (append_event X d e) \<or> d' = snd (append_telemetry_event X d e)"
    using step.hyps(2) by (auto elim: ledger_step.cases)
  let ?row = "appended_row X (db_event d) (normalize_event e)"
  have "db_event d' = db_event d \<or> validate e = Inr () \<and> db_event d' = db_event d @ [?row]"
    using e(2)
    by (elim disjE; cases "validate e"; cases "is_telemetry (ev_signal_type e)";
        cases "en_refuse X (normalize_event e)")
      (simp_all add: append_event_rejected append_event_refused append_event_accepted scored_append_def
        append_telemetry_rejected append_telemetry_accepted Let_def)
  moreover have "validate (reconstruct_event ?row) = Inr ()" if "validate e = Inr ()"
    using reconstruct_appended [OF that e(1)] validate_normalize [OF that] by (simp add: validate_Inr_iff)
  ultimately show ?case using step.IH step.prems by auto
qed

lemma source_events_valid:
  "reachable X d \<Longrightarrow> e \<in> set (source_events d ip) \<Longrightarrow> validate e = Inr ()"
  using reachable_rows_valid [of X d] by (auto simp: source_events_filter)

lemma history_bounds: "reachable X d \<Longrightarrow> \<forall>x \<in> set (history d ip). event_bounds (fst x)"
  using source_events_valid [of X d] validate_event_bounds history_events [of d ip] by (metis imageI)

lemma reachable_score_ok:
  assumes "arith_ok (en_arith X)" "reachable X d" "read_stored_score d ip = Some s"
  shows "score_ok (en_arith X) s"
  using score_run_ok [OF assms(1) _ history_bounds [OF assms(2), of ip], of HALF_LIFE_SECONDS] assms(3)
  by (simp add: read_stored_score_def stored_is_run [OF assms(2)] scoring_constants)

lemma read_scoreE:
  assumes "read_score X d ip now = Some s"
  obtains stored where "read_stored_score d ip = Some stored"
    "s = project_to_now (en_arith X) stored now HALF_LIFE_SECONDS"
  using assms by (auto simp: read_score_def split: option.splits)

lemma history_sum:
  "(\<Sum>x\<leftarrow>filter (\<lambda>x. P (fst x)) (history d ip). f (fst x)) = (\<Sum>e\<leftarrow>filter P (source_events d ip). f e)"
proof -
  have "map f (filter P (map fst xs)) = map (\<lambda>x. f (fst x)) (filter (\<lambda>x. P (fst x)) xs)"
    for xs :: "fold_input list" by (simp add: filter_map comp_def)
  from this [of "history d ip"] show ?thesis by (simp add: map_fst_fold_inputs)
qed

section \<open>A concrete environment and events\<close>

text \<open>A decimal type with 28 fractional digits and a decay that halves at every full half-life.\<close>

definition sample_arith :: arith where
  "sample_arith =
     \<lparr>rnd = (\<lambda>x. of_int \<lfloor>x * 10 ^ 28\<rfloor> / 10 ^ 28), half_pow = (\<lambda>e h. (1 / 2) ^ nat (e div h))\<rparr>"

lemma sample_arith_ok: "arith_ok sample_arith"
proof -
  have "of_int \<lfloor>x * 10 ^ 28\<rfloor> / 10 ^ 28 \<le> (of_int \<lfloor>y * 10 ^ 28\<rfloor> / 10 ^ 28 :: rat)" if "x \<le> y" for x y :: rat
    using that by (intro divide_right_mono) (simp_all add: floor_mono)
  moreover have "of_int \<lfloor>of_int m / 1000 * (10 ^ 28 :: rat)\<rfloor> / 10 ^ 28 = (of_int m / 1000 :: rat)" for m
  proof -
    have "of_int m / 1000 * 10 ^ 28 = (of_int (m * 10 ^ 25) :: rat)" by simp
    then show ?thesis by (simp only: floor_of_int) simp
  qed
  moreover have "(1 / 2 :: rat) ^ nat (e' div h) \<le> (1 / 2) ^ nat (e div h)" if "e \<le> e'" "0 < h" for e e' h
    using that by (intro power_decreasing) (simp_all add: nat_mono zdiv_mono1)
  ultimately show ?thesis
    by (simp add: arith_ok_def sample_arith_def power_le_one)
qed

text \<open>A digest that keeps the last 32 bytes of its input, padded with zeros.\<close>

definition sample_codec :: codec where
  "sample_codec =
     \<lparr>decimal_text = (\<lambda>d. text_bytes (number_text 10 (nat \<bar>mantissa d\<bar>))),
      rfc3339_text = (\<lambda>t. le_bytes 8 (nat t)),
      json_text = (\<lambda>j. []),
      sha256 = (\<lambda>m. take 32 (rev m @ replicate 32 0))\<rparr>"

definition sample_env :: env where
  "sample_env = \<lparr>en_codec = sample_codec, en_arith = sample_arith,
     en_refuse = (\<lambda>e. if ev_sensor e = ''nul'' then Some (Database (Some ''22021'')) else None),
     en_jsonb = (\<lambda>j. j)\<rparr>"

definition attacker :: ip_addr where "attacker = V4 (ipv4_new 203 0 113 7)"
definition sample_wan :: ip_addr where "sample_wan = V4 (ipv4_new 198 51 100 1)"

definition sample_login :: event_input where
  "sample_login = from_signal attacker (Some sample_wan) ''ssh'' HoneypotCommandExec Tcp True
     1000000000 JNull None"

definition sample_again :: event_input where
  "sample_again = sample_login\<lparr>ev_observed_at := 121000000000\<rparr>"

definition sample_probe :: event_input where
  "sample_probe = from_signal attacker (Some sample_wan) ''catchall'' CatchallProbe Udp False
     2000000000 JNull None"

definition sample_end :: event_input where
  "sample_end = from_signal attacker (Some sample_wan) ''ssh'' HoneypotSessionEnd Tcp True
     3000000000 JNull None"

definition sample_first :: db where
  "sample_first = snd (append_event sample_env empty_db sample_login)"

definition sample_row :: event_row where
  "sample_row = appended_row sample_env [] (normalize_event sample_login)"

definition sample_db :: db where
  "sample_db = snd (append_event sample_env sample_first sample_again)"

lemma sample_storable: "storable sample_env e"
  by (simp add: storable_def sample_env_def)

lemma sample_valid:
  "validate sample_login = Inr ()" "validate sample_probe = Inr ()" "validate sample_end = Inr ()"
  by (simp_all add: sample_login_def sample_probe_def sample_end_def validate_from_signal)

lemma sample_again_valid: "validate sample_again = Inr ()"
  using sample_valid(1) by (simp add: sample_again_def validate_Inr_iff)

lemma sample_reachable: "reachable sample_env sample_db"
  unfolding sample_db_def sample_first_def
  by (intro reachable.step [OF _ ledger_step.scored] reachable.start sample_storable)

lemma sample_specific: "en_refuse sample_env e = Some err \<Longrightarrow> is_event_specific (Db err)"
  by (auto simp: sample_env_def is_event_specific_def sqlstate_def split: if_splits)

lemma sample_accepts:
  "ev_sensor e \<noteq> ''nul'' \<Longrightarrow> en_refuse sample_env (normalize_event e) = None"
  by (simp add: sample_env_def normalize_event_def)

lemma sample_first_rows: "db_event sample_first = [sample_row]"
proof -
  have "\<not> is_telemetry (ev_signal_type sample_login)" "ev_sensor sample_login \<noteq> ''nul''"
    by (simp_all add: sample_login_def is_telemetry_iff)
  then show ?thesis
    using append_event_accepted(1) [OF sample_valid(1) _ sample_accepts]
    by (simp add: sample_first_def sample_row_def scored_append_def Let_def empty_db_def)
qed

lemma sample_first_reachable: "reachable sample_env sample_first"
  unfolding sample_first_def
  by (intro reachable.step [OF _ ledger_step.scored] reachable.start sample_storable)

lemma sample_digest_ok: "digest_ok sample_codec"
  by (simp add: digest_ok_def sample_codec_def min_def)

text \<open>The timestamp's bytes stay visible in the sample digest.\<close>

lemma sample_digest_window:
  "drop 8 (take 16 (sha256 sample_codec (chain_input sample_codec p e))) = rev (le_bytes 8 (nat (ev_observed_at e)))"
  by (simp add: chain_input_def canonical_bytes_frames sample_codec_def len_prefixed_def take_append)

lemma sample_row_fits: "event_fits sample_codec (reconstruct_event sample_row)"
proof -
  have "reconstruct_event sample_row = (normalize_event sample_login)\<lparr>ev_session_id := None\<rparr>"
    unfolding sample_row_def by (rule reconstruct_appended [OF sample_valid(1) sample_storable])
  moreover have "ev_confidence (normalize_event sample_login) = dec 950 3"
    by (simp add: normalize_event_def sample_login_def rescale_def dec_def mk_weight_def)
  ultimately show ?thesis
    by (simp add: event_fits_def sample_codec_def frame_ok_def normalize_event_sel sample_login_def
        text_bytes_def number_text_def dec_def radix.simps)
qed

lemma sample_normalized:
  "normalize_event sample_login = sample_login" "normalize_event sample_again = sample_again"
  "sample_login\<lparr>ev_session_id := None\<rparr> = sample_login" "sample_again\<lparr>ev_session_id := None\<rparr> = sample_again"
  by (simp_all add: normalize_event_def sample_login_def sample_again_def from_signal_def mk_weight_def
      rescale_def dec_def)

lemma sample_db_rows: "db_event sample_db = [sample_row, appended_row sample_env [sample_row] sample_again]"
proof -
  have t: "\<not> is_telemetry (ev_signal_type sample_again)" "ev_sensor sample_again \<noteq> ''nul''"
    by (simp_all add: sample_again_def sample_login_def is_telemetry_iff)
  show ?thesis
    using append_event_accepted(1) [OF sample_again_valid t(1) sample_accepts [OF t(2)], of sample_first]
    by (simp add: sample_db_def scored_append_def Let_def sample_first_rows sample_normalized)
qed

lemma sample_source_events: "source_events sample_db attacker = [sample_login, sample_again]"
proof -
  have "reconstruct_event sample_row = sample_login"
    "reconstruct_event (appended_row sample_env [sample_row] sample_again) = sample_again"
    using reconstruct_appended [OF sample_valid(1) sample_storable, of "[]"]
      reconstruct_appended [OF sample_again_valid sample_storable, of "[sample_row]"]
    by (simp_all add: sample_row_def sample_normalized)
  then show ?thesis
    by (simp add: source_events_filter sample_db_rows sample_again_def sample_login_def is_telemetry_iff)
qed

text \<open>Two command executions two minutes apart put the sample attacker into the vendor feed.\<close>

lemma sample_rnd:
  "rnd sample_arith (numeral n) = numeral n" "rnd sample_arith 0 = 0"
  "half_pow sample_arith 120 21600 = 1" "half_pow sample_arith 9 21600 = 1"
proof -
  have "rnd sample_arith (of_int m) = of_int m" for m
  proof -
    have "of_int m * 10 ^ 28 = (of_int (m * 10 ^ 28) :: rat)" by simp
    then show ?thesis unfolding sample_arith_def arith.simps by (simp only: floor_of_int) simp
  qed
  from this [of "numeral n"] this [of 0]
  show "rnd sample_arith (numeral n) = numeral n" "rnd sample_arith 0 = 0" by simp_all
qed (simp_all add: sample_arith_def)

lemma sample_events:
  "ev_observed_at sample_login = 1000000000" "ev_observed_at sample_again = 121000000000"
  "ev_protocol sample_login = Tcp" "ev_protocol sample_again = Tcp"
  "ev_authenticated sample_login" "ev_authenticated sample_again"
  "ev_category sample_login = Honeypot" "ev_category sample_again = Honeypot"
  "decimal_from (ev_weight sample_login) = 60" "decimal_from (ev_weight sample_again) = 60"
  "dval (ev_confidence sample_login) = 95 / 100" "dval (ev_confidence sample_again) = 95 / 100"
  "\<not> is_unattributed_summary sample_login" "\<not> is_unattributed_summary sample_again"
  "represented_events sample_login = 1" "represented_events sample_again = 1"
  by (simp_all add: sample_login_def sample_again_def is_unattributed_summary_def flagged_def
      represented_events_def mk_weight_def dval_def dec_def decimal_from_def i32_max_def Let_def)

lemma sample_read:
  obtains s where "read_score sample_env sample_db attacker 130000000000 = Some s"
    "sc_recommended_for_vendor s"
proof -
  obtain w1 n1 w2 n2 where
    h: "history sample_db attacker = [(sample_login, False, w1, n1), (sample_again, False, w2, n2)]"
    by (simp add: sample_source_events replay_prior_def is_deduped_def max_time_def sample_again_def
        sample_login_def num_seconds_def nanos_per_sec_def scoring_constants)
  let ?s1 = "apply_event sample_arith None sample_login HALF_LIFE_SECONDS False w1 n1"
  let ?s2 = "apply_event sample_arith (Some ?s1) sample_again HALF_LIFE_SECONDS False w2 n2"
  have "read_score sample_env sample_db attacker 130000000000 =
      Some (project_to_now sample_arith ?s2 130000000000 HALF_LIFE_SECONDS)"
    using stored_is_run [OF sample_reachable, of attacker]
    by (simp add: read_score_def read_stored_score_def h score_run_def sample_env_def)
  moreover have "sc_raw_score ?s1 = 60" "sc_decay_anchor ?s1 = 1000000000"
      "sc_category_breakdown ?s1 = [(Honeypot, \<lparr>cs_weight = 60, cs_max_confidence = 95 / 100\<rparr>)]"
    by (simp_all add: apply_event_sel sample_events prior_raw_def prior_breakdown_def add_contribution_def
        sample_rnd scoring_constants)
  moreover from this have "sc_raw_score ?s2 = 100" "sc_decay_anchor ?s2 = 121000000000"
      "sc_category_breakdown ?s2 = [(Honeypot, \<lparr>cs_weight = 120, cs_max_confidence = 95 / 100\<rparr>)]"
    by (simp_all add: apply_event_sel sample_events prior_raw_def prior_breakdown_def add_contribution_def
        sample_rnd scoring_constants decay_def decay_breakdown_def num_seconds_def nanos_per_sec_def)
  moreover have "sc_active_days ?s1 = 1 \<and> sc_last_active_day ?s1 = 0" "sc_active_days ?s2 = 1"
    using apply_event_sel(9) [of sample_arith None sample_login HALF_LIFE_SECONDS False w1 n1]
      apply_event_sel(9) [of sample_arith "Some ?s1" sample_again HALF_LIFE_SECONDS False w2 n2]
    by (simp_all add: next_active_day_def sample_events date_naive_def nanos_per_sec_def)
  ultimately show ?thesis using that
    by (simp add: coherent_gates(1-3,5) [OF project_to_now_sel(13)] project_to_now_sel apply_event_sel
        sample_events prior_raw_def prior_breakdown_def decay_breakdown_def decay_def num_seconds_def
        nanos_per_sec_def scoring_constants sample_rnd live_def tier_def persistence_points_def
        is_confirmed_real_def i32_saturating_add_def i32_max_def i32_min_def as_u32_def)
qed

definition sample_resigned :: db where
  "sample_resigned = sample_first\<lparr>db_event := [sample_row\<lparr>er_session_id := Some 7\<rparr>]\<rparr>"

definition sample_udp :: db where
  "sample_udp = snd (append_event sample_env empty_db sample_probe)"

definition flood_summary :: event_input where
  "flood_summary = from_signal attacker None ''ssh'' HoneypotConnection Tcp False 1000000000
     (JObject [(''event_summary'', JBool True), (''suppressed_count'', JNumber (PosInt 5000))]) None"

definition sample_flood :: db where
  "sample_flood = snd (append_event sample_env empty_db flood_summary)"

lemma flood_events:
  "reachable sample_env sample_flood" "source_events sample_flood attacker = [] @ [flood_summary]"
  "\<exists>s. read_score sample_env sample_flood attacker 3000000000 = Some s"
  "represented_events flood_summary = 5000"
proof -
  show r: "reachable sample_env sample_flood"
    unfolding sample_flood_def by (intro reachable.step [OF _ ledger_step.scored] reachable.start sample_storable)
  have v: "validate flood_summary = Inr ()" by (simp add: flood_summary_def validate_from_signal)
  have n: "(normalize_event flood_summary)\<lparr>ev_session_id := None\<rparr> = flood_summary"
    by (simp add: normalize_event_def flood_summary_def from_signal_def mk_weight_def rescale_def dec_def)
  have src: "ev_source_ip flood_summary = attacker" by (simp add: flood_summary_def)
  have t: "\<not> is_telemetry (ev_signal_type flood_summary)" "ev_sensor flood_summary \<noteq> ''nul''"
    by (simp_all add: flood_summary_def is_telemetry_iff)
  have "db_event sample_flood = [appended_row sample_env [] (normalize_event flood_summary)]"
    using append_event_accepted(1) [OF v t(1) sample_accepts [OF t(2)], of empty_db]
    by (simp add: sample_flood_def scored_append_def Let_def empty_db_def)
  then show events: "source_events sample_flood attacker = [] @ [flood_summary]"
    using reconstruct_appended [OF v sample_storable, of "[]"]
    by (simp add: source_events_filter n src t)
  then show "\<exists>s. read_score sample_env sample_flood attacker 3000000000 = Some s"
    using stored_is_run [OF r, of attacker]
    by (simp add: read_score_def read_stored_score_def score_run_def)
  show "represented_events flood_summary = 5000"
    by (simp add: represented_events_def flood_summary_def flagged_def scoring_constants i32_max_def Let_def)
qed

end
