(* ===== verification/Core_Properties.thy ===== *)
theory Core_Properties
  imports History
begin

text \<open>
  The properties of \<open>crates/core-scoring\<close> as a whole: the ledger, its audit and replay, the batch
  append, and what a reader may conclude from a score. Each is stated over the definitions of the
  component theories, about ledgers that a sequence of appends can reach.
\<close>

section \<open>The ledger\<close>

text \<open>C1: The projection row that the incremental write path maintains for a source is exactly what a
  replay of the ledger from scratch computes, on every ledger that a sequence of appends can reach.\<close>

theorem replay_equals_projection:
  assumes "reachable X d"
  shows "rebuild_projection X d ip = read_stored_score d ip"
  using reachable_inv [OF assms]
  by (simp add: rebuild_projection_eq read_stored_score_def ledger_inv_def views_ok_def)

theorem replay_equals_projection_witness:
  "reachable sample_env sample_db
   \<and> rebuild_projection sample_env sample_db attacker = read_stored_score sample_db attacker"
  using replay_equals_projection [OF sample_reachable] sample_reachable by simp

text \<open>C2: Every ledger that a sequence of appends can reach passes the chain audit, whatever page size
  the audit reads it in.\<close>

theorem reachable_chain_intact:
  assumes "reachable X d"
  shows "verify_chain_in_batches (en_codec X) d batch = Intact"
proof -
  have inv: "ids_ok (db_event d)" "chain_from (en_codec X) None (db_event d)"
    using reachable_inv [OF assms] by (simp_all add: ledger_inv_def)
  then obtain x where "verify_page (en_codec X) (db_event d) None 0 = Inr x"
    using verify_page_Inr_iff by blast
  then show ?thesis using inv(1) by (simp add: verify_chain_in_batches_eq page_status_def)
qed

theorem reachable_chain_intact_witness:
  "verify_chain_in_batches sample_codec sample_db 1 = Intact"
  using reachable_chain_intact [OF sample_reachable, of 1] by (simp add: sample_env_def)

text \<open>C3: Appending a batch in one transaction, with the failing batch retried in halves, has the
  result and leaves the tables of offering its events one at a time and stopping at the first error,
  whenever a refusal of the database is one that isolating the event can help.\<close>

theorem batch_is_one_at_a_time:
  assumes "reachable X d"
    and "\<And>e err. en_refuse X e = Some err \<Longrightarrow> is_event_specific (Db err)"
  shows "append_events X d es = append_each X d es 0"
  using append_events_eq [OF reachable_tables_ok [OF assms(1)] assms(2)] .

theorem batch_is_one_at_a_time_witness:
  "append_events sample_env sample_db [sample_login, sample_login\<lparr>ev_sensor := ''nul''\<rparr>, sample_end]
   = append_each sample_env sample_db [sample_login, sample_login\<lparr>ev_sensor := ''nul''\<rparr>, sample_end] 0"
  by (rule batch_is_one_at_a_time [OF sample_reachable sample_specific])



text \<open>C6: Two ledgers that both pass the audit, have the same number of rows and the same head hash
  record the same hashed fields and hashes row by row, unless two different byte strings that they
  hash have the same SHA-256 digest.\<close>

theorem same_head_same_history:
  assumes "verify_chain P d = Intact" "verify_chain P d' = Intact"
    and "ids_ok (db_event d)" "ids_ok (db_event d')"
    and "length (db_event d) = length (db_event d')" "chain_head (db_event d) = chain_head (db_event d')"
    and "digest_ok P" "rows_fit P (db_event d)" "rows_fit P (db_event d')"
    and "no_collision P (chain_inputs P None (db_event d) @ chain_inputs P None (db_event d'))"
  shows "recorded P (db_event d) = recorded P (db_event d')"
  using assms by (intro same_head_same_record) (simp_all add: verify_chain_Intact_iff)


theorem same_head_same_history_witness:
  "recorded sample_codec (db_event sample_first) = recorded sample_codec (db_event sample_resigned)"
proof (rule same_head_same_history)
  have rows: "db_event sample_resigned = [sample_row\<lparr>er_session_id := Some 7\<rparr>]"
    by (simp add: sample_resigned_def)
  have inv: "ids_ok [sample_row]" "chain_from sample_codec None [sample_row]"
    using reachable_inv [OF sample_first_reachable]
    by (simp_all add: ledger_inv_def sample_first_rows sample_env_def)
  have ids: "ids_ok [sample_row\<lparr>er_session_id := Some 7\<rparr>]" using inv(1) by simp
  have same: "reconstruct_event (sample_row\<lparr>er_session_id := Some 7\<rparr>) = reconstruct_event sample_row"
    by (simp add: reconstruct_event_def)
  show "ids_ok (db_event sample_first)" "ids_ok (db_event sample_resigned)"
    using inv ids by (simp_all add: sample_first_rows rows)
  show "verify_chain sample_codec sample_first = Intact" "verify_chain sample_codec sample_resigned = Intact"
    using inv ids same by (simp_all add: verify_chain_Intact_iff sample_first_rows rows)
  show "length (db_event sample_first) = length (db_event sample_resigned)"
    "chain_head (db_event sample_first) = chain_head (db_event sample_resigned)"
    by (simp_all add: sample_first_rows rows chain_head_def)
  show "digest_ok sample_codec" by (rule sample_digest_ok)
  show "rows_fit sample_codec (db_event sample_first)" "rows_fit sample_codec (db_event sample_resigned)"
    using sample_row_fits same by (simp_all add: rows_fit_def sample_first_rows rows)
  show "no_collision sample_codec (chain_inputs sample_codec None (db_event sample_first) @
      chain_inputs sample_codec None (db_event sample_resigned))"
    by (simp add: no_collision_def sample_first_rows rows same)
qed

text \<open>C7: Changing any hashed field of one row of an intact ledger, its hashes left alone, makes the
  audit report exactly that row, unless the old and the new row's bytes collide under SHA-256.\<close>

theorem edit_is_reported:
  assumes "db_event d = good @ r # rest" "ids_ok (db_event d)" "verify_chain P d = Intact"
    and "er_id r' = er_id r" "er_prev_hash r' = er_prev_hash r" "er_hash r' = er_hash r"
    and "event_fits P (reconstruct_event r)" "event_fits P (reconstruct_event r')"
    and "hashed_fields P (reconstruct_event r') \<noteq> hashed_fields P (reconstruct_event r)"
    and "no_collision P [chain_input P (er_prev_hash r) (reconstruct_event r),
           chain_input P (er_prev_hash r) (reconstruct_event r')]"
  shows "verify_chain P (d\<lparr>db_event := good @ r' # rest\<rparr>) = Broken (er_id r)"
  by (rule edited_row_detected [OF assms])

theorem edit_is_reported_witness:
  "verify_chain sample_codec
     (sample_first\<lparr>db_event := [] @ sample_row\<lparr>er_observed_at := 2000000000\<rparr> # []\<rparr>) = Broken (er_id sample_row)"
proof (rule edit_is_reported)
  let ?r' = "sample_row\<lparr>er_observed_at := 2000000000\<rparr>"
  have old: "er_observed_at sample_row = 1000000000"
    by (simp add: sample_row_def sample_login_def normalize_event_def)
  have diff: "le_bytes 8 2000000000 \<noteq> le_bytes 8 1000000000" by (simp add: le_bytes_inject)
  show "db_event sample_first = [] @ sample_row # []" by (simp add: sample_first_rows)
  show "ids_ok (db_event sample_first)" "verify_chain sample_codec sample_first = Intact"
    using reachable_inv [OF sample_first_reachable]
    by (simp_all add: ledger_inv_def verify_chain_Intact_iff sample_env_def)
  show "event_fits sample_codec (reconstruct_event sample_row)" by (rule sample_row_fits)
  then show "event_fits sample_codec (reconstruct_event ?r')"
    by (simp add: event_fits_def reconstruct_event_def sample_codec_def frame_ok_def)
  show "hashed_fields sample_codec (reconstruct_event ?r') \<noteq> hashed_fields sample_codec (reconstruct_event sample_row)"
    using diff by (simp add: hashed_fields_def reconstruct_event_def sample_codec_def old)
  have "sha256 sample_codec (chain_input sample_codec p (reconstruct_event ?r'))
      \<noteq> sha256 sample_codec (chain_input sample_codec p (reconstruct_event sample_row))" for p
    using diff sample_digest_window [of p "reconstruct_event ?r'"]
      sample_digest_window [of p "reconstruct_event sample_row"]
    by (auto simp: reconstruct_event_def old)
  then show "no_collision sample_codec [chain_input sample_codec (er_prev_hash sample_row) (reconstruct_event sample_row),
      chain_input sample_codec (er_prev_hash sample_row) (reconstruct_event ?r')]"
    by (auto simp: no_collision_def inj_on_def) metis+
qed simp_all

section \<open>Scores\<close>

text \<open>C8: A source that the reader recommends to vendors has, in the ledger, an authenticated TCP honeypot
  event of its own that no overflow summary stands for, and at least two represented events.\<close>

theorem vendor_needs_contact:
  assumes "reachable X d" "read_score X d ip now = Some s" "sc_recommended_for_vendor s"
  shows "(\<exists>e \<in> set (source_events d ip). ev_protocol e = Tcp \<and> ev_authenticated e
           \<and> ev_category e = Honeypot \<and> \<not> is_unattributed_summary e)
       \<and> 2 \<le> (\<Sum>e\<leftarrow>source_events d ip. represented_events e)"
proof -
  obtain p where p: "score_run (en_arith X) HALF_LIFE_SECONDS (history d ip) = Some p"
      "s = project_to_now (en_arith X) p now HALF_LIFE_SECONDS"
    using assms(2) stored_is_run [OF assms(1)] by (auto simp: read_stored_score_def elim: read_scoreE)
  have "sc_eligible s"
    using assms(3) coherent_gates(3) [OF project_to_now_sel(13)] p(2) by blast
  then have g: "sc_has_confirmed_real p" "2 \<le> as_u32 (sc_event_count p)"
    using coherent_gates(1) [OF project_to_now_sel(13)] p(2) by (auto simp: project_to_now_sel)
  have sum: "(\<Sum>x\<leftarrow>history d ip. represented_events (fst x)) = (\<Sum>e\<leftarrow>source_events d ip. represented_events e)"
    using map_fst_fold_inputs [of "[]" "source_events d ip"] by (metis (no_types) comp_apply map_eq_conv map_map)
  have "sc_event_count p = min i32_max (\<Sum>e\<leftarrow>source_events d ip. represented_events e)"
    using score_run_counts [OF p(1)] by (simp add: sum)
  moreover have "0 \<le> sc_event_count p"
    using score_run_counts [OF p(1)] sum_represented_nonneg by (simp add: i32_max_def)
  ultimately have "2 \<le> (\<Sum>e\<leftarrow>source_events d ip. represented_events e)"
    using g(2) by (simp add: as_u32_def i32_max_def min_def split: if_splits)
  moreover have "\<exists>x \<in> set (history d ip). latches (fst x)"
    using score_run_latch [OF p(1)] g(1) by blast
  then have "\<exists>e \<in> set (source_events d ip). latches e"
    using history_events [of d ip] by (metis imageI)
  ultimately show ?thesis by (auto simp: latches_def is_confirmed_real_def)
qed

theorem vendor_needs_contact_witness:
  "\<exists>e \<in> set (source_events sample_db attacker). ev_protocol e = Tcp \<and> ev_authenticated e
     \<and> ev_category e = Honeypot \<and> \<not> is_unattributed_summary e"
  using vendor_needs_contact [OF sample_reachable] sample_read by metis

text \<open>C9: A source whose recorded events all came over protocols without a handshake is never
  recommended, for vendors or for the blocklist, however many events it has and whenever it is read.\<close>

theorem spoofable_never_listed:
  assumes "reachable X d" "\<And>e. e \<in> set (source_events d ip) \<Longrightarrow> ev_protocol e \<noteq> Tcp"
    and "read_score X d ip now = Some s"
  shows "\<not> sc_recommended_for_vendor s \<and> \<not> sc_recommended_for_blocklist s"
proof -
  obtain p where p: "score_run (en_arith X) HALF_LIFE_SECONDS (history d ip) = Some p"
      "s = project_to_now (en_arith X) p now HALF_LIFE_SECONDS"
    using assms(3) stored_is_run [OF assms(1)] by (auto simp: read_stored_score_def elim: read_scoreE)
  have udp: "ev_protocol (fst x) \<noteq> Tcp" if "x \<in> set (history d ip)" for x
    using that assms(2) history_events [of d ip] by (metis imageI)
  have "\<not> sc_has_confirmed_real p"
    using score_run_latch [OF p(1)] udp by (auto simp: latches_def is_confirmed_real_def)
  moreover have "filter (\<lambda>x. ev_protocol (fst x) = Tcp) (history d ip) = []"
    using udp by (simp add: filter_empty_conv)
  then have "sc_established_event_count p = 0"
    using score_run_counts [OF p(1)] by (simp add: i32_max_def)
  ultimately show ?thesis
    using coherent_gates(1,3,4) [OF project_to_now_sel(13)] p(2)
    by (simp add: project_to_now_sel recommended_by_volume_def as_u32_def scoring_constants)
qed

theorem spoofable_never_listed_witness:
  "\<exists>s. read_score sample_env sample_udp attacker 3000000000 = Some s
     \<and> \<not> sc_recommended_for_vendor s \<and> \<not> sc_recommended_for_blocklist s"
proof -
  have r: "reachable sample_env sample_udp"
    unfolding sample_udp_def by (intro reachable.step [OF _ ledger_step.scored] reachable.start sample_storable)
  have t: "\<not> is_telemetry (ev_signal_type sample_probe)" "ev_sensor sample_probe \<noteq> ''nul''"
    by (simp_all add: sample_probe_def is_telemetry_iff)
  have "db_event sample_udp = [appended_row sample_env [] (normalize_event sample_probe)]"
    using append_event_accepted(1) [OF sample_valid(2) t(1) sample_accepts [OF t(2)], of empty_db]
    by (simp add: sample_udp_def scored_append_def Let_def empty_db_def)
  then have events: "source_events sample_udp attacker = [(normalize_event sample_probe)\<lparr>ev_session_id := None\<rparr>]"
    using reconstruct_appended [OF sample_valid(2) sample_storable, of "[]"]
    by (simp add: source_events_filter normalize_event_sel sample_probe_def is_telemetry_iff)
  then obtain s where s: "read_score sample_env sample_udp attacker 3000000000 = Some s"
    using stored_is_run [OF r, of attacker]
    by (simp add: read_score_def read_stored_score_def score_run_def)
  then show ?thesis
    using spoofable_never_listed [OF r _ s] events by (simp add: normalize_event_sel sample_probe_def)
qed



text \<open>C11: Every score a reader gets satisfies the projection's invariant: the raw score and the
  weights are within their caps and representable, the counts and active days are consistent, and
  the derived columns (eligibility, tier, recommendations) are those of the other columns.\<close>

theorem read_score_well_formed:
  assumes "arith_ok (en_arith X)" "reachable X d" "read_score X d ip now = Some s"
  shows "score_ok (en_arith X) s"
proof -
  obtain p where "read_stored_score d ip = Some p" "s = project_to_now (en_arith X) p now HALF_LIFE_SECONDS"
    using assms(3) by (rule read_scoreE)
  then show ?thesis
    using project_to_now_ok [OF assms(1) _ reachable_score_ok [OF assms(1,2)]] by (simp add: scoring_constants)
qed

theorem read_score_well_formed_witness:
  "\<exists>s. read_score sample_env sample_db attacker 130000000000 = Some s \<and> score_ok sample_arith s"
proof -
  obtain s where s: "read_score sample_env sample_db attacker 130000000000 = Some s" using sample_read by blast
  moreover have A: "en_arith sample_env = sample_arith" by (simp add: sample_env_def)
  ultimately show ?thesis
    using read_score_well_formed [OF _ sample_reachable s] sample_arith_ok by simp
qed

text \<open>C12: Reading the same stored score later never gives a higher raw score or a higher tier.\<close>

theorem reads_only_decay:
  assumes "arith_ok (en_arith X)" "reachable X d" "t \<le> t'"
    and "read_score X d ip t = Some s" "read_score X d ip t' = Some s'"
  shows "sc_raw_score s' \<le> sc_raw_score s \<and> tier_rank (sc_tier s') \<le> tier_rank (sc_tier s)"
proof -
  obtain p where p: "read_stored_score d ip = Some p" "s = project_to_now (en_arith X) p t HALF_LIFE_SECONDS"
      "s' = project_to_now (en_arith X) p t' HALF_LIFE_SECONDS"
    using assms(4,5) by (auto simp: read_score_def split: option.splits)
  then show ?thesis
    using project_to_now_antimono [OF assms(1) _ reachable_score_ok [OF assms(1,2) p(1)] assms(3)]
    by (simp add: scoring_constants)
qed

theorem reads_only_decay_witness:
  "\<exists>s s'. read_score sample_env sample_db attacker 130000000000 = Some s
     \<and> read_score sample_env sample_db attacker 260000000000 = Some s'
     \<and> sc_raw_score s' \<le> sc_raw_score s \<and> tier_rank (sc_tier s') \<le> tier_rank (sc_tier s)"
proof -
  obtain s where s: "read_score sample_env sample_db attacker 130000000000 = Some s" using sample_read by blast
  then obtain s' where s': "read_score sample_env sample_db attacker 260000000000 = Some s'"
    by (auto simp: read_score_def split: option.splits)
  have "arith_ok (en_arith sample_env)" using sample_arith_ok by (simp add: sample_env_def)
  from reads_only_decay [OF this sample_reachable _ s s'] s s' show ?thesis by simp
qed

text \<open>C13: The stored raw score never exceeds the weight of the events that count: events repeated within
  the dedup window and overflow summaries add nothing, however often they arrive.\<close>

theorem raw_score_bounded_by_counted_events:
  assumes "arith_ok (en_arith X)" "reachable X d" "read_stored_score d ip = Some s"
  shows "sc_raw_score s \<le> counted_weight (fold_inputs [] (source_events d ip))"
  using score_run_raw_le [OF assms(1) _ history_bounds [OF assms(2), of ip], of HALF_LIFE_SECONDS s]
    assms(3) stored_is_run [OF assms(2), of ip] by (simp add: read_stored_score_def scoring_constants)

theorem raw_score_bounded_by_counted_events_witness:
  "\<exists>s. read_stored_score sample_db attacker = Some s
     \<and> sc_raw_score s \<le> counted_weight (fold_inputs [] [sample_login, sample_again])"
proof -
  have A: "arith_ok (en_arith sample_env)" using sample_arith_ok by (simp add: sample_env_def)
  obtain p where p: "read_stored_score sample_db attacker = Some p" using sample_read by (auto elim: read_scoreE)
  from raw_score_bounded_by_counted_events [OF A sample_reachable this] p show ?thesis
    by (simp add: sample_source_events del: fold_inputs.simps)
qed

text \<open>C14: The stored counters are the exact sums of the represented events, saturated at
  \<open>i32::MAX\<close>: all of the source's scored events, and those over TCP.\<close>

theorem counters_are_sums:
  assumes "reachable X d" "read_stored_score d ip = Some s"
  shows "sc_event_count s = min i32_max (\<Sum>e\<leftarrow>source_events d ip. represented_events e)
    \<and> sc_established_event_count s = min i32_max
        (\<Sum>e\<leftarrow>filter (\<lambda>e. ev_protocol e = Tcp) (source_events d ip). represented_events e)"
proof -
  have "score_run (en_arith X) HALF_LIFE_SECONDS (history d ip) = Some s"
    using assms(2) stored_is_run [OF assms(1)] by (simp add: read_stored_score_def)
  from score_run_counts [OF this]
  show ?thesis
    using history_sum [where P = "\<lambda>_. True" and f = represented_events and d = d and ip = ip]
      history_sum [where P = "\<lambda>e. ev_protocol e = Tcp" and f = represented_events and d = d and ip = ip]
    by simp
qed

theorem counters_are_sums_witness:
  "\<exists>s. read_stored_score sample_db attacker = Some s \<and> sc_event_count s = 2"
proof -
  obtain p where p: "read_stored_score sample_db attacker = Some p" using sample_read by (auto elim: read_scoreE)
  from counters_are_sums [OF sample_reachable this] p show ?thesis
    by (simp add: sample_source_events sample_events i32_max_def)
qed

text \<open>C15: When a source's events were recorded in order of observation, its active days are the
  number of distinct calendar days it was seen on.\<close>

theorem active_days_are_distinct_days:
  assumes "reachable X d" "read_stored_score d ip = Some s"
    and "sorted (map ev_observed_at (source_events d ip))"
  shows "sc_active_days s = int (card ((\<lambda>e. date_naive (ev_observed_at e)) ` set (source_events d ip)))"
proof -
  have run: "score_run (en_arith X) HALF_LIFE_SECONDS (history d ip) = Some s"
    using assms(2) stored_is_run [OF assms(1)] by (simp add: read_stored_score_def)
  have "map (\<lambda>x. ev_observed_at (fst x)) (history d ip) = map ev_observed_at (map fst (history d ip))"
    by simp
  then have "sorted (map (\<lambda>x. ev_observed_at (fst x)) (history d ip))"
    using assms(3) by (simp only: map_fst_fold_inputs)
  moreover have "(\<lambda>x. date_naive (ev_observed_at (fst x))) ` set (history d ip)
      = (\<lambda>e. date_naive (ev_observed_at e)) ` set (source_events d ip)"
    using history_events [of d ip] by (metis image_image)
  ultimately show ?thesis using score_run_active_days [OF _ run] by simp
qed

theorem active_days_are_distinct_days_witness:
  "\<exists>s. read_stored_score sample_db attacker = Some s \<and> sc_active_days s = 1"
proof -
  obtain p where p: "read_stored_score sample_db attacker = Some p" using sample_read by (auto elim: read_scoreE)
  from active_days_are_distinct_days [OF sample_reachable this] p show ?thesis
    by (simp add: sample_source_events sample_events date_naive_def nanos_per_sec_def)
qed



text \<open>C18: What the event table stores of a validated event reads back as the event, up to the
  normalization done before hashing and the session id, which is not part of the scored event.\<close>

theorem stored_row_reads_back:
  assumes "validate e = Inr ()" "storable X e"
  shows "reconstruct_event (event_columns X i prev h (normalize_event e))
    = (normalize_event e)\<lparr>ev_session_id := None\<rparr>"
  using assms by (intro reconstruct_columns)
    (simp_all add: validate_normalize normalize_event_idem storable_def normalize_event_sel)

theorem stored_row_reads_back_witness:
  "reconstruct_event (event_columns sample_env 1 None [] (normalize_event sample_probe))
    = (normalize_event sample_probe)\<lparr>ev_session_id := None\<rparr>"
  by (rule stored_row_reads_back [OF sample_valid(2) sample_storable])

text \<open>C19: The bytes that are hashed determine every hashed field: two events whose canonical
  encodings start the same byte string have the same fields, so no field can be shifted into
  another.\<close>

theorem canonical_encoding_unambiguous:
  assumes "event_fits P e" "event_fits P e'"
  shows "canonical_bytes P e @ xs = canonical_bytes P e' @ ys
    \<longleftrightarrow> hashed_fields P e = hashed_fields P e' \<and> xs = ys"
  by (rule canonical_bytes_inject [OF assms])

theorem canonical_encoding_unambiguous_witness:
  "canonical_bytes sample_codec (reconstruct_event sample_row) @ [1]
     \<noteq> canonical_bytes sample_codec (reconstruct_event sample_row) @ [2]"
  using canonical_encoding_unambiguous [OF sample_row_fits sample_row_fits, of "[1]" "[2]"] by simp

text \<open>C20: Removing a row from the middle of an intact ledger makes the audit report the row that
  followed it.\<close>

theorem removal_is_reported:
  assumes "db_event d = good @ r # next # rest" "ids_ok (db_event d)" "verify_chain P d = Intact"
    and "er_prev_hash r \<noteq> Some (er_hash r)"
  shows "verify_chain P (d\<lparr>db_event := good @ next # rest\<rparr>) = Broken (er_id next)"
  by (rule removed_row_detected [OF assms])

theorem removal_is_reported_witness:
  "verify_chain sample_codec (sample_db\<lparr>db_event :=
     [] @ appended_row sample_env [sample_row] sample_again # []\<rparr>) = Broken 2"
proof -
  have "verify_chain sample_codec sample_db = Intact" "ids_ok (db_event sample_db)"
    using reachable_inv [OF sample_reachable]
    by (simp_all add: ledger_inv_def verify_chain_Intact_iff sample_env_def)
  moreover have "er_prev_hash sample_row \<noteq> Some (er_hash sample_row)"
    by (simp add: sample_row_def appended_row_def event_columns_def chain_head_def)
  ultimately show ?thesis
    using removal_is_reported [of sample_db "[]" sample_row "appended_row sample_env [sample_row] sample_again" "[]"]
    by (simp add: sample_db_rows next_id_def sample_row_def)
qed

end
