(* ===== verification/Bytes.thy ===== *)
theory Bytes
  imports Prelude
begin

text \<open>
  Byte buffers as the wire components use them: big-endian integers, slices of a buffer, and the
  contract of an encoder and a strict decoder (\<open>wire_codec\<close>), which each protocol of the development
  interprets on its own pair of functions.
\<close>

section \<open>Big-endian integers\<close>

definition be_bytes :: "nat \<Rightarrow> nat \<Rightarrow> bytes" where
  "be_bytes n x = rev (le_bytes n x)"

definition from_be :: "bytes \<Rightarrow> nat" where
  "from_be bs = foldl (\<lambda>a b. 256 * a + unat b) 0 bs"

definition slice_of :: "nat \<Rightarrow> nat \<Rightarrow> 'a list \<Rightarrow> 'a list" where
  "slice_of a b xs = take (b - a) (drop a xs)"

lemma length_be_bytes [simp]: "length (be_bytes n x) = n"
  by (simp add: be_bytes_def)

lemma be_bytes_Suc: "be_bytes (Suc n) x = be_bytes n (x div 256) @ [word_of_nat x]"
  by (simp add: be_bytes_def le_bytes_Suc)

lemma from_be_Nil [simp]: "from_be [] = 0"
  by (simp add: from_be_def)

lemma from_be_snoc [simp]: "from_be (bs @ [b]) = 256 * from_be bs + unat b"
  by (simp add: from_be_def)

lemma unat_u8_of_nat: "unat (word_of_nat x :: u8) = x mod 256"
  by (simp add: unat_of_nat)

lemma from_be_bytes: "from_be (be_bytes n x) = x mod 256 ^ n"
proof (induction n arbitrary: x)
  case (Suc n)
  then show ?case
    by (simp add: be_bytes_Suc unat_u8_of_nat mod_mult2_eq mult.commute)
qed (simp add: be_bytes_def le_bytes_def)

lemma be_bytes_from: "be_bytes (length bs) (from_be bs) = bs"
proof (induction bs rule: rev_induct)
  case (snoc b bs)
  have "unat b < 256" using unsigned_less [of b, where ?'a = nat] by simp
  then have "(256 * from_be bs + unat b) div 256 = from_be bs"
    and "unat (word_of_nat (256 * from_be bs + unat b) :: u8) = unat b"
    by (simp_all only: unat_u8_of_nat) simp_all
  with snoc show ?case by (simp add: be_bytes_Suc word_unat_eq_iff)
qed (simp add: be_bytes_def le_bytes_def)

lemma from_be_less: "from_be bs < 256 ^ length bs"
  using from_be_bytes [of "length bs" "from_be bs"] mod_less_divisor [of "256 ^ length bs" "from_be bs"]
  by (simp add: be_bytes_from)

lemma be_bytes_from': "length bs = n \<Longrightarrow> be_bytes n (from_be bs) = bs"
  using be_bytes_from by blast

section \<open>Slices\<close>

lemma length_slice_of: "b \<le> length xs \<Longrightarrow> length (slice_of a b xs) = b - a"
  by (simp add: slice_of_def)

lemma slice_append: "a \<le> b \<Longrightarrow> b \<le> c \<Longrightarrow> slice_of a b xs @ slice_of b c xs = slice_of a c xs"
  using take_add [of "b - a" "c - b" "drop a xs"] by (simp add: slice_of_def)

lemma slice_middle: "length xs = a \<Longrightarrow> length ys = b - a \<Longrightarrow> slice_of a b (xs @ ys @ zs) = ys"
  by (simp add: slice_of_def)

lemma slice_end: "slice_of a (length xs) xs = drop a xs"
  by (simp add: slice_of_def)

lemma slice_0: "slice_of 0 b xs = take b xs"
  by (simp add: slice_of_def)

lemma set_slice_of: "set (slice_of a b xs) \<subseteq> set xs"
  by (auto simp: slice_of_def dest: in_set_takeD in_set_dropD)

section \<open>Lines\<close>

text \<open>The newline-terminated lines of a file, without their terminators; \<open>acc\<close> is the line read so far.\<close>

fun complete_lines :: "bytes \<Rightarrow> bytes \<Rightarrow> bytes list" where
  "complete_lines acc [] = []"
| "complete_lines acc (b # bs) =
     (if b = 10 then acc # complete_lines [] bs else complete_lines (acc @ [b]) bs)"

lemma complete_lines_line:
  "10 \<notin> set r \<Longrightarrow> complete_lines acc (r @ 10 # bs) = (acc @ r) # complete_lines [] bs"
  by (induction r arbitrary: acc) auto

lemma complete_lines_unterminated: "10 \<notin> set r \<Longrightarrow> complete_lines acc (r @ bs) = complete_lines (acc @ r) bs"
  by (induction r arbitrary: acc) auto

lemma complete_lines_records:
  "\<forall>r \<in> set rs. 10 \<notin> set r \<Longrightarrow>
   complete_lines [] (concat (map (\<lambda>r. r @ [10]) rs) @ bs) = rs @ complete_lines [] bs"
  by (induction rs) (simp_all add: complete_lines_line)

section \<open>Encoders and strict decoders\<close>

text \<open>A strict decoder accepts exactly the encodings of admissible values and returns the value:
  one byte string per value and one value per byte string.\<close>

locale wire_codec =
  fixes enc :: "'a \<Rightarrow> bytes"
    and dec :: "bytes \<Rightarrow> 'e + 'a"
    and ok :: "'a \<Rightarrow> bool"
  assumes dec_enc: "ok x \<Longrightarrow> dec (enc x) = Inr x"
    and enc_dec: "dec bs = Inr x \<Longrightarrow> ok x \<and> enc x = bs"
begin

lemma dec_iff: "dec bs = Inr x \<longleftrightarrow> ok x \<and> enc x = bs"
  using dec_enc enc_dec by blast

lemma enc_inject: "ok x \<Longrightarrow> ok y \<Longrightarrow> enc x = enc y \<Longrightarrow> x = y"
  using dec_enc by (metis sum.inject(2))

lemma dec_inject: "dec bs = Inr x \<Longrightarrow> dec cs = Inr x \<Longrightarrow> bs = cs"
  using enc_dec by blast

lemma dec_rejects: "(\<exists>e. dec bs = Inl e) \<longleftrightarrow> (\<nexists>x. ok x \<and> enc x = bs)"
  by (metis dec_iff obj_sumE sum.distinct(1))

end

end
