(* ===== verification/Wire.thy ===== *)
theory Wire
  imports Bytes
begin

text \<open>
  \<open>crates/collector-wire\<close>: the batch frame a collector ships (\<open>frame.rs\<close>) and the fixed-size
  acknowledgement it gets back (\<open>ack.rs\<close>). Both decoders are strict: they accept exactly what the
  encoders produce for an admissible value (\<open>frames\<close>, \<open>acks\<close>). SHA-256 is the parameter \<open>H\<close>.
\<close>

section \<open>Batch frames\<close>

definition FRAME_MAGIC :: bytes where "FRAME_MAGIC = [80, 66, 87, 49]"
definition FRAME_VERSION :: u8 where "FRAME_VERSION = 1"
definition MAX_RECORDS_PER_BATCH :: nat where "MAX_RECORDS_PER_BATCH = 1024"
definition MAX_RECORD_LEN :: nat where "MAX_RECORD_LEN = 1048576"
definition MAX_FRAME_LEN :: nat where "MAX_FRAME_LEN = 16 * 1024 * 1024"
definition HEADER_LEN :: nat where "HEADER_LEN = 4 + 1 + 8 + 32 + 4"
definition TRAILER_LEN :: nat where "TRAILER_LEN = 32"
definition ZERO_HASH :: bytes where "ZERO_HASH = replicate 32 0"

lemmas frame_constants = FRAME_MAGIC_def FRAME_VERSION_def MAX_RECORDS_PER_BATCH_def MAX_RECORD_LEN_def
  MAX_FRAME_LEN_def HEADER_LEN_def TRAILER_LEN_def

record batch =
  ba_seq :: u64
  ba_prev_batch_hash :: bytes
  ba_records :: "bytes list"
  ba_batch_hash :: bytes

datatype frame_error =
    BadMagic | BadVersion | Truncated | TooManyRecords | RecordTooLarge | EmptyBatch
  | RecordNewline | FrameTooLarge | HashMismatch

definition encode_record :: "bytes \<Rightarrow> bytes" where
  "encode_record r = be_bytes 4 (length r) @ r"

definition encode_prefix :: "batch \<Rightarrow> bytes" where
  "encode_prefix b =
     FRAME_MAGIC @ [FRAME_VERSION] @ be_bytes 8 (unat (ba_seq b)) @ ba_prev_batch_hash b
     @ be_bytes 4 (length (ba_records b)) @ concat (map encode_record (ba_records b))"

definition encode_frame :: "batch \<Rightarrow> bytes" where
  "encode_frame b = encode_prefix b @ ba_batch_hash b"

text \<open>\<open>Batch::new\<close>; \<open>None\<close> is its assertion failing. \<open>H\<close> is SHA-256 (\<open>hash_prefix\<close>).\<close>

definition batch_new :: "(bytes \<Rightarrow> bytes) \<Rightarrow> u64 \<Rightarrow> bytes \<Rightarrow> bytes list \<Rightarrow> batch option" where
  "batch_new H seq prev records =
     (if records = [] \<or> MAX_RECORDS_PER_BATCH < length records mod 2 ^ 32 then None
      else let b = \<lparr>ba_seq = seq, ba_prev_batch_hash = prev, ba_records = records,
                    ba_batch_hash = replicate 32 0\<rparr>
           in Some (b\<lparr>ba_batch_hash := H (encode_prefix b)\<rparr>))"

fun decode_records ::
  "bytes \<Rightarrow> nat \<Rightarrow> nat \<Rightarrow> bytes list \<Rightarrow> frame_error + nat \<times> bytes list" where
  "decode_records bytes 0 off records = Inr (off, records)"
| "decode_records bytes (Suc n) off records =
     (if length bytes - TRAILER_LEN < off + 4 then Inl Truncated
      else let len = from_be (slice_of off (off + 4) bytes); off = off + 4
           in if len = 0 \<or> MAX_RECORD_LEN < len then Inl RecordTooLarge
              else let stop = off + len
                   in if length bytes - TRAILER_LEN < stop then Inl Truncated
                      else let rec = slice_of off stop bytes
                           in if 10 \<in> set rec then Inl RecordNewline
                              else decode_records bytes n stop (records @ [rec]))"

definition decode_frame :: "(bytes \<Rightarrow> bytes) \<Rightarrow> bytes \<Rightarrow> frame_error + batch" where
  "decode_frame H bytes =
     (if MAX_FRAME_LEN < length bytes then Inl FrameTooLarge
      else if length bytes < HEADER_LEN then Inl Truncated
      else if slice_of 0 4 bytes \<noteq> FRAME_MAGIC then Inl BadMagic
      else if bytes ! 4 \<noteq> FRAME_VERSION then Inl BadVersion
      else
        let seq = word_of_nat (from_be (slice_of 5 13 bytes));
            prev_batch_hash = slice_of 13 45 bytes;
            record_count = from_be (slice_of 45 49 bytes)
        in if record_count = 0 then Inl EmptyBatch
           else if MAX_RECORDS_PER_BATCH < record_count then Inl TooManyRecords
           else if length bytes < HEADER_LEN + TRAILER_LEN then Inl Truncated
           else case decode_records bytes record_count HEADER_LEN [] of
                  Inl err \<Rightarrow> Inl err
                | Inr (off, records) \<Rightarrow>
                    if off \<noteq> length bytes - TRAILER_LEN then Inl Truncated
                    else let claimed = drop off bytes; computed = H (take off bytes)
                         in if computed \<noteq> claimed then Inl HashMismatch
                            else Inr \<lparr>ba_seq = seq, ba_prev_batch_hash = prev_batch_hash,
                                      ba_records = records, ba_batch_hash = claimed\<rparr>)"

section \<open>Acknowledgements\<close>

definition ACK_MAGIC :: bytes where "ACK_MAGIC = [80, 66, 65, 49]"
definition ACK_LEN :: nat where "ACK_LEN = 14"

datatype ack_status = Accepted | Duplicate | Retry | Reject

datatype ack_reason =
    NoReason | SeqGap | ReasonHashMismatch | Oversize | Malformed | BadRecordNewline
  | SpoolWriteFailed | Busy

record ack =
  ak_status :: ack_status
  ak_reason :: ack_reason
  ak_next_expected_seq :: u64

datatype ack_error = BadAck

fun status_to_u8 :: "ack_status \<Rightarrow> u8" where
  "status_to_u8 Accepted = 0"
| "status_to_u8 Duplicate = 1"
| "status_to_u8 Retry = 2"
| "status_to_u8 Reject = 3"

definition status_from_u8 :: "u8 \<Rightarrow> ack_status option" where
  "status_from_u8 b =
     (if b = 0 then Some Accepted else if b = 1 then Some Duplicate
      else if b = 2 then Some Retry else if b = 3 then Some Reject else None)"

fun reason_to_u8 :: "ack_reason \<Rightarrow> u8" where
  "reason_to_u8 NoReason = 0"
| "reason_to_u8 SeqGap = 1"
| "reason_to_u8 ReasonHashMismatch = 2"
| "reason_to_u8 Oversize = 3"
| "reason_to_u8 Malformed = 4"
| "reason_to_u8 BadRecordNewline = 5"
| "reason_to_u8 SpoolWriteFailed = 6"
| "reason_to_u8 Busy = 7"

definition reason_from_u8 :: "u8 \<Rightarrow> ack_reason option" where
  "reason_from_u8 b =
     (if b = 0 then Some NoReason else if b = 1 then Some SeqGap
      else if b = 2 then Some ReasonHashMismatch else if b = 3 then Some Oversize
      else if b = 4 then Some Malformed else if b = 5 then Some BadRecordNewline
      else if b = 6 then Some SpoolWriteFailed else if b = 7 then Some Busy else None)"

definition encode_ack :: "ack \<Rightarrow> bytes" where
  "encode_ack a =
     ACK_MAGIC @ [status_to_u8 (ak_status a), reason_to_u8 (ak_reason a)]
     @ be_bytes 8 (unat (ak_next_expected_seq a))"

definition decode_ack :: "bytes \<Rightarrow> ack_error + ack" where
  "decode_ack bytes =
     (if length bytes \<noteq> ACK_LEN \<or> slice_of 0 4 bytes \<noteq> ACK_MAGIC then Inl BadAck
      else case status_from_u8 (bytes ! 4) of
             None \<Rightarrow> Inl BadAck
           | Some status \<Rightarrow>
               (case reason_from_u8 (bytes ! 5) of
                  None \<Rightarrow> Inl BadAck
                | Some reason \<Rightarrow>
                    Inr \<lparr>ak_status = status, ak_reason = reason,
                         ak_next_expected_seq = word_of_nat (from_be (slice_of 6 14 bytes))\<rparr>))"

section \<open>The record loop\<close>

definition record_ok :: "bytes \<Rightarrow> bool" where
  "record_ok r \<longleftrightarrow> r \<noteq> [] \<and> length r \<le> MAX_RECORD_LEN \<and> 10 \<notin> set r"

lemma decode_records_step:
  assumes "from_be (slice_of off (off + 4) bytes) = k" "slice_of (off + 4) (off + 4 + k) bytes = r"
    and "record_ok r" "length r = k" "off + 4 + k \<le> length bytes - TRAILER_LEN"
  shows "decode_records bytes (Suc n) off acc = decode_records bytes n (off + 4 + k) (acc @ [r])"
  using assms by (auto simp: record_ok_def Let_def)

lemma decode_records_prefix:
  assumes "\<forall>r \<in> set rs. record_ok r" "TRAILER_LEN \<le> length suf"
  shows "decode_records (pre @ concat (map encode_record rs) @ suf) (length rs + n) (length pre) acc
    = decode_records (pre @ concat (map encode_record rs) @ suf) n
        (length pre + length (concat (map encode_record rs))) (acc @ rs)"
  using assms(1)
proof (induction rs arbitrary: pre acc)
  case (Cons r rs)
  let ?rest = "concat (map encode_record rs)"
  let ?all = "pre @ be_bytes 4 (length r) @ r @ ?rest @ suf"
  have len: "from_be (slice_of (length pre) (length pre + 4) ?all) = length r"
    using Cons.prems by (simp add: slice_middle from_be_bytes record_ok_def frame_constants)
  have rec: "slice_of (length pre + 4) (length pre + 4 + length r) ?all = r"
    using slice_middle [of "pre @ be_bytes 4 (length r)" "length pre + 4" r "length pre + 4 + length r"]
    by simp
  have "decode_records ?all (length rs + n) (length pre + 4 + length r) (acc @ [r])
      = decode_records ?all n (length pre + 4 + length r + length ?rest) ((acc @ [r]) @ rs)"
    using Cons.IH [of "pre @ be_bytes 4 (length r) @ r" "acc @ [r]"] Cons.prems by (simp add: add.assoc)
  then show ?case
    using decode_records_step [OF len rec] Cons.prems assms(2)
    by (simp add: encode_record_def [of r] add.assoc del: decode_records.simps)
qed simp

lemma decode_records_sound:
  assumes "decode_records bytes n off acc = Inr (off', recs)" "off \<le> length bytes - TRAILER_LEN"
  shows "\<exists>rs. recs = acc @ rs \<and> length rs = n \<and> (\<forall>r \<in> set rs. record_ok r) \<and> off \<le> off'
     \<and> off' \<le> length bytes - TRAILER_LEN \<and> slice_of off off' bytes = concat (map encode_record rs)"
  using assms
proof (induction bytes n off acc rule: decode_records.induct)
  case (1 bytes off records)
  then show ?case by (simp add: slice_of_def)
next
  case (2 bytes n off records)
  let ?len = "from_be (slice_of off (off + 4) bytes)"
  let ?stop = "off + 4 + ?len"
  let ?rec = "slice_of (off + 4) ?stop bytes"
  have g: "off + 4 \<le> length bytes - TRAILER_LEN" "?len \<noteq> 0" "?len \<le> MAX_RECORD_LEN"
      "?stop \<le> length bytes - TRAILER_LEN" "10 \<notin> set ?rec"
    and rest: "decode_records bytes n ?stop (records @ [?rec]) = Inr (off', recs)"
    using 2(2) by (auto simp: Let_def not_less split: if_splits)
  obtain rs where rs: "recs = (records @ [?rec]) @ rs" "length rs = n" "\<forall>r \<in> set rs. record_ok r"
      "?stop \<le> off'" "off' \<le> length bytes - TRAILER_LEN" "slice_of ?stop off' bytes = concat (map encode_record rs)"
    using 2(1) [OF _ refl refl _ refl _ refl _ rest g(4)] g by (auto simp: not_less)
  have "length (slice_of off (off + 4) bytes) = 4" "length ?rec = ?len"
    using g by (simp_all add: length_slice_of)
  then have enc: "encode_record ?rec = slice_of off ?stop bytes"
    using be_bytes_from' [of "slice_of off (off + 4) bytes" 4] slice_append [of off "off + 4" ?stop bytes]
    by (simp add: encode_record_def)
  moreover have "record_ok ?rec"
    using g \<open>length ?rec = ?len\<close> by (auto simp: record_ok_def)
  ultimately show ?case
    using rs slice_append [of off ?stop off' bytes] by (intro exI [of _ "?rec # rs"]) simp
qed

section \<open>Frames round-trip, and only encodings are accepted\<close>

definition batch_ok :: "(bytes \<Rightarrow> bytes) \<Rightarrow> batch \<Rightarrow> bool" where
  "batch_ok H b \<longleftrightarrow>
     ba_records b \<noteq> [] \<and> length (ba_records b) \<le> MAX_RECORDS_PER_BATCH
     \<and> (\<forall>r \<in> set (ba_records b). record_ok r) \<and> length (ba_prev_batch_hash b) = 32
     \<and> length (ba_batch_hash b) = TRAILER_LEN \<and> ba_batch_hash b = H (encode_prefix b)
     \<and> length (encode_frame b) \<le> MAX_FRAME_LEN"

definition frame_header :: "batch \<Rightarrow> bytes" where
  "frame_header b =
     FRAME_MAGIC @ [FRAME_VERSION] @ be_bytes 8 (unat (ba_seq b)) @ ba_prev_batch_hash b
     @ be_bytes 4 (length (ba_records b))"

lemma encode_frame_header:
  "encode_frame b = frame_header b @ concat (map encode_record (ba_records b)) @ ba_batch_hash b"
  "encode_prefix b = frame_header b @ concat (map encode_record (ba_records b))"
  by (simp_all add: encode_frame_def encode_prefix_def frame_header_def)

lemma length_frame_header: "length (ba_prev_batch_hash b) = 32 \<Longrightarrow> length (frame_header b) = HEADER_LEN"
  by (simp add: frame_header_def frame_constants)

lemma header_fields:
  assumes "length (ba_prev_batch_hash b) = 32"
  shows "slice_of 0 4 (frame_header b @ xs) = FRAME_MAGIC"
    "(frame_header b @ xs) ! 4 = FRAME_VERSION"
    "from_be (slice_of 5 13 (frame_header b @ xs)) = unat (ba_seq b)"
    "slice_of 13 45 (frame_header b @ xs) = ba_prev_batch_hash b"
    "from_be (slice_of 45 49 (frame_header b @ xs)) = length (ba_records b) mod 2 ^ 32"
proof -
  have seq: "unat (ba_seq b) mod 256 ^ 8 = unat (ba_seq b)"
    using unsigned_less [of "ba_seq b", where ?'a = nat] by simp
  note parts = frame_header_def FRAME_MAGIC_def slice_of_def
  show "slice_of 0 4 (frame_header b @ xs) = FRAME_MAGIC" "(frame_header b @ xs) ! 4 = FRAME_VERSION"
    by (simp_all add: parts nth_append)
  show "from_be (slice_of 5 13 (frame_header b @ xs)) = unat (ba_seq b)"
    using seq by (simp add: parts from_be_bytes)
  show "slice_of 13 45 (frame_header b @ xs) = ba_prev_batch_hash b"
    using assms by (simp add: parts)
  show "from_be (slice_of 45 49 (frame_header b @ xs)) = length (ba_records b) mod 2 ^ 32"
    using assms by (simp add: parts from_be_bytes)
qed

lemma decode_encode_frame:
  assumes "batch_ok H b"
  shows "decode_frame H (encode_frame b) = Inr b"
proof -
  note b = assms [unfolded batch_ok_def]
  let ?recs = "concat (map encode_record (ba_records b))"
  have wf: "(\<forall>r \<in> set (ba_records b). record_ok r) \<and> length (ba_batch_hash b) = TRAILER_LEN" using b by blast
  have count: "length (ba_records b) mod 2 ^ 32 = length (ba_records b)"
    using b by (simp add: frame_constants)
  have hdr: "length (frame_header b) = HEADER_LEN" using b by (simp add: length_frame_header)
  have recs: "decode_records (frame_header b @ ?recs @ ba_batch_hash b) (length (ba_records b)) HEADER_LEN []
      = Inr (HEADER_LEN + length ?recs, ba_records b)"
    using decode_records_prefix [of "ba_records b" "ba_batch_hash b" "frame_header b" 0 "[]"] wf hdr by simp
  have len: "length (encode_frame b) = HEADER_LEN + length ?recs + TRAILER_LEN"
    using wf hdr by (simp add: encode_frame_header)
  have hash: "H (take (HEADER_LEN + length ?recs) (frame_header b @ ?recs @ ba_batch_hash b)) = ba_batch_hash b"
    using b hdr by (simp add: encode_frame_header)
  have size: "length (encode_frame b) \<le> MAX_FRAME_LEN" "ba_records b \<noteq> []"
      "length (ba_records b) \<le> MAX_RECORDS_PER_BATCH" "length (ba_prev_batch_hash b) = 32"
    using b by blast+
  show ?thesis
    using size wf hdr len recs hash count header_fields [OF size(4), of "?recs @ ba_batch_hash b"]
    by (simp add: decode_frame_def encode_frame_header Let_def)
qed

lemma decode_frame_sound:
  assumes "decode_frame H bs = Inr b"
  shows "batch_ok H b \<and> encode_frame b = bs"
proof -
  let ?off = "length bs - TRAILER_LEN" and ?n = "from_be (slice_of 45 49 bs)"
  obtain recs where g: "length bs \<le> MAX_FRAME_LEN" "HEADER_LEN + TRAILER_LEN \<le> length bs"
      "slice_of 0 4 bs = FRAME_MAGIC" "bs ! 4 = FRAME_VERSION" "?n \<noteq> 0" "?n \<le> MAX_RECORDS_PER_BATCH"
      "decode_records bs ?n HEADER_LEN [] = Inr (?off, recs)" "H (take ?off bs) = drop ?off bs"
    and b: "b = \<lparr>ba_seq = word_of_nat (from_be (slice_of 5 13 bs)), ba_prev_batch_hash = slice_of 13 45 bs,
        ba_records = recs, ba_batch_hash = drop ?off bs\<rparr>"
    using assms by (auto simp: decode_frame_def Let_def not_less split: if_splits sum.splits)
  have rs: "length recs = ?n" "\<forall>r \<in> set recs. record_ok r"
      "slice_of HEADER_LEN ?off bs = concat (map encode_record recs)"
    using decode_records_sound [OF g(7)] g(2) by auto
  have lens: "length (slice_of 5 13 bs) = 8" "length (slice_of 13 45 bs) = 32" "length (slice_of 45 49 bs) = 4"
    using g(2) by (simp_all add: length_slice_of frame_constants)
  have "from_be (slice_of 5 13 bs) < 2 ^ 64" using from_be_less [of "slice_of 5 13 bs"] lens by simp
  then have seq: "unat (word_of_nat (from_be (slice_of 5 13 bs)) :: u64) = from_be (slice_of 5 13 bs)"
    by (simp add: unat_of_nat)
  have "slice_of 4 5 bs = [FRAME_VERSION]"
    using g(2,4) by (simp add: slice_of_def frame_constants take_Suc_conv_app_nth hd_drop_conv_nth take_Suc)
  then have hdr: "frame_header b = slice_of 0 HEADER_LEN bs"
    using g(3) be_bytes_from' [OF lens(1)] be_bytes_from' [OF lens(3)] rs(1) seq
      slice_append [of 0 4 49 bs] slice_append [of 4 5 49 bs] slice_append [of 5 13 49 bs]
      slice_append [of 13 45 49 bs]
    by (simp add: frame_header_def b HEADER_LEN_def)
  have "slice_of HEADER_LEN ?off bs @ drop ?off bs = drop HEADER_LEN bs"
    using slice_append [of HEADER_LEN ?off "length bs" bs] g(2) by (simp add: slice_end)
  moreover have sel: "ba_records b = recs" "ba_batch_hash b = drop ?off bs" by (simp_all add: b)
  ultimately have frame: "encode_frame b = bs"
    by (simp add: encode_frame_header(1) hdr slice_0 flip: rs(3))
  moreover have "encode_prefix b = take ?off bs"
    using frame by (metis encode_frame_def sel(2) append_same_eq append_take_drop_id)
  ultimately show ?thesis
    using g rs lens b by (auto simp: batch_ok_def)
qed

interpretation frames: wire_codec encode_frame "decode_frame H" "batch_ok H" for H
  by unfold_locales (simp_all add: decode_encode_frame decode_frame_sound)

lemma encode_frame_length:
  "length (encode_frame b) = 17 + length (ba_prev_batch_hash b) + (\<Sum>r\<leftarrow>ba_records b. 4 + length r)
     + length (ba_batch_hash b)"
proof -
  have "length (concat (map encode_record rs)) = (\<Sum>r\<leftarrow>rs. 4 + length r)" for rs
    by (induction rs) (simp_all add: encode_record_def)
  then show ?thesis by (simp add: encode_frame_def encode_prefix_def frame_constants)
qed

lemma batch_new_ok:
  assumes "batch_new H seq prev records = Some b" "length prev = 32" "\<And>m. length (H m) = 32"
    and "length records \<le> MAX_RECORDS_PER_BATCH" "\<forall>r \<in> set records. record_ok r"
    and "81 + (\<Sum>r\<leftarrow>records. 4 + length r) \<le> MAX_FRAME_LEN"
  shows "batch_ok H b \<and> ba_seq b = seq \<and> ba_prev_batch_hash b = prev \<and> ba_records b = records"
proof -
  let ?b = "\<lparr>ba_seq = seq, ba_prev_batch_hash = prev, ba_records = records, ba_batch_hash = replicate 32 0\<rparr>"
  have b: "b = ?b\<lparr>ba_batch_hash := H (encode_prefix ?b)\<rparr>" and ne: "records \<noteq> []"
    using assms(1) by (auto simp: batch_new_def Let_def split: if_splits)
  have "encode_prefix b = encode_prefix ?b" by (simp add: b encode_prefix_def)
  then show ?thesis
    using assms ne by (simp add: batch_ok_def b encode_frame_length TRAILER_LEN_def)
qed

text \<open>A batch that carries an empty record encodes, and is refused by the decoder.\<close>

lemma empty_record_refused:
  assumes "ba_records b = good @ [] # rest" "\<forall>r \<in> set good. record_ok r"
    and "length (ba_records b) \<le> MAX_RECORDS_PER_BATCH" "length (ba_prev_batch_hash b) = 32"
    and "length (ba_batch_hash b) = 32" "length (encode_frame b) \<le> MAX_FRAME_LEN"
  shows "decode_frame H (encode_frame b) = Inl RecordTooLarge"
proof -
  let ?pre = "concat (map encode_record good)"
  let ?suf = "encode_record [] @ concat (map encode_record rest) @ ba_batch_hash b"
  have enc: "encode_frame b = frame_header b @ ?pre @ ?suf" using assms(1) by (simp add: encode_frame_header)
  have hdr: "length (frame_header b) = HEADER_LEN" using assms(4) by (rule length_frame_header)
  have "slice_of (HEADER_LEN + length ?pre) (HEADER_LEN + length ?pre + 4) (encode_frame b) = be_bytes 4 0"
    using slice_middle [of "frame_header b @ ?pre" _ "be_bytes 4 0"] hdr by (simp add: enc encode_record_def)
  then have zero: "decode_records (encode_frame b) (Suc (length rest)) (HEADER_LEN + length ?pre) good
      = Inl RecordTooLarge"
    using assms(5) hdr by (simp add: from_be_bytes Let_def enc TRAILER_LEN_def encode_record_def)
  have "decode_records (encode_frame b) (length good + Suc (length rest)) HEADER_LEN [] = Inl RecordTooLarge"
    using decode_records_prefix [OF assms(2), of ?suf "frame_header b" "Suc (length rest)" "[]"] assms(5) hdr
      zero by (simp add: enc TRAILER_LEN_def del: decode_records.simps)
  moreover have "length (ba_records b) mod 2 ^ 32 = length good + Suc (length rest)"
    using assms(1,3) by (simp add: frame_constants)
  ultimately show ?thesis
    using assms(3-6) hdr header_fields [OF assms(4), of "?pre @ ?suf"] assms(1)
    by (simp add: decode_frame_def enc Let_def TRAILER_LEN_def del: decode_records.simps)
qed

section \<open>Acknowledgements round-trip\<close>

lemma status_u8: "status_from_u8 b = Some s \<longleftrightarrow> b = status_to_u8 s"
  by (cases s) (auto simp: status_from_u8_def)

lemma reason_u8: "reason_from_u8 b = Some r \<longleftrightarrow> b = reason_to_u8 r"
  by (cases r) (auto simp: reason_from_u8_def)

interpretation acks: wire_codec encode_ack decode_ack "\<lambda>_. True"
proof
  fix a :: ack
  have "unat (ak_next_expected_seq a) mod 256 ^ 8 = unat (ak_next_expected_seq a)"
    using unsigned_less [of "ak_next_expected_seq a", where ?'a = nat] by simp
  then show "decode_ack (encode_ack a) = Inr a"
    by (cases a) (simp add: decode_ack_def encode_ack_def ACK_LEN_def ACK_MAGIC_def slice_of_def
        from_be_bytes iffD2 [OF status_u8 refl] iffD2 [OF reason_u8 refl])
next
  fix bs a
  assume d: "decode_ack bs = Inr a"
  then have len: "length bs = 14" and magic: "slice_of 0 4 bs = ACK_MAGIC"
    and a: "bs ! 4 = status_to_u8 (ak_status a)" "bs ! 5 = reason_to_u8 (ak_reason a)"
      "ak_next_expected_seq a = word_of_nat (from_be (slice_of 6 14 bs))"
    by (auto simp: decode_ack_def ACK_LEN_def status_u8 reason_u8 split: if_splits option.splits)
  have l8: "length (slice_of 6 14 bs) = 8" using len by (simp add: length_slice_of)
  then have "unat (ak_next_expected_seq a) = from_be (slice_of 6 14 bs)"
    using from_be_less [of "slice_of 6 14 bs"] a(3) by (simp add: unat_of_nat)
  moreover have "slice_of 4 6 bs = [bs ! 4, bs ! 5]"
    using len by (simp add: slice_of_def numeral_2_eq_2 take_Suc_conv_app_nth)
  ultimately show "True \<and> encode_ack a = bs"
    using be_bytes_from' [OF l8] magic a slice_append [of 0 4 14 bs] slice_append [of 4 6 14 bs]
      slice_end [of 0 bs] len
    by (simp add: encode_ack_def)
qed

end
