(* ===== verification/Gateway.thy ===== *)
theory Gateway
  imports Wire "HOL-Library.Sublist"
begin

text \<open>
  \<open>crates/gateway\<close>: the per-collector verification state machine (\<open>verify.rs\<close>, \<open>state.rs\<close>), the spool
  it appends accepted records to (\<open>spool.rs\<close>) and the frame loop of a connection (\<open>server.rs\<close>). The
  file system enters as the outcome of each write; a TLS peer is the collector id of its certificate
  and the bytes it sends. Sequence numbers are 64-bit words.
\<close>

section \<open>Definitions\<close>

text \<open>A Rust \<open>str\<close> as its Unicode scalar values.\<close>

type_synonym rust_str = "nat list"

definition is_control :: "nat \<Rightarrow> bool" where
  "is_control c \<longleftrightarrow> c < 32 \<or> 127 \<le> c \<and> c < 160"

definition is_safe_path_component :: "rust_str \<Rightarrow> bool" where
  "is_safe_path_component cid \<longleftrightarrow>
     cid \<noteq> [] \<and> cid \<noteq> [46] \<and> cid \<noteq> [46, 46] \<and> 47 \<notin> set cid \<and> 92 \<notin> set cid
     \<and> \<not> list_ex is_control cid"

record collector_state =
  co_last_seq :: u64
  co_last_batch_hash :: bytes

definition fresh :: collector_state where
  "fresh = \<lparr>co_last_seq = 0, co_last_batch_hash = ZERO_HASH\<rparr>"

text \<open>A state file as \<open>load\<close> sees it: absent, unreadable, not JSON of a state, or the state.\<close>

datatype state_file = Missing | Unreadable | Corrupt | Stored collector_state

text \<open>How a write goes. Storing a state can fail before the rename (the old file stays) or after it
  (the directory could not be synced). Appending to a spool can fail after any number of bytes.\<close>

datatype store_io = StoreOk | StoreFailsBefore | StoreFailsAfter

datatype spool_io = SpoolOk | SpoolFailsAfter nat

record accept_io =
  io_spool :: spool_io
  io_store :: store_io

definition load_state :: "(rust_str \<Rightarrow> state_file) \<Rightarrow> rust_str \<Rightarrow> unit + collector_state option" where
  "load_state disk cid =
     (if \<not> is_safe_path_component cid then Inl ()
      else case disk cid of
             Missing \<Rightarrow> Inr None
           | Unreadable \<Rightarrow> Inl ()
           | Corrupt \<Rightarrow> Inr None
           | Stored s \<Rightarrow> Inr (Some s))"

definition store_state ::
  "store_io \<Rightarrow> collector_state \<Rightarrow> (rust_str \<Rightarrow> state_file) \<Rightarrow> rust_str
   \<Rightarrow> bool \<times> (rust_str \<Rightarrow> state_file)" where
  "store_state io s disk cid =
     (if \<not> is_safe_path_component cid then (False, disk)
      else case io of
             StoreOk \<Rightarrow> (True, disk(cid := Stored s))
           | StoreFailsBefore \<Rightarrow> (False, disk)
           | StoreFailsAfter \<Rightarrow> (False, disk(cid := Stored s)))"

definition payload :: "bytes list \<Rightarrow> bytes" where
  "payload records = concat (map (\<lambda>r. r @ [10]) records)"

definition write_records ::
  "spool_io \<Rightarrow> bytes list \<Rightarrow> (rust_str \<Rightarrow> bytes) \<Rightarrow> rust_str \<Rightarrow> bool \<times> (rust_str \<Rightarrow> bytes)" where
  "write_records io records spool cid =
     (if \<not> is_safe_path_component cid then (False, spool)
      else case io of
             SpoolOk \<Rightarrow> (True, spool(cid := spool cid @ payload records))
           | SpoolFailsAfter n \<Rightarrow> (False, spool(cid := spool cid @ take n (payload records))))"

record gateway =
  gw_states :: "rust_str \<Rightarrow> collector_state option"
  gw_disk :: "rust_str \<Rightarrow> state_file"
  gw_spool :: "rust_str \<Rightarrow> bytes"

definition mk_ack :: "ack_status \<Rightarrow> ack_reason \<Rightarrow> u64 \<Rightarrow> ack" where
  "mk_ack s r n = \<lparr>ak_status = s, ak_reason = r, ak_next_expected_seq = n\<rparr>"

definition loaded_state :: "(rust_str \<Rightarrow> state_file) \<Rightarrow> rust_str \<Rightarrow> collector_state" where
  "loaded_state disk cid = (case load_state disk cid of Inr (Some s) \<Rightarrow> s | _ \<Rightarrow> fresh)"

definition current_state :: "gateway \<Rightarrow> rust_str \<Rightarrow> collector_state" where
  "current_state g cid =
     (case gw_states g cid of Some s \<Rightarrow> s | None \<Rightarrow> loaded_state (gw_disk g) cid)"

definition accept :: "accept_io \<Rightarrow> rust_str \<Rightarrow> batch \<Rightarrow> gateway \<Rightarrow> ack \<times> gateway" where
  "accept io cid b g =
     (let current = current_state g cid;
          g = g\<lparr>gw_states := (gw_states g)(cid \<mapsto> current)\<rparr>;
          expected = co_last_seq current + 1
      in if ba_seq b \<le> co_last_seq current then (mk_ack Duplicate NoReason expected, g)
         else if ba_seq b \<noteq> expected then (mk_ack Reject SeqGap expected, g)
         else if ba_prev_batch_hash b \<noteq> co_last_batch_hash current
         then (mk_ack Reject ReasonHashMismatch expected, g)
         else case write_records (io_spool io) (ba_records b) (gw_spool g) cid of
                (False, spool) \<Rightarrow> (mk_ack Retry SpoolWriteFailed expected, g\<lparr>gw_spool := spool\<rparr>)
              | (True, spool) \<Rightarrow>
                  (let new_state = \<lparr>co_last_seq = ba_seq b, co_last_batch_hash = ba_batch_hash b\<rparr>;
                       g = g\<lparr>gw_spool := spool\<rparr>
                   in case store_state (io_store io) new_state (gw_disk g) cid of
                        (False, disk) \<Rightarrow> (mk_ack Retry SpoolWriteFailed expected, g\<lparr>gw_disk := disk\<rparr>)
                      | (True, disk) \<Rightarrow>
                          (mk_ack Accepted NoReason (ba_seq b + 1),
                           g\<lparr>gw_disk := disk, gw_states := (gw_states g)(cid \<mapsto> new_state)\<rparr>)))"

fun decode_reject_reason :: "frame_error \<Rightarrow> ack_reason" where
  "decode_reject_reason FrameTooLarge = Oversize"
| "decode_reject_reason RecordTooLarge = Oversize"
| "decode_reject_reason HashMismatch = ReasonHashMismatch"
| "decode_reject_reason RecordNewline = BadRecordNewline"
| "decode_reject_reason BadMagic = Malformed"
| "decode_reject_reason BadVersion = Malformed"
| "decode_reject_reason Truncated = Malformed"
| "decode_reject_reason TooManyRecords = Malformed"
| "decode_reject_reason EmptyBatch = Malformed"

text \<open>One frame: the acknowledgement, whether decoding failed, and the new state.\<close>

definition handle_frame ::
  "(bytes \<Rightarrow> bytes) \<Rightarrow> accept_io \<Rightarrow> rust_str \<Rightarrow> bytes \<Rightarrow> gateway \<Rightarrow> ack \<times> bool \<times> gateway" where
  "handle_frame H io cid frame_bytes g =
     (case decode_frame H frame_bytes of
        Inr b \<Rightarrow> (let (a, g) = accept io cid b g in (a, False, g))
      | Inl err \<Rightarrow> (mk_ack Reject (decode_reject_reason err) 0, True, g))"

text \<open>The read loop of a connection over the bytes the peer sends: \<open>ios\<close> says how the writes for each
  frame go and whether the acknowledgement reaches the peer. The acknowledgements that were written,
  in order, and the final state.\<close>

function handle_connection ::
  "(bytes \<Rightarrow> bytes) \<Rightarrow> (nat \<Rightarrow> accept_io \<times> bool) \<Rightarrow> nat \<Rightarrow> rust_str \<Rightarrow> bytes \<Rightarrow> gateway
   \<Rightarrow> ack list \<times> gateway" where
  "handle_connection H ios k cid bs g =
     (if length bs < 4 then ([], g)
      else let frame_len = from_be (take 4 bs); bs = drop 4 bs
           in if MAX_FRAME_LEN < frame_len \<or> length bs < frame_len then ([], g)
              else let (a, decode_failed, g) = handle_frame H (fst (ios k)) cid (take frame_len bs) g
                   in if \<not> snd (ios k) then ([], g)
                      else if decode_failed then ([a], g)
                      else let (acks, g) = handle_connection H ios (k + 1) cid (drop frame_len bs) g
                           in (a # acks, g))"
  by pat_completeness auto
termination
  by (relation "measure (\<lambda>(H, ios, k, cid, bs, g). length bs)") auto

declare handle_connection.simps [simp del]

section \<open>One offer\<close>

definition state_after :: "batch \<Rightarrow> collector_state" where
  "state_after b = \<lparr>co_last_seq = ba_seq b, co_last_batch_hash = ba_batch_hash b\<rparr>"

definition extends :: "collector_state \<Rightarrow> batch \<Rightarrow> bool" where
  "extends s b \<longleftrightarrow> co_last_seq s < ba_seq b \<and> ba_seq b = co_last_seq s + 1
     \<and> ba_prev_batch_hash b = co_last_batch_hash s"

lemma loaded_state_Stored:
  "is_safe_path_component cid \<Longrightarrow> loaded_state (disk(cid := Stored s)) = (loaded_state disk)(cid := s)"
  by (rule ext) (simp add: loaded_state_def load_state_def)

lemma current_state_cong:
  "gw_states g' cid = gw_states g cid \<Longrightarrow> gw_states g cid \<noteq> None \<or> gw_disk g' cid = gw_disk g cid
   \<Longrightarrow> current_state g' cid = current_state g cid"
  by (auto simp: current_state_def loaded_state_def load_state_def split: option.split)

lemma current_state_cached: "gw_states g cid = Some s \<Longrightarrow> current_state g cid = s"
  by (simp add: current_state_def)

lemma write_records_True:
  "write_records io rs spool cid = (True, spool') \<Longrightarrow>
   io = SpoolOk \<and> is_safe_path_component cid \<and> spool' = spool(cid := spool cid @ payload rs)"
  by (auto simp: write_records_def split: if_splits spool_io.splits)

lemma write_records_False:
  assumes "write_records io rs spool cid = (False, spool')"
  shows "\<exists>n. spool' = spool(cid := spool cid @ take n (payload rs))
    \<and> (io \<noteq> SpoolOk \<or> \<not> is_safe_path_component cid)"
proof (cases "is_safe_path_component cid")
  case True
  then show ?thesis using assms by (auto simp: write_records_def split: spool_io.splits)
next
  case False
  then show ?thesis using assms by (intro exI [of _ 0]) (simp add: write_records_def)
qed

lemma accept_cases:
  assumes "accept io cid b g = (a, g')"
  obtains (refused) "ak_status a \<noteq> Accepted" "ak_status a \<noteq> Retry"
      "ak_next_expected_seq a = co_last_seq (current_state g cid) + 1"
      "gw_disk g' = gw_disk g" "gw_spool g' = gw_spool g" "current_state g' = current_state g"
  | (failed) n where "ak_status a = Retry" "extends (current_state g cid) b"
      "io_spool io \<noteq> SpoolOk \<or> io_store io \<noteq> StoreOk \<or> \<not> is_safe_path_component cid"
      "gw_spool g' = (gw_spool g)(cid := gw_spool g cid @ take n (payload (ba_records b)))"
      "gw_disk g' = gw_disk g
       \<or> is_safe_path_component cid \<and> io_store io = StoreFailsAfter \<and> gw_disk g' = (gw_disk g)(cid := Stored (state_after b))"
      "current_state g' = current_state g"
  | (accepted) "ak_status a = Accepted" "ak_next_expected_seq a = ba_seq b + 1"
      "extends (current_state g cid) b" "is_safe_path_component cid"
      "io_spool io = SpoolOk" "io_store io = StoreOk"
      "gw_spool g' = (gw_spool g)(cid := gw_spool g cid @ payload (ba_records b))"
      "gw_disk g' = (gw_disk g)(cid := Stored (state_after b))"
      "current_state g' = (current_state g)(cid := state_after b)"
proof -
  let ?cur = "current_state g cid"
  let ?g = "g\<lparr>gw_states := (gw_states g)(cid \<mapsto> ?cur)\<rparr>"
  have keep: "current_state g'' = current_state g"
    if "gw_states g'' = (gw_states g)(cid \<mapsto> ?cur)" "\<And>c. c \<noteq> cid \<Longrightarrow> gw_disk g'' c = gw_disk g c" for g''
  proof
    fix c show "current_state g'' c = current_state g c"
      using that current_state_cong [of g'' c g] current_state_cached [of g'' cid ?cur] by (cases "c = cid") auto
  qed
  show thesis
  proof (cases "extends ?cur b")
    case False
    then show thesis
      using assms keep [of ?g] by (intro refused)
        (auto simp: accept_def Let_def extends_def mk_ack_def not_le split: if_splits)
  next
    case ext: True
    then have go: "\<not> ba_seq b \<le> co_last_seq ?cur" "ba_seq b = co_last_seq ?cur + 1"
        "ba_prev_batch_hash b = co_last_batch_hash ?cur" unfolding extends_def by auto
    obtain wrote spool where wr: "write_records (io_spool io) (ba_records b) (gw_spool g) cid = (wrote, spool)"
      by force
    obtain stored disk where st: "store_state (io_store io) (state_after b) (gw_disk g) cid = (stored, disk)"
      by force
    have acc: "(a, g') = (if \<not> wrote then (mk_ack Retry SpoolWriteFailed (co_last_seq ?cur + 1), ?g\<lparr>gw_spool := spool\<rparr>)
        else if \<not> stored then (mk_ack Retry SpoolWriteFailed (co_last_seq ?cur + 1), ?g\<lparr>gw_spool := spool, gw_disk := disk\<rparr>)
        else (mk_ack Accepted NoReason (ba_seq b + 1),
          ?g\<lparr>gw_spool := spool, gw_disk := disk, gw_states := (gw_states g)(cid \<mapsto> state_after b)\<rparr>))"
      using assms go wr st by (simp add: accept_def Let_def state_after_def split: bool.splits)
    consider (w) "\<not> wrote" | (s) "wrote" "\<not> stored" | (ok) "wrote" "stored" by blast
    then show thesis
    proof cases
      case w
      then obtain n where n: "spool = (gw_spool g)(cid := gw_spool g cid @ take n (payload (ba_records b)))"
          "io_spool io \<noteq> SpoolOk \<or> \<not> is_safe_path_component cid"
        using write_records_False wr by metis
      have "(a, g') = (mk_ack Retry SpoolWriteFailed (co_last_seq ?cur + 1), ?g\<lparr>gw_spool := spool\<rparr>)"
        using acc w by simp
      then show thesis
        using n ext keep [of "?g\<lparr>gw_spool := spool\<rparr>"] by (intro failed [of n]) (auto simp: mk_ack_def)
    next
      case s
      have sp: "spool = (gw_spool g)(cid := gw_spool g cid @ take (length (payload (ba_records b))) (payload (ba_records b)))"
        using write_records_True [of _ _ _ _ spool] wr s(1) by simp
      have "disk = gw_disk g \<or> is_safe_path_component cid \<and> io_store io = StoreFailsAfter
          \<and> disk = (gw_disk g)(cid := Stored (state_after b))"
        "io_store io \<noteq> StoreOk \<or> \<not> is_safe_path_component cid"
        using st s(2) by (auto simp: store_state_def split: if_splits store_io.splits)
      moreover from this have "current_state (?g\<lparr>gw_spool := spool, gw_disk := disk\<rparr>) = current_state g"
        by (intro keep) auto
      moreover have "(a, g') = (mk_ack Retry SpoolWriteFailed (co_last_seq ?cur + 1),
          ?g\<lparr>gw_spool := spool, gw_disk := disk\<rparr>)"
        using acc s by simp
      ultimately show thesis
        using sp ext by (intro failed [of "length (payload (ba_records b))"]) (auto simp: mk_ack_def)
    next
      case ok
      then have io: "io_spool io = SpoolOk" "io_store io = StoreOk" "is_safe_path_component cid"
          "spool = (gw_spool g)(cid := gw_spool g cid @ payload (ba_records b))"
          "disk = (gw_disk g)(cid := Stored (state_after b))"
        using st write_records_True [of _ _ _ _ spool] wr
        by (auto simp: store_state_def split: if_splits store_io.splits)
      have g': "g' = ?g\<lparr>gw_spool := spool, gw_disk := disk, gw_states := (gw_states g)(cid \<mapsto> state_after b)\<rparr>"
          "a = mk_ack Accepted NoReason (ba_seq b + 1)"
        using acc ok by simp_all
      have "current_state g' c = ((current_state g)(cid := state_after b)) c" for c
        using current_state_cong [of g' c g] current_state_cached [of g' cid] io
        by (cases "c = cid") (simp_all add: g')
      then show thesis
        using io ext g' by (intro accepted) (auto simp: mk_ack_def)
    qed
  qed
qed

section \<open>Runs of a gateway\<close>

type_synonym offer = "accept_io \<times> rust_str \<times> batch \<times> ack"

text \<open>Offers from any collectors in any order, each with its own I/O outcome, and restarts that lose
  the in-memory states. The trace records the offers and their acknowledgements.\<close>

inductive serves :: "gateway \<Rightarrow> offer list \<Rightarrow> gateway \<Rightarrow> bool" for g0 where
  idle: "serves g0 [] g0"
| offer: "serves g0 tr g \<Longrightarrow> accept io cid b g = (a, g') \<Longrightarrow> serves g0 (tr @ [(io, cid, b, a)]) g'"
| restart: "serves g0 tr g \<Longrightarrow> serves g0 tr (g\<lparr>gw_states := \<lambda>_. None\<rparr>)"

definition accepted_batches :: "rust_str \<Rightarrow> offer list \<Rightarrow> batch list" where
  "accepted_batches cid tr =
     map (\<lambda>(io, c, b, a). b) (filter (\<lambda>(io, c, b, a). c = cid \<and> ak_status a = Accepted) tr)"

lemma accepted_batches_snoc:
  "accepted_batches cid (tr @ [(io, c, b, a)]) =
     accepted_batches cid tr @ (if c = cid \<and> ak_status a = Accepted then [b] else [])"
  by (simp add: accepted_batches_def)

lemma accepted_batches_Nil [simp]: "accepted_batches cid [] = []"
  by (simp add: accepted_batches_def)

fun linked :: "collector_state \<Rightarrow> batch list \<Rightarrow> bool" where
  "linked s [] = True"
| "linked s (b # bs) \<longleftrightarrow> extends s b \<and> linked (state_after b) bs"

definition chain_end :: "collector_state \<Rightarrow> batch list \<Rightarrow> collector_state" where
  "chain_end s bs = (if bs = [] then s else state_after (last bs))"

lemma linked_snoc: "linked s (bs @ [b]) \<longleftrightarrow> linked s bs \<and> extends (chain_end s bs) b"
  by (induction bs arbitrary: s) (auto simp: chain_end_def)

lemma chain_end_snoc [simp]: "chain_end s (bs @ [b]) = state_after b"
  by (simp add: chain_end_def)

lemma restart_current:
  "current_state (g\<lparr>gw_states := \<lambda>_. None\<rparr>) cid = loaded_state (gw_disk g) cid"
  by (simp add: current_state_def)

text \<open>What memory holds is never ahead of what the disk holds, and every accepted batch is behind both.\<close>

lemma serves_bounds:
  assumes "serves g0 tr g" "gw_states g0 = (\<lambda>_. None)"
  shows "co_last_seq (current_state g cid) \<le> co_last_seq (loaded_state (gw_disk g) cid)
    \<and> (\<forall>b \<in> set (accepted_batches cid tr). ba_seq b \<le> co_last_seq (current_state g cid))
    \<and> sorted_wrt (<) (map ba_seq (accepted_batches cid tr))"
  using assms
proof (induction rule: serves.induct)
  case idle
  then show ?case by (simp add: current_state_def)
next
  case (offer tr g io c b a g')
  note IH = offer.IH [OF offer.prems]
  from offer.hyps(2) show ?case
  proof (cases rule: accept_cases)
    case refused
    then show ?thesis using IH by (simp add: accepted_batches_snoc)
  next
    case (failed n)
    then have "loaded_state (gw_disk g') = loaded_state (gw_disk g)
        \<or> loaded_state (gw_disk g') = (loaded_state (gw_disk g))(c := state_after b)"
      by (auto simp: loaded_state_Stored)
    then have "co_last_seq (current_state g cid) \<le> co_last_seq (loaded_state (gw_disk g') cid)"
      using failed(2) IH by (auto simp: extends_def state_after_def)
    then show ?thesis using IH failed(1,6) by (simp add: accepted_batches_snoc)
  next
    case accepted
    have "loaded_state (gw_disk g') = (loaded_state (gw_disk g))(c := state_after b)"
      using accepted(4,8) by (simp only: loaded_state_Stored)
    then show ?thesis
      using IH accepted(1,3,9)
      by (auto simp: accepted_batches_snoc extends_def state_after_def sorted_wrt_append)
  qed
next
  case (restart tr g)
  then show ?case using order_trans by (fastforce simp: restart_current)
qed

lemma payload_append: "payload (xs @ ys) = payload xs @ payload ys"
  by (simp add: payload_def)


text \<open>When no state file is renamed without the process learning of it, the accepted batches form one
  chain from the state on disk at the start, with nothing missing; when every write succeeds the
  spool holds exactly their records.\<close>

lemma serves_linked:
  assumes "serves g0 tr g" "gw_states g0 = (\<lambda>_. None)"
    and "\<forall>(io, _) \<in> set tr. io_store io \<noteq> StoreFailsAfter"
  shows "linked (loaded_state (gw_disk g0) cid) (accepted_batches cid tr)
    \<and> loaded_state (gw_disk g) cid = chain_end (loaded_state (gw_disk g0) cid) (accepted_batches cid tr)
    \<and> current_state g cid = loaded_state (gw_disk g) cid"
  using assms
proof (induction rule: serves.induct)
  case idle
  then show ?case by (simp add: current_state_def chain_end_def)
next
  case (offer tr g io c b a g')
  then have IH: "linked (loaded_state (gw_disk g0) cid) (accepted_batches cid tr)"
    "loaded_state (gw_disk g) cid = chain_end (loaded_state (gw_disk g0) cid) (accepted_batches cid tr)"
    "current_state g cid = loaded_state (gw_disk g) cid" and nf: "io_store io \<noteq> StoreFailsAfter"
    by auto
  from offer.hyps(2) show ?case
  proof (cases rule: accept_cases)
    case refused
    then show ?thesis using IH by (simp add: accepted_batches_snoc)
  next
    case (failed n)
    then show ?thesis using IH nf by (simp add: accepted_batches_snoc)
  next
    case accepted
    have "loaded_state (gw_disk g') = (loaded_state (gw_disk g))(c := state_after b)"
      using accepted(4,8) by (simp only: loaded_state_Stored)
    then show ?thesis
      using IH accepted(1,3,9) by (cases "c = cid") (simp_all add: accepted_batches_snoc linked_snoc)
  qed
next
  case (restart tr g)
  then show ?case by (simp add: restart_current)
qed

lemma serves_exactly_once:
  assumes "serves g0 tr g" "\<forall>(io, _) \<in> set tr. io = \<lparr>io_spool = SpoolOk, io_store = StoreOk\<rparr>"
    and "is_safe_path_component cid"
  shows "gw_spool g cid = gw_spool g0 cid @ payload (concat (map ba_records (accepted_batches cid tr)))"
  using assms(1,2)
proof (induction rule: serves.induct)
  case (offer tr g io c b a g')
  then have IH: "gw_spool g cid = gw_spool g0 cid @ payload (concat (map ba_records (accepted_batches cid tr)))"
    and io: "io = \<lparr>io_spool = SpoolOk, io_store = StoreOk\<rparr>" by auto
  from offer.hyps(2) show ?case
  proof (cases rule: accept_cases)
    case (failed n)
    then have "c \<noteq> cid" using io assms(3) by auto
    then show ?thesis using IH failed by (simp add: accepted_batches_snoc)
  next
    case accepted
    then show ?thesis using IH by (cases "c = cid") (simp_all add: accepted_batches_snoc payload_append)
  qed (use IH in \<open>simp_all add: accepted_batches_snoc\<close>)
qed (simp_all add: payload_def)

section \<open>Connections\<close>

lemma serves_trans:
  assumes "serves g0 tr g" "serves g tr' g'"
  shows "serves g0 (tr @ tr') g'"
  using assms(2,1)
proof (induction rule: serves.induct)
  case (offer tr' g1 io cid b a g2)
  then show ?case using serves.offer [of g0 "tr @ tr'" g1 io cid b a g2] by simp
qed (simp_all add: serves.restart)

lemma serves_one: "accept io cid b g = (a, g') \<Longrightarrow> serves g [(io, cid, b, a)] g'"
  using serves.offer [OF serves.idle] by simp

text \<open>An offer under one id leaves every other collector's state, file and spool alone.\<close>

definition untouched :: "rust_str \<Rightarrow> gateway \<Rightarrow> gateway \<Rightarrow> bool" where
  "untouched c g g' \<longleftrightarrow> current_state g' c = current_state g c \<and> gw_disk g' c = gw_disk g c
     \<and> gw_spool g' c = gw_spool g c"

lemma accept_isolated:
  assumes "accept io cid b g = (a, g')" "c \<noteq> cid"
  shows "untouched c g g'"
  using assms(1) by (cases rule: accept_cases) (use assms(2) in \<open>auto simp: untouched_def\<close>)

text \<open>Whatever bytes a peer sends, a connection only offers batches under the peer's own id.\<close>

definition only_offers :: "(bytes \<Rightarrow> bytes) \<Rightarrow> rust_str \<Rightarrow> gateway \<Rightarrow> gateway \<Rightarrow> bool" where
  "only_offers H cid g g' \<longleftrightarrow>
     (\<exists>tr. serves g tr g' \<and> (\<forall>(io, c, b, a) \<in> set tr. c = cid \<and> batch_ok H b))
     \<and> (\<forall>c. c \<noteq> cid \<longrightarrow> untouched c g g')"

lemma only_offers_refl: "only_offers H cid g g"
  using serves.idle [of g] by (auto simp: only_offers_def untouched_def intro: exI [of _ "[]"])

lemma only_offers_one:
  "accept io cid b g = (a, g') \<Longrightarrow> batch_ok H b \<Longrightarrow> only_offers H cid g g'"
  using serves_one [of io cid b g a g'] accept_isolated [of io cid b g a g']
  by (auto simp: only_offers_def intro!: exI [of _ "[(io, cid, b, a)]"])

lemma only_offers_trans:
  assumes "only_offers H cid g g1" "only_offers H cid g1 g2"
  shows "only_offers H cid g g2"
proof -
  obtain tr tr' where tr: "serves g tr g1" "\<forall>(io, c, b, a) \<in> set tr. c = cid \<and> batch_ok H b"
      and tr': "serves g1 tr' g2" "\<forall>(io, c, b, a) \<in> set tr'. c = cid \<and> batch_ok H b"
    using assms by (auto simp: only_offers_def)
  have "serves g (tr @ tr') g2" using serves_trans [OF tr(1) tr'(1)] .
  moreover have "\<forall>(io, c, b, a) \<in> set (tr @ tr'). c = cid \<and> batch_ok H b" using tr(2) tr'(2) by auto
  moreover have "\<forall>c. c \<noteq> cid \<longrightarrow> untouched c g g2" using assms by (simp add: only_offers_def untouched_def)
  ultimately show ?thesis unfolding only_offers_def by blast
qed

lemma handle_connection_offers: "only_offers H cid g (snd (handle_connection H ios k cid bs g))"
proof (induction H ios k cid bs g rule: handle_connection.induct)
  case (1 H ios k cid bs g)
  let ?len = "from_be (take 4 bs)"
  let ?frame = "take ?len (drop 4 bs)"
  show ?case
  proof (cases "length bs < 4 \<or> MAX_FRAME_LEN < ?len \<or> length (drop 4 bs) < ?len")
    case True
    then have "snd (handle_connection H ios k cid bs g) = g"
      by (subst handle_connection.simps) (auto simp: Let_def)
    then show ?thesis by (simp add: only_offers_refl)
  next
    case False
    then have go: "\<not> length bs < 4" "\<not> (MAX_FRAME_LEN < ?len \<or> length (drop 4 bs) < ?len)" by auto
    show ?thesis
    proof (cases "decode_frame H ?frame")
      case (Inl err)
      then have "snd (handle_connection H ios k cid bs g) = g"
        using go by (subst handle_connection.simps) (simp add: Let_def handle_frame_def)
      then show ?thesis by (simp add: only_offers_refl)
    next
      case (Inr b)
      obtain a g1 where acc: "accept (fst (ios k)) cid b g = (a, g1)" by force
      have one: "only_offers H cid g g1" using only_offers_one [OF acc] Inr decode_frame_sound by blast
      have frame: "handle_frame H (fst (ios k)) cid ?frame g = (a, False, g1)"
        using Inr acc by (simp add: handle_frame_def)
      show ?thesis
      proof (cases "snd (ios k)")
        case False
        then have "snd (handle_connection H ios k cid bs g) = g1"
          using go frame by (subst handle_connection.simps) (simp add: Let_def)
        then show ?thesis by (simp add: one)
      next
        case True
        then have "snd (handle_connection H ios k cid bs g)
            = snd (handle_connection H ios (k + 1) cid (drop ?len (drop 4 bs)) g1)"
          using go frame by (subst handle_connection.simps) (simp add: Let_def split: prod.split)
        moreover have "only_offers H cid g1 (snd (handle_connection H ios (k + 1) cid (drop ?len (drop 4 bs)) g1))"
          using 1 [OF go(1) refl refl go(2) frame [symmetric] refl refl _ _] True by simp
        ultimately show ?thesis using only_offers_trans [OF one] by simp
      qed
    qed
  qed
qed

lemma accept_extending:
  assumes "is_safe_path_component cid" "extends (current_state g cid) b"
  shows "accept \<lparr>io_spool = SpoolFailsAfter n, io_store = st\<rparr> cid b g =
      (mk_ack Retry SpoolWriteFailed (co_last_seq (current_state g cid) + 1),
       g\<lparr>gw_states := (gw_states g)(cid \<mapsto> current_state g cid),
         gw_spool := (gw_spool g)(cid := gw_spool g cid @ take n (payload (ba_records b)))\<rparr>)"
    "accept \<lparr>io_spool = SpoolOk, io_store = StoreOk\<rparr> cid b g =
      (mk_ack Accepted NoReason (ba_seq b + 1),
       g\<lparr>gw_states := (gw_states g)(cid \<mapsto> state_after b),
         gw_disk := (gw_disk g)(cid := Stored (state_after b)),
         gw_spool := (gw_spool g)(cid := gw_spool g cid @ payload (ba_records b))\<rparr>)"
  using assms unfolding extends_def
  by (auto simp: accept_def Let_def write_records_def store_state_def state_after_def)

lemma accepted_records_clean:
  assumes "\<forall>(io, c, b, a) \<in> set tr. batch_ok H b" "b \<in> set (accepted_batches cid tr)" "r \<in> set (ba_records b)"
  shows "10 \<notin> set r"
  using assms by (auto simp: accepted_batches_def batch_ok_def record_ok_def)

section \<open>Properties\<close>

definition sample_digest :: "bytes \<Rightarrow> bytes" where
  "sample_digest m = replicate 32 7"

definition sample_batch :: batch where
  "sample_batch = \<lparr>ba_seq = 1, ba_prev_batch_hash = ZERO_HASH, ba_records = [[123, 125]],
     ba_batch_hash = replicate 32 7\<rparr>"

definition sample_id :: rust_str where "sample_id = [99, 49]"

definition sample_gateway :: gateway where
  "sample_gateway = \<lparr>gw_states = (\<lambda>_. None), gw_disk = (\<lambda>_. Missing), gw_spool = (\<lambda>_. [])\<rparr>"

definition good_io :: accept_io where
  "good_io = \<lparr>io_spool = SpoolOk, io_store = StoreOk\<rparr>"

lemma sample_batch_ok: "batch_ok sample_digest sample_batch"
  by (simp add: batch_ok_def sample_batch_def sample_digest_def encode_frame_length record_ok_def
      frame_constants ZERO_HASH_def)

lemma sample_id_safe: "is_safe_path_component sample_id"
  by (simp add: is_safe_path_component_def sample_id_def is_control_def)

lemma sample_accept:
  "accept good_io sample_id sample_batch sample_gateway =
     (mk_ack Accepted NoReason 2,
      sample_gateway\<lparr>gw_states := [sample_id \<mapsto> state_after sample_batch],
        gw_disk := (\<lambda>_. Missing)(sample_id := Stored (state_after sample_batch)),
        gw_spool := (\<lambda>_. [])(sample_id := payload [[123, 125]])\<rparr>)"
  using sample_id_safe
  by (simp add: accept_def current_state_def loaded_state_def load_state_def sample_gateway_def
      sample_batch_def fresh_def write_records_def store_state_def good_io_def state_after_def Let_def)

definition sample_trace :: "offer list" where
  "sample_trace = [(good_io, sample_id, sample_batch, mk_ack Accepted NoReason 2)]"

definition sample_served :: gateway where
  "sample_served = snd (accept good_io sample_id sample_batch sample_gateway)"

lemma sample_serves: "serves sample_gateway sample_trace sample_served"
  using serves_one [of good_io sample_id sample_batch sample_gateway] sample_accept
  by (simp add: sample_trace_def sample_served_def)

lemma sample_accepted: "accepted_batches sample_id sample_trace = [sample_batch]"
  by (simp add: accepted_batches_def sample_trace_def mk_ack_def)

lemma sample_gateway_sel:
  "gw_states sample_gateway = (\<lambda>_. None)" "gw_disk sample_gateway cid = Missing" "gw_spool sample_gateway cid = []"
  by (simp_all add: sample_gateway_def)

text \<open>C26: A frame that a shipper encodes from an admissible batch decodes to that batch, and the
  gateway accepts no other bytes: whatever decodes is the encoding of the batch it decodes to.\<close>

theorem frame_codec_exact:
  "decode_frame H bs = Inr b \<longleftrightarrow> batch_ok H b \<and> encode_frame b = bs"
  by (rule frames.dec_iff)

text \<open>C27: The fixed-size acknowledgement round-trips, and every byte string that decodes is the
  encoding of the acknowledgement it decodes to.\<close>

theorem ack_codec_exact: "decode_ack bs = Inr a \<longleftrightarrow> encode_ack a = bs"
  using acks.dec_iff by blast

text \<open>C21: The gateway never accepts the same sequence number of a collector twice: over any offers,
  I/O failures and restarts the accepted sequence numbers strictly increase.\<close>

theorem no_batch_accepted_twice:
  assumes "serves g0 tr g" "gw_states g0 = (\<lambda>_. None)"
  shows "sorted_wrt (<) (map ba_seq (accepted_batches cid tr))"
  using serves_bounds [OF assms] by blast

theorem no_batch_accepted_twice_witness:
  "serves sample_gateway sample_trace sample_served
   \<and> sorted_wrt (<) (map ba_seq (accepted_batches sample_id sample_trace))"
  using no_batch_accepted_twice [OF sample_serves sample_gateway_sel(1)] sample_serves by simp

text \<open>C22: As long as no state write fails after its rename, the accepted batches of a collector form
  one unbroken chain: consecutive sequence numbers, each batch naming the hash of the one before.\<close>

theorem accepted_batches_chain:
  assumes "serves g0 tr g" "gw_states g0 = (\<lambda>_. None)" "gw_disk g0 cid = Missing"
    and "\<forall>(io, _) \<in> set tr. io_store io \<noteq> StoreFailsAfter"
  shows "linked fresh (accepted_batches cid tr)"
  using serves_linked [OF assms(1,2,4), of cid] assms(3)
  by (simp add: loaded_state_def load_state_def split: if_splits)

theorem accepted_batches_chain_witness: "linked fresh [sample_batch]"
  using accepted_batches_chain [OF sample_serves sample_gateway_sel(1,2), of sample_id]
  by (simp add: sample_accepted) (simp add: sample_trace_def good_io_def)

text \<open>C24: When the writes succeed, the lines of a collector's spool are exactly the records of the
  batches it had accepted, once each and in order, through any duplicates, rejects and restarts.\<close>

theorem spool_is_accepted_records:
  assumes "serves g0 tr g" "gw_spool g0 cid = []" "is_safe_path_component cid"
    and "\<forall>(io, c, b, a) \<in> set tr. io = good_io \<and> batch_ok H b"
  shows "complete_lines [] (gw_spool g cid) = concat (map ba_records (accepted_batches cid tr))"
proof -
  have "gw_spool g cid = payload (concat (map ba_records (accepted_batches cid tr)))"
    using serves_exactly_once [OF assms(1) _ assms(3)] assms(2,4) by (auto simp: good_io_def)
  moreover have "\<forall>r \<in> set (concat (map ba_records (accepted_batches cid tr))). 10 \<notin> set r"
    using accepted_records_clean [of tr H _ cid] assms(4) by fastforce
  ultimately show ?thesis
    using complete_lines_records [where bs = "[]"] by (simp add: payload_def)
qed

theorem spool_is_accepted_records_witness: "complete_lines [] (gw_spool sample_served sample_id) = [[123, 125]]"
proof -
  have "\<forall>(io, c, b, a) \<in> set sample_trace. io = good_io \<and> batch_ok sample_digest b"
    by (simp add: sample_trace_def sample_batch_ok)
  from spool_is_accepted_records [OF sample_serves sample_gateway_sel(3) sample_id_safe this]
  show ?thesis by (simp add: sample_accepted sample_batch_def)
qed



text \<open>C25: Whatever bytes a peer sends over a connection, only its own collector's state, state file and
  spool change, and only by offering well-formed batches.\<close>

theorem connections_are_isolated:
  "let g' = snd (handle_connection H ios k cid bs g)
   in (\<exists>tr. serves g tr g' \<and> list_all (\<lambda>(io, c, b, a). c = cid \<and> batch_ok H b) tr)
     \<and> (c = cid \<or> current_state g' c = current_state g c \<and> gw_disk g' c = gw_disk g c
          \<and> gw_spool g' c = gw_spool g c)"
  using handle_connection_offers [of H cid g ios k bs]
  by (auto simp: only_offers_def untouched_def list_all_iff Let_def)

text \<open>C28: An append that fails inside a record leaves a fragment in the spool. The retried batch is then
  acknowledged as accepted although its first record is not a line of the spool: the fragment and the
  record are one line.\<close>

theorem torn_append_hides_record:
  assumes "is_safe_path_component cid" "extends (current_state g cid) b" "ba_records b = r # rs"
    and "\<forall>x \<in> set (old @ r # rs). 10 \<notin> set x" "n \<le> length r" "gw_spool g cid = payload old"
    and "accept \<lparr>io_spool = SpoolFailsAfter n, io_store = StoreOk\<rparr> cid b g = (a1, g1)"
    and "accept \<lparr>io_spool = SpoolOk, io_store = StoreOk\<rparr> cid b g1 = (a2, g2)"
  shows "ak_status a1 = Retry \<and> ak_status a2 = Accepted
    \<and> complete_lines [] (gw_spool g2 cid) = old @ [take n r @ r] @ rs"
proof -
  have g1: "g1 = g\<lparr>gw_states := (gw_states g)(cid \<mapsto> current_state g cid),
      gw_spool := (gw_spool g)(cid := payload old @ take n r)\<rparr>" and a1: "ak_status a1 = Retry"
    using assms(3,5,6,7) accept_extending(1) [OF assms(1,2)] by (auto simp add: mk_ack_def payload_def)
  then have "extends (current_state g1 cid) b"
    using assms(2) by (simp add: current_state_def)
  from assms(8) accept_extending(2) [OF assms(1) this]
  have "ak_status a2 = Accepted" "gw_spool g2 cid = payload old @ take n r @ payload (r # rs)"
    by (simp_all add: mk_ack_def g1 assms(3))
  moreover have "complete_lines [] (payload old @ take n r @ payload (r # rs)) = old @ [take n r @ r] @ rs"
    using assms(4) complete_lines_records [of old] complete_lines_records [of "(take n r @ r) # rs" "[]"]
    by (auto simp: payload_def dest: in_set_takeD)
  ultimately show ?thesis using a1 by simp
qed

theorem torn_append_hides_record_witness:
  "\<exists>a1 g1 a2 g2. accept \<lparr>io_spool = SpoolFailsAfter 1, io_store = StoreOk\<rparr> sample_id sample_batch sample_gateway = (a1, g1)
     \<and> accept \<lparr>io_spool = SpoolOk, io_store = StoreOk\<rparr> sample_id sample_batch g1 = (a2, g2)
     \<and> ak_status a2 = Accepted \<and> complete_lines [] (gw_spool g2 sample_id) = [[123, 123, 125]]"
proof -
  obtain a1 g1 a2 g2 where
    e: "accept \<lparr>io_spool = SpoolFailsAfter 1, io_store = StoreOk\<rparr> sample_id sample_batch sample_gateway = (a1, g1)"
      "accept \<lparr>io_spool = SpoolOk, io_store = StoreOk\<rparr> sample_id sample_batch g1 = (a2, g2)" by (meson surj_pair)
  have "extends (current_state sample_gateway sample_id) sample_batch"
    by (simp add: extends_def current_state_def loaded_state_def load_state_def sample_gateway_def fresh_def
        sample_batch_def)
  then show ?thesis
    using torn_append_hides_record [OF sample_id_safe _ _ _ _ _ e, of "[123, 125]" "[]" "[]"] e
    by (simp add: sample_batch_def sample_gateway_def payload_def)
qed

end
