(* ===== verification/Log_Lines.thy ===== *)
theory Log_Lines
  imports Bytes
begin

text \<open>
  The line reader of \<open>crates/log-tailer/src/tailer.rs\<close>: \<open>read_lines_from\<close> with its line and byte
  budgets, its handling of over-length and unfinished lines, and the lossy UTF-8 decoding of a line.
  The loop over a buffered reader is shown to be a walk over the file's complete lines
  (\<open>read_loop_lines\<close>).
\<close>

section \<open>Lines of a file\<close>

definition MAX_LINE_BYTES :: nat where "MAX_LINE_BYTES = 1048576"

text \<open>\<open>String::from_utf8_lossy\<close>: each maximal invalid part becomes U+FFFD. \<open>utf8_chunk\<close> gives the
  number of bytes of the first character, or of the first invalid part, and whether it is valid.\<close>

definition cont_byte :: "u8 \<Rightarrow> bool" where
  "cont_byte b \<longleftrightarrow> 128 \<le> b \<and> b < 192"

definition second_ok :: "u8 \<Rightarrow> u8 \<Rightarrow> bool" where
  "second_ok b c \<longleftrightarrow>
     (if b = 0xE0 then 0xA0 \<le> c \<and> c < 0xC0 else if b = 0xED then 0x80 \<le> c \<and> c < 0xA0
      else if b = 0xF0 then 0x90 \<le> c \<and> c < 0xC0 else if b = 0xF4 then 0x80 \<le> c \<and> c < 0x90
      else cont_byte c)"

definition utf8_width :: "u8 \<Rightarrow> nat" where
  "utf8_width b =
     (if b < 0x80 then 1 else if b < 0xC2 then 0 else if b < 0xE0 then 2 else if b < 0xF0 then 3
      else if b < 0xF5 then 4 else 0)"

definition utf8_chunk :: "u8 \<Rightarrow> bytes \<Rightarrow> nat \<times> bool" where
  "utf8_chunk b rest =
     (let w = utf8_width b; conts = takeWhile cont_byte (take (w - 2) (drop 1 rest))
      in if w = 0 then (1, False)
         else if w = 1 then (1, True)
         else if rest = [] \<or> \<not> second_ok b (hd rest) then (1, False)
         else (2 + length conts, 2 + length conts = w))"

lemma utf8_chunk_pos: "(n, ok) = utf8_chunk b rest \<Longrightarrow> 0 < n"
  by (auto simp: utf8_chunk_def Let_def split: if_splits)

function utf8_lossy :: "bytes \<Rightarrow> bytes" where
  "utf8_lossy [] = []"
| "utf8_lossy (b # rest) =
     (let (n, ok) = utf8_chunk b rest
      in (if ok then take n (b # rest) else [0xEF, 0xBF, 0xBD]) @ utf8_lossy (drop n (b # rest)))"
  by pat_completeness auto
termination
proof (relation "measure length", goal_cases)
  case (2 b rest p n ok)
  then show ?case using utf8_chunk_pos [of n ok b rest] by (cases n) auto
qed simp

function utf8_valid :: "bytes \<Rightarrow> bool" where
  "utf8_valid [] = True"
| "utf8_valid (b # rest) =
     (let (n, ok) = utf8_chunk b rest in ok \<and> utf8_valid (drop n (b # rest)))"
  by pat_completeness auto
termination
proof (relation "measure length", goal_cases)
  case (2 b rest p n ok)
  then show ?case using utf8_chunk_pos [of n ok b rest] by (cases n) auto
qed simp

datatype tail_entry = Line bytes | Discarded nat

fun is_Line :: "tail_entry \<Rightarrow> bool" where
  "is_Line (Line s) = True"
| "is_Line (Discarded n) = False"

definition count_lines :: "tail_entry list \<Rightarrow> nat" where
  "count_lines entries = length (filter is_Line entries)"

text \<open>\<open>BufRead::read_until\<close> of a newline behind \<open>take(cap)\<close>: the bytes read and the rest.\<close>

definition read_until :: "nat \<Rightarrow> bytes \<Rightarrow> bytes \<times> bytes" where
  "read_until cap bs =
     (let k = length (takeWhile (\<lambda>b. b \<noteq> 10) (take cap bs))
      in if k < length (take cap bs) then (take (k + 1) bs, drop (k + 1) bs)
         else (take cap bs, drop cap bs))"

lemma read_until_shorter: "(buf, rest) = read_until cap bs \<Longrightarrow> buf \<noteq> [] \<Longrightarrow> length rest < length bs"
  by (auto simp: read_until_def Let_def split: if_splits)

function skip_to_newline :: "nat \<Rightarrow> bytes \<Rightarrow> (nat \<times> bytes) option" where
  "skip_to_newline discarded bs =
     (let (chunk, rest) = read_until MAX_LINE_BYTES bs
      in if chunk = [] then None
         else if last chunk = 10 then Some (discarded + length chunk, rest)
         else skip_to_newline (discarded + length chunk) rest)"
  by pat_completeness auto
termination
proof (relation "measure (\<lambda>(n, bs). length bs)", goal_cases)
  case (2 discarded bs p chunk rest)
  then show ?case using read_until_shorter [of chunk rest MAX_LINE_BYTES bs] by simp
qed simp

declare skip_to_newline.simps [simp del]

text \<open>The length of the line at the front of a buffer, its newline included.\<close>

definition line_len :: "bytes \<Rightarrow> nat" where
  "line_len bs = length (takeWhile (\<lambda>b. b \<noteq> 10) bs) + 1"

lemma last_not_in: "x \<notin> set xs \<Longrightarrow> xs \<noteq> [] \<Longrightarrow> last xs \<noteq> x"
  using last_in_set by metis

lemma line_len_append: "10 \<notin> set p \<Longrightarrow> line_len (p @ q) = length p + line_len q"
  by (induction p) (simp_all add: line_len_def)

lemma take_line_len: "10 \<in> set bs \<Longrightarrow> take (line_len bs) bs = takeWhile (\<lambda>b. b \<noteq> 10) bs @ [10]"
  by (induction bs) (auto simp: line_len_def)

lemma line_len_le: "10 \<in> set bs \<Longrightarrow> line_len bs \<le> length bs"
  using arg_cong [OF take_line_len, of bs length] by (simp add: line_len_def)

lemma read_until_eq:
  "read_until cap bs =
     (if 10 \<in> set (take cap bs) then (take (line_len bs) bs, drop (line_len bs) bs)
      else (take cap bs, drop cap bs))"
proof (cases "10 \<in> set (take cap bs)")
  case True
  then have "line_len bs = line_len (take cap bs)"
    using takeWhile_append1 [of 10 "take cap bs" "\<lambda>b. b \<noteq> 10" "drop cap bs"] by (simp add: line_len_def)
  then show ?thesis using True line_len_le [OF True] by (simp add: read_until_def Let_def line_len_def)
next
  case False
  then have all: "takeWhile (\<lambda>b. b \<noteq> 10) (take cap bs) = take cap bs"
    by (subst takeWhile_eq_all_conv) metis
  show ?thesis unfolding read_until_def Let_def all using False by simp
qed

lemma skip_to_newline_eq:
  "skip_to_newline n bs = (if 10 \<in> set bs then Some (n + line_len bs, drop (line_len bs) bs) else None)"
proof (induction n bs rule: skip_to_newline.induct)
  case (1 n bs)
  let ?buf = "take MAX_LINE_BYTES bs" and ?rest = "drop MAX_LINE_BYTES bs"
  show ?case
  proof (cases "10 \<in> set ?buf")
    case True
    then have "10 \<in> set bs" by (rule in_set_takeD)
    then show ?thesis using True take_line_len [of bs]
      by (subst skip_to_newline.simps) (simp add: read_until_eq line_len_def)
  next
    case False
    then have split: "read_until MAX_LINE_BYTES bs = (?buf, ?rest)" by (simp add: read_until_eq)
    have in_rest: "10 \<in> set bs \<longleftrightarrow> 10 \<in> set ?rest"
      using False by (metis UnE append_take_drop_id in_set_dropD set_append)
    show ?thesis
    proof (cases "bs = []")
      case True
      then show ?thesis by (subst skip_to_newline.simps) (simp add: read_until_eq)
    next
      case False
      then have buf: "?buf \<noteq> []" by (simp add: MAX_LINE_BYTES_def)
      then have "last ?buf \<noteq> 10" by (rule last_not_in [OF \<open>10 \<notin> set ?buf\<close>])
      note buf = buf this
      have "line_len bs = length ?buf + line_len ?rest"
        using line_len_append [OF \<open>10 \<notin> set ?buf\<close>, of ?rest] by simp
      moreover have "drop (line_len ?rest) ?rest = drop (length ?buf + line_len ?rest) bs" if "10 \<in> set ?rest"
      proof -
        have "length ?buf = MAX_LINE_BYTES" using that by (cases "MAX_LINE_BYTES \<le> length bs") auto
        then show ?thesis by (simp add: add.commute)
      qed
      moreover have "skip_to_newline n bs = skip_to_newline (n + length ?buf) ?rest"
        using buf by (subst skip_to_newline.simps) (simp add: split)
      ultimately show ?thesis using 1 [OF refl split [symmetric] buf] in_rest by (auto simp: add.assoc)
    qed
  qed
qed

lemma skip_to_newline_shorter: "skip_to_newline n bs = Some (m, rest) \<Longrightarrow> length rest < length bs"
  by (cases bs) (auto simp: skip_to_newline_eq line_len_def split: if_splits)

record line_budget =
  lb_left :: nat
  lb_first_is_free :: bool

record line_read =
  lr_entries :: "tail_entry list"
  lr_consumed :: nat
  lr_line_bytes :: nat
  lr_budget_hit :: bool
  lr_spans :: "nat list"
  lr_lens :: "nat list"
  lr_raw_lossy :: "(nat \<times> bytes) list"

text \<open>The loop of \<open>read_lines_from\<close>: \<open>bs\<close> is what the reader has left.\<close>

function read_loop :: "nat \<Rightarrow> line_budget \<Rightarrow> bytes \<Rightarrow> nat \<Rightarrow> nat \<Rightarrow> line_read \<Rightarrow> line_read" where
  "read_loop max_lines budget bs lines discarded r =
     (if \<not> lines < max_lines then r
      else let (buf, rest) = read_until (MAX_LINE_BYTES + 1) bs
           in if buf = [] then r
              else if last buf = 10 \<and> \<not> (lb_first_is_free budget \<and> lines = 0)
                      \<and> lb_left budget < lr_line_bytes r + length buf
              then r\<lparr>lr_budget_hit := True\<rparr>
              else if last buf \<noteq> 10
              then if MAX_LINE_BYTES < length buf
                   then case skip_to_newline 0 rest of
                          Some (skipped, rest') \<Rightarrow>
                            (let n = length buf + skipped
                             in read_loop max_lines budget rest' lines (discarded + n)
                                  (r\<lparr>lr_consumed := lr_consumed r + n,
                                     lr_entries := lr_entries r @ [Discarded n]\<rparr>))
                        | None \<Rightarrow> r
                   else r
              else let text = utf8_lossy (butlast buf)
                   in read_loop max_lines budget rest (lines + 1) 0
                        (r\<lparr>lr_consumed := lr_consumed r + length buf,
                           lr_line_bytes := lr_line_bytes r + length buf,
                           lr_spans := lr_spans r @ [discarded + length buf],
                           lr_lens := lr_lens r @ [length buf],
                           lr_raw_lossy := lr_raw_lossy r
                             @ (if utf8_valid (butlast buf) then [] else [(lines, butlast buf)]),
                           lr_entries := lr_entries r @ [Line text]\<rparr>))"
  by pat_completeness auto
termination
proof (relation "measure (\<lambda>(m, b, bs, l, d, r). length bs)", goal_cases)
  case (2 max_lines budget bs lines discarded r p buf rest sk skipped rest' n)
  then have "length rest < length bs" using read_until_shorter [of buf rest "MAX_LINE_BYTES + 1" bs] by simp
  moreover have "length rest' < length rest"
    using 2 skip_to_newline_shorter [of 0 rest skipped rest'] by simp
  ultimately show ?case by simp
next
  case (3 max_lines budget bs lines discarded r p buf rest t)
  then show ?case using read_until_shorter [of buf rest "MAX_LINE_BYTES + 1" bs] by simp
qed simp

declare read_loop.simps [simp del]

section \<open>What a read returns\<close>

text \<open>The entry a line of the file gives, the bytes it takes, and what the loop does over the lines.\<close>

definition entry_of :: "bytes \<Rightarrow> tail_entry" where
  "entry_of l = (if MAX_LINE_BYTES < length l then Discarded (length l + 1) else Line (utf8_lossy l))"

definition lines_len :: "bytes list \<Rightarrow> nat" where
  "lines_len ls = sum_list (map (\<lambda>l. length l + 1) ls)"

fun take_lines :: "nat \<Rightarrow> line_budget \<Rightarrow> bytes list \<Rightarrow> nat \<Rightarrow> nat \<Rightarrow> line_read \<Rightarrow> line_read" where
  "take_lines max_lines budget [] lines discarded r = r"
| "take_lines max_lines budget (l # ls) lines discarded r =
     (if \<not> lines < max_lines then r
      else if MAX_LINE_BYTES < length l
      then take_lines max_lines budget ls lines (discarded + (length l + 1))
             (r\<lparr>lr_consumed := lr_consumed r + (length l + 1),
                lr_entries := lr_entries r @ [entry_of l]\<rparr>)
      else if \<not> (lb_first_is_free budget \<and> lines = 0) \<and> lb_left budget < lr_line_bytes r + (length l + 1)
      then r\<lparr>lr_budget_hit := True\<rparr>
      else take_lines max_lines budget ls (lines + 1) 0
             (r\<lparr>lr_consumed := lr_consumed r + (length l + 1),
                lr_line_bytes := lr_line_bytes r + (length l + 1),
                lr_spans := lr_spans r @ [discarded + (length l + 1)],
                lr_lens := lr_lens r @ [length l + 1],
                lr_raw_lossy := lr_raw_lossy r @ (if utf8_valid l then [] else [(lines, l)]),
                lr_entries := lr_entries r @ [entry_of l]\<rparr>))"

lemma complete_lines_none: "10 \<notin> set bs \<Longrightarrow> complete_lines acc bs = []"
  by (induction bs arbitrary: acc) auto

lemma complete_lines_first:
  "10 \<in> set bs \<Longrightarrow>
   complete_lines [] bs = takeWhile (\<lambda>b. b \<noteq> 10) bs # complete_lines [] (drop (line_len bs) bs)"
proof -
  assume "10 \<in> set bs"
  then have "complete_lines [] bs = complete_lines [] ((takeWhile (\<lambda>b. b \<noteq> 10) bs @ [10]) @ drop (line_len bs) bs)"
    using take_line_len append_take_drop_id by metis
  also have "\<dots> = takeWhile (\<lambda>b. b \<noteq> 10) bs # complete_lines [] (drop (line_len bs) bs)"
    by (subst append_assoc) (use complete_lines_line [of "takeWhile (\<lambda>b. b \<noteq> 10) bs" "[]"] in
        \<open>auto dest: set_takeWhileD\<close>)
  finally show ?thesis .
qed

lemma read_loop_no_newline:
  assumes "10 \<notin> set bs"
  shows "read_loop max_lines budget bs lines discarded r = r"
proof -
  let ?buf = "take (MAX_LINE_BYTES + 1) bs" and ?rest = "drop (MAX_LINE_BYTES + 1) bs"
  have "10 \<notin> set ?buf" "10 \<notin> set ?rest" using assms in_set_takeD in_set_dropD by metis+
  then have "read_until (MAX_LINE_BYTES + 1) bs = (?buf, ?rest)" "skip_to_newline 0 ?rest = None"
      "?buf \<noteq> [] \<Longrightarrow> last ?buf \<noteq> 10"
    by (simp add: read_until_eq, simp add: skip_to_newline_eq, simp add: last_not_in)
  then show ?thesis by (subst read_loop.simps) simp
qed

lemma read_until_short:
  assumes "10 \<in> set bs" "line_len bs \<le> cap"
  shows "read_until cap bs = (takeWhile (\<lambda>b. b \<noteq> 10) bs @ [10], drop (line_len bs) bs)"
proof -
  have "take (line_len bs) (take cap bs) = takeWhile (\<lambda>b. b \<noteq> 10) bs @ [10]"
    using take_line_len [OF assms(1)] assms(2) by (simp add: min_def)
  then have "10 \<in> set (take cap bs)" by (metis in_set_conv_decomp in_set_takeD)
  then show ?thesis using take_line_len [OF assms(1)] by (simp add: read_until_eq)
qed

lemma read_until_long:
  assumes "10 \<in> set bs" "cap < line_len bs"
  shows "read_until cap bs = (take cap bs, drop cap bs)" "length (take cap bs) = cap" "10 \<in> set (drop cap bs)"
    "10 \<notin> set (take cap bs)"
    "skip_to_newline 0 (drop cap bs) = Some (line_len bs - cap, drop (line_len bs) bs)"
proof -
  show len: "length (take cap bs) = cap" using line_len_le [OF assms(1)] assms(2) by simp
  show out: "10 \<notin> set (take cap bs)"
  proof
    assume "10 \<in> set (take cap bs)"
    then have "line_len bs = line_len (take cap bs)"
      using takeWhile_append1 [of 10 "take cap bs" "\<lambda>b. b \<noteq> 10" "drop cap bs"] by (simp add: line_len_def)
    then show False using line_len_le [OF \<open>10 \<in> set (take cap bs)\<close>] assms(2) len by simp
  qed
  show "read_until cap bs = (take cap bs, drop cap bs)" using out by (simp add: read_until_eq)
  show nl: "10 \<in> set (drop cap bs)" using assms(1) out by (metis UnE append_take_drop_id set_append)
  have "line_len bs = cap + line_len (drop cap bs)" using line_len_append [OF out, of "drop cap bs"] len by simp
  then show "skip_to_newline 0 (drop cap bs) = Some (line_len bs - cap, drop (line_len bs) bs)"
    using nl by (simp add: skip_to_newline_eq add.commute)
qed

lemma read_loop_lines:
  "read_loop max_lines budget bs lines discarded r = take_lines max_lines budget (complete_lines [] bs) lines discarded r"
proof (induction "length bs" arbitrary: bs lines discarded r rule: less_induct)
  case less
  let ?l = "takeWhile (\<lambda>b. b \<noteq> 10) bs" and ?rest = "drop (line_len bs) bs"
  show ?case
  proof (cases "10 \<in> set bs \<and> lines < max_lines")
    case False
    then consider "10 \<notin> set bs" | "10 \<in> set bs" "\<not> lines < max_lines" by blast
    then show ?thesis
    proof cases
      case 1
      then show ?thesis by (simp add: complete_lines_none read_loop_no_newline)
    next
      case 2
      then show ?thesis by (subst read_loop.simps) (simp add: complete_lines_first)
    qed
  next
    case True
    then have shorter: "length ?rest < length bs" by (cases bs) (auto simp: line_len_def)
    show ?thesis
    proof (cases "MAX_LINE_BYTES < length ?l")
      case False
      then have "read_until (MAX_LINE_BYTES + 1) bs = (?l @ [10], ?rest)"
        using True by (intro read_until_short) (simp_all add: line_len_def)
      then show ?thesis using True False less [OF shorter]
        by (subst read_loop.simps) (simp add: complete_lines_first entry_of_def)
    next
      case long: True
      let ?buf = "take (MAX_LINE_BYTES + 1) bs"
      have cap: "MAX_LINE_BYTES + 1 < line_len bs" using long by (simp add: line_len_def)
      note ru = read_until_long [OF conjunct1 [OF True] cap]
      have "?buf \<noteq> []" using True by (cases bs) simp_all
      then have "last ?buf \<noteq> 10" by (rule last_not_in [OF ru(4)])
      moreover have "length ?buf + (line_len bs - (MAX_LINE_BYTES + 1)) = length ?l + 1"
        using ru(2) cap by (simp add: line_len_def)
      ultimately have "read_loop max_lines budget bs lines discarded r
          = read_loop max_lines budget ?rest lines (discarded + (length ?l + 1))
              (r\<lparr>lr_consumed := lr_consumed r + (length ?l + 1), lr_entries := lr_entries r @ [Discarded (length ?l + 1)]\<rparr>)"
        using True ru(2) \<open>?buf \<noteq> []\<close>
        by (subst read_loop.simps, unfold ru(1)) (simp del: take_eq_Nil length_take add: ru(5) [simplified])
      then show ?thesis using True long less [OF shorter] by (simp add: complete_lines_first entry_of_def)
    qed
  qed
qed

text \<open>How many lines of the file a read takes, and the spans and lengths it notes for those it returns.\<close>

fun lines_taken :: "nat \<Rightarrow> line_budget \<Rightarrow> bytes list \<Rightarrow> nat \<Rightarrow> nat \<Rightarrow> nat" where
  "lines_taken max_lines budget [] lines taken = 0"
| "lines_taken max_lines budget (l # ls) lines taken =
     (if \<not> lines < max_lines then 0
      else if MAX_LINE_BYTES < length l then Suc (lines_taken max_lines budget ls lines taken)
      else if \<not> (lb_first_is_free budget \<and> lines = 0) \<and> lb_left budget < taken + (length l + 1) then 0
      else Suc (lines_taken max_lines budget ls (lines + 1) (taken + (length l + 1))))"

definition fits :: "bytes \<Rightarrow> bool" where
  "fits l \<longleftrightarrow> length l \<le> MAX_LINE_BYTES"

fun spans_of :: "nat \<Rightarrow> bytes list \<Rightarrow> nat list" where
  "spans_of discarded [] = []"
| "spans_of discarded (l # ls) =
     (if fits l then (discarded + (length l + 1)) # spans_of 0 ls
      else spans_of (discarded + (length l + 1)) ls)"

fun raw_lossy_of :: "nat \<Rightarrow> bytes list \<Rightarrow> (nat \<times> bytes) list" where
  "raw_lossy_of lines [] = []"
| "raw_lossy_of lines (l # ls) =
     (if fits l then (if utf8_valid l then [] else [(lines, l)]) @ raw_lossy_of (lines + 1) ls
      else raw_lossy_of lines ls)"

lemma lines_len_simps [simp]:
  "lines_len [] = 0" "lines_len (l # ls) = length l + 1 + lines_len ls"
  "lines_len (ls @ ms) = lines_len ls + lines_len ms"
  by (simp_all add: lines_len_def)

lemma take_lines_eq:
  defines "k m b ls n r \<equiv> lines_taken m b ls n (lr_line_bytes r)"
  shows "take_lines m b ls n disc r =
     r\<lparr>lr_entries := lr_entries r @ map entry_of (take (k m b ls n r) ls),
       lr_consumed := lr_consumed r + lines_len (take (k m b ls n r) ls),
       lr_line_bytes := lr_line_bytes r + lines_len (filter fits (take (k m b ls n r) ls)),
       lr_budget_hit := (lr_budget_hit r
         \<or> k m b ls n r < length ls \<and> n + length (filter fits (take (k m b ls n r) ls)) < m),
       lr_spans := lr_spans r @ spans_of disc (take (k m b ls n r) ls),
       lr_lens := lr_lens r @ map (\<lambda>l. length l + 1) (filter fits (take (k m b ls n r) ls)),
       lr_raw_lossy := lr_raw_lossy r @ raw_lossy_of n (take (k m b ls n r) ls)\<rparr>"
  unfolding k_def
proof (induction ls arbitrary: n disc r)
  case Nil
  then show ?case by simp
next
  case (Cons l ls)
  consider "\<not> n < m" | "n < m" "\<not> fits l"
    | "n < m" "fits l" "\<not> (lb_first_is_free b \<and> n = 0) \<and> lb_left b < lr_line_bytes r + (length l + 1)"
    | "n < m" "fits l" "lb_first_is_free b" "n = 0"
    | "n < m" "fits l" "\<not> lb_left b < lr_line_bytes r + (length l + 1)"
    by blast
  then show ?case
  proof cases
    case 1
    then show ?thesis by simp
  next
    case 2
    then show ?thesis using Cons.IH by (simp add: fits_def)
  next
    case 3
    then show ?thesis by (simp add: fits_def)
  next
    case 4
    then show ?thesis using Cons.IH by (simp add: fits_def)
  next
    case 5
    then show ?thesis using Cons.IH by (simp add: fits_def)
  qed
qed

lemma lines_taken_le: "lines_taken m b ls n taken \<le> length ls"
  by (induction ls arbitrary: n taken) auto

lemma lines_taken_count:
  "n \<le> m \<Longrightarrow> n + length (filter fits (take (lines_taken m b ls n taken) ls)) \<le> m"
proof (induction ls arbitrary: n taken)
  case (Cons l ls)
  then show ?case using Cons.IH [of "Suc n" "Suc (taken + length l)"] by (cases "fits l") (auto simp: fits_def)
qed simp

text \<open>A file read past some of its lines still has the others.\<close>

lemma complete_lines_drop:
  "k \<le> length (complete_lines [] bs) \<Longrightarrow>
   complete_lines [] (drop (lines_len (take k (complete_lines [] bs))) bs) = drop k (complete_lines [] bs)"
proof (induction k arbitrary: bs)
  case (Suc k)
  then have nl: "10 \<in> set bs" using complete_lines_none by fastforce
  let ?rest = "drop (line_len bs) bs"
  have "drop (lines_len (take (Suc k) (complete_lines [] bs))) bs
      = drop (lines_len (take k (complete_lines [] ?rest))) ?rest"
    by (simp add: complete_lines_first [OF nl] line_len_def add.commute)
  then show ?case using Suc.IH [of ?rest] Suc.prems by (simp add: complete_lines_first [OF nl])
qed simp

lemma lines_len_complete: "lines_len (complete_lines [] bs) \<le> length bs"
proof (induction "length bs" arbitrary: bs rule: less_induct)
  case less
  show ?case
  proof (cases "10 \<in> set bs")
    case True
    then have "length (drop (line_len bs) bs) < length bs" by (cases bs) (auto simp: line_len_def)
    from less [OF this] line_len_le [OF True] show ?thesis
      by (simp add: complete_lines_first [OF True] line_len_def)
  qed (simp add: complete_lines_none)
qed

lemma lines_len_take: "lines_len (take k ls) \<le> lines_len ls"
  using lines_len_simps(3) [of "take k ls" "drop k ls"] by simp

text \<open>What has been appended to a file adds lines after those it had.\<close>

lemma complete_lines_append:
  "\<exists>new. complete_lines acc (bs @ cs) = complete_lines acc bs @ new"
  by (induction bs arbitrary: acc) auto

section \<open>Lossy decoding\<close>

lemma utf8_lossy_valid: "utf8_valid bs \<Longrightarrow> utf8_lossy bs = bs"
proof (induction bs rule: utf8_lossy.induct)
  case (2 b rest)
  obtain n ok where c: "utf8_chunk b rest = (n, ok)" by force
  then show ?case using 2 by simp
qed simp

lemma ascii_valid: "\<forall>b \<in> set bs. b < 0x80 \<Longrightarrow> utf8_valid bs"
proof (induction bs)
  case (Cons b bs)
  then have "utf8_chunk b bs = (1, True)" by (simp add: utf8_chunk_def utf8_width_def)
  then show ?case using Cons by simp
qed simp

end
