(* ===== verification/Tailer.thy ===== *)
theory Tailer
  imports Log_Lines
begin

text \<open>
  \<open>crates/log-tailer\<close>: the tailer of a sensor's log (\<open>tailer.rs\<close>) with its rotation detection and
  durable position (\<open>cursor.rs\<close>). The files it can reach are a \<open>world\<close>: contents by inode, the names
  of the log and of its rotated copies, and how opening, reading and expanding go; one call sees one
  world. SHA-256 is the parameter \<open>H\<close>, and a gzip file is the bytes its decoder yields. Offsets and
  lengths are natural numbers (a file is shorter than \<open>2\<^sup>6\<^sup>4\<close> bytes).
\<close>

section \<open>The files\<close>

text \<open>\<open>gz_bytes\<close> is what decoding yields before it ends, cleanly or with an error.\<close>

record gz_file =
  gz_opens :: bool
  gz_bytes :: bytes
  gz_clean :: bool

text \<open>Creating the scratch file gives an inode or fails; writing into it fails at a byte, or does not.\<close>

datatype scratch_io = ScratchAt nat | ScratchNoSpace | ScratchFails

datatype expand_io = ExpandOk | ExpandNoSpaceAt nat | ExpandFailsAt nat

text \<open>\<open>wo_denied\<close>: the inode cannot be opened by name. \<open>wo_broken\<close>: reading it fails.\<close>

record world =
  wo_files :: "nat \<Rightarrow> bytes"
  wo_denied :: "nat \<Rightarrow> bool"
  wo_broken :: "nat \<Rightarrow> bool"
  wo_log :: "nat option"
  wo_rotated :: "nat \<Rightarrow> nat option"
  wo_gz :: "nat \<Rightarrow> gz_file option"
  wo_free :: "nat option"
  wo_scratch :: scratch_io
  wo_expand :: expand_io

text \<open>An open descriptor: of an inode, or of an unlinked scratch file with its contents.\<close>

datatype log_file = OnDisk nat | Expanded nat bytes

fun file_ino :: "log_file \<Rightarrow> nat" where
  "file_ino (OnDisk i) = i"
| "file_ino (Expanded i c) = i"

fun contents :: "world \<Rightarrow> log_file \<Rightarrow> bytes" where
  "contents d (OnDisk i) = wo_files d i"
| "contents d (Expanded i c) = c"

definition file_len :: "world \<Rightarrow> log_file \<Rightarrow> nat" where
  "file_len d f = length (contents d f)"

definition open_inode :: "world \<Rightarrow> nat option \<Rightarrow> log_file option" where
  "open_inode d name = (case name of Some i \<Rightarrow> if wo_denied d i then None else Some (OnDisk i) | None \<Rightarrow> None)"

definition log_len :: "world \<Rightarrow> nat option" where
  "log_len d = map_option (\<lambda>i. length (wo_files d i)) (wo_log d)"

section \<open>The cursor\<close>

record cursor_state =
  cu_inode :: nat
  cu_offset :: nat
  cu_fingerprint :: bytes
  cu_fingerprint_len :: "nat option"

datatype rotation_event = NoRotation | Truncated | InodeChanged | Replaced

definition zero_digest :: bytes where "zero_digest = replicate 32 0"

definition read_head :: "world \<Rightarrow> bytes option" where
  "read_head d =
     (case open_inode d (wo_log d) of
        None \<Rightarrow> None
      | Some f \<Rightarrow> if wo_broken d (file_ino f) then None else Some (take 256 (contents d f)))"

definition head_matches :: "(bytes \<Rightarrow> bytes) \<Rightarrow> cursor_state \<Rightarrow> bytes \<Rightarrow> bool" where
  "head_matches H s head =
     (case cu_fingerprint_len s of
        None \<Rightarrow> H head = cu_fingerprint s
      | Some n \<Rightarrow> n \<noteq> 0 \<and> n \<le> length head \<and> H (take n head) = cu_fingerprint s)"

definition fingerprint_with_len :: "(bytes \<Rightarrow> bytes) \<Rightarrow> world \<Rightarrow> bytes \<times> nat" where
  "fingerprint_with_len H d =
     (case read_head d of Some head \<Rightarrow> (H head, length head) | None \<Rightarrow> (zero_digest, 0))"

definition get_inode :: "world \<Rightarrow> nat" where
  "get_inode d = (case wo_log d of Some i \<Rightarrow> i | None \<Rightarrow> 0)"

definition detect_rotation :: "(bytes \<Rightarrow> bytes) \<Rightarrow> world \<Rightarrow> cursor_state \<Rightarrow> rotation_event" where
  "detect_rotation H d s =
     (case wo_log d of
        None \<Rightarrow> NoRotation
      | Some i \<Rightarrow>
          if i \<noteq> cu_inode s then InodeChanged
          else if length (wo_files d i) < cu_offset s then Truncated
          else case read_head d of
                 Some head \<Rightarrow>
                   if head_matches H s head then NoRotation
                   else if cu_fingerprint_len s = Some 0 \<and> head = [] then NoRotation
                   else Replaced
               | None \<Rightarrow> Replaced)"

text \<open>A cursor file as \<open>load\<close> sees it, and the directory it is in: the file under the resolved name,
  the one under the name as configured, whether these are one name, and which was written later.\<close>

datatype cursor_file = NoCursor | CursorUnreadable | CursorCorrupt | CursorStored cursor_state

record cursor_dir =
  cd_canonical :: cursor_file
  cd_legacy :: cursor_file
  cd_same :: bool
  cd_legacy_newer :: bool

fun read_cursor :: "cursor_file \<Rightarrow> unit + cursor_state option option" where
  "read_cursor NoCursor = Inr None"
| "read_cursor CursorUnreadable = Inl ()"
| "read_cursor CursorCorrupt = Inr (Some None)"
| "read_cursor (CursorStored s) = Inr (Some (Some s))"

definition cursor_save :: "bool \<Rightarrow> cursor_state \<Rightarrow> cursor_dir \<Rightarrow> bool \<times> cursor_dir" where
  "cursor_save io_ok s cd = (if io_ok then (True, cd\<lparr>cd_canonical := CursorStored s\<rparr>) else (False, cd))"

definition adopt_legacy ::
  "bool \<Rightarrow> bool \<Rightarrow> cursor_state option \<Rightarrow> cursor_dir \<Rightarrow> cursor_state option \<times> cursor_dir" where
  "adopt_legacy save_ok remove_ok parsed cd =
     (case parsed of
        None \<Rightarrow> (None, cd)
      | Some s \<Rightarrow>
          let (saved, cd) = cursor_save save_ok s cd
          in (Some s, if saved \<and> remove_ok then cd\<lparr>cd_legacy := NoCursor\<rparr> else cd))"

definition cursor_load ::
  "bool \<Rightarrow> bool \<Rightarrow> cursor_dir \<Rightarrow> (unit + cursor_state option) \<times> cursor_dir" where
  "cursor_load save_ok remove_ok cd =
     (case read_cursor (cd_canonical cd) of
        Inl e \<Rightarrow> (Inl e, cd)
      | Inr current \<Rightarrow>
          if cd_same cd then (Inr (case current of Some s \<Rightarrow> s | None \<Rightarrow> None), cd)
          else case read_cursor (cd_legacy cd) of
                 Inl e \<Rightarrow> (Inl e, cd)
               | Inr old \<Rightarrow>
                   (case (current, old) of
                      (Some c, None) \<Rightarrow> (Inr c, cd)
                    | (None, None) \<Rightarrow> (Inr None, cd)
                    | (None, Some l) \<Rightarrow>
                        (let (s, cd) = adopt_legacy save_ok remove_ok l cd in (Inr s, cd))
                    | (Some c, Some l) \<Rightarrow>
                        if cd_legacy_newer cd
                        then (let (s, cd) = adopt_legacy save_ok remove_ok l cd in (Inr s, cd))
                        else (Inr c, if remove_ok then cd\<lparr>cd_legacy := NoCursor\<rparr> else cd)))"

section \<open>Rotated generations\<close>

datatype loss_reason =
    NoRotatedCopy | CopyCompressed | CopyUnreadable | OtherContent | EndsBeforeOffset | NoDirectory
  | NoSpace | FreeSpaceUnknown | NoScratchSpace | GzCorrupt | ExpandFailed | OverExpansionCap

record generation =
  ge_file :: log_file
  ge_offset :: nat
  ge_fingerprint :: bytes
  ge_fingerprint_len :: nat
  ge_is_stored :: bool

record found =
  fo_generations :: "generation list"
  fo_newer_missing :: "loss_reason option"

datatype gz_mode = Probe | Expand | Nowhere

datatype gzip_match = Absent | Present | Materialized log_file nat bytes

definition GZIP_EXPANSION_CAP :: nat where "GZIP_EXPANSION_CAP = 512 * 1024 * 1024"
definition EXPANSION_RESERVE :: nat where "EXPANSION_RESERVE = 512 * 1024 * 1024"

definition open_generation :: "world \<Rightarrow> nat \<Rightarrow> loss_reason + log_file \<times> nat \<times> bytes" where
  "open_generation d n =
     (case open_inode d (wo_rotated d n) of
        None \<Rightarrow> Inl (if wo_gz d n \<noteq> None then CopyCompressed else NoRotatedCopy)
      | Some f \<Rightarrow>
          if wo_broken d (file_ino f) then Inl CopyUnreadable
          else Inr (f, file_len d f, take 256 (contents d f)))"

definition own_fingerprint :: "(bytes \<Rightarrow> bytes) \<Rightarrow> bytes \<Rightarrow> bytes \<times> nat" where
  "own_fingerprint H head = (H head, length head)"

definition stored_fingerprint :: "cursor_state \<Rightarrow> bytes \<Rightarrow> bytes \<times> nat" where
  "stored_fingerprint s head =
     (cu_fingerprint s, case cu_fingerprint_len s of Some n \<Rightarrow> n | None \<Rightarrow> length head)"

text \<open>The bytes the decoder is asked for end one past the cap, where an error further on is not seen.\<close>

definition match_gzip_generation ::
  "(bytes \<Rightarrow> bytes) \<Rightarrow> world \<Rightarrow> cursor_state \<Rightarrow> gz_mode \<Rightarrow> loss_reason + gzip_match" where
  "match_gzip_generation H d s mode =
     (case wo_gz d 2 of
        None \<Rightarrow> Inr Absent
      | Some g \<Rightarrow>
          let head = take 256 (gz_bytes g); out = take (GZIP_EXPANSION_CAP + 1) (gz_bytes g)
          in if \<not> gz_opens g \<or> length head < 256 \<and> \<not> gz_clean g \<or> \<not> head_matches H s head then Inr Absent
             else case mode of
               Probe \<Rightarrow> Inr Present
             | Nowhere \<Rightarrow> Inl NoDirectory
             | Expand \<Rightarrow>
                 (case wo_free d of
                    None \<Rightarrow> Inl FreeSpaceUnknown
                  | Some free \<Rightarrow>
                      if free < GZIP_EXPANSION_CAP + EXPANSION_RESERVE then Inl NoSpace
                      else case wo_scratch d of
                        ScratchNoSpace \<Rightarrow> Inl NoSpace
                      | ScratchFails \<Rightarrow> Inl NoScratchSpace
                      | ScratchAt ino \<Rightarrow>
                          if (case wo_expand d of ExpandNoSpaceAt n \<Rightarrow> n < length out | _ \<Rightarrow> False) then Inl NoSpace
                          else if (case wo_expand d of ExpandFailsAt n \<Rightarrow> n < length out | _ \<Rightarrow> False)
                          then Inl ExpandFailed
                          else if length out \<le> GZIP_EXPANSION_CAP \<and> \<not> gz_clean g then Inl GzCorrupt
                          else if GZIP_EXPANSION_CAP < length out then Inl OverExpansionCap
                          else if length out < cu_offset s then Inl EndsBeforeOffset
                          else Inr (Materialized (Expanded ino out) (length out) head)))"

text \<open>The generations after \<open><log>.<n>\<close>, oldest first, and the reason when one cannot be opened; \<open>m\<close>
  counts down from \<open>n - 1\<close>.\<close>

fun push_newer ::
  "(bytes \<Rightarrow> bytes) \<Rightarrow> world \<Rightarrow> nat \<Rightarrow> generation list \<Rightarrow> loss_reason option
   \<Rightarrow> generation list \<times> loss_reason option" where
  "push_newer H d 0 out missing = (out, missing)"
| "push_newer H d (Suc m) out missing =
     (case open_generation d (Suc m) of
        Inr (f, len, head) \<Rightarrow>
          push_newer H d m
            (if 0 < len
             then out @ [\<lparr>ge_file = f, ge_offset = 0, ge_fingerprint = fst (own_fingerprint H head),
                          ge_fingerprint_len = snd (own_fingerprint H head), ge_is_stored = False\<rparr>]
             else out) missing
      | Inl reason \<Rightarrow> push_newer H d m out (Some reason))"

definition found_at ::
  "(bytes \<Rightarrow> bytes) \<Rightarrow> world \<Rightarrow> cursor_state \<Rightarrow> nat \<Rightarrow> log_file \<Rightarrow> nat \<Rightarrow> bytes \<Rightarrow> found" where
  "found_at H d s n f len head =
     (let stored = (if cu_offset s < len
                    then [\<lparr>ge_file = f, ge_offset = cu_offset s, ge_fingerprint = fst (stored_fingerprint s head),
                           ge_fingerprint_len = snd (stored_fingerprint s head), ge_is_stored = True\<rparr>]
                    else []);
          (gens, missing) = push_newer H d (n - 1) stored None
      in \<lparr>fo_generations = gens, fo_newer_missing = missing\<rparr>)"

fun find_plain ::
  "(bytes \<Rightarrow> bytes) \<Rightarrow> world \<Rightarrow> cursor_state \<Rightarrow> nat list \<Rightarrow> loss_reason \<Rightarrow> loss_reason + found" where
  "find_plain H d s [] why = Inl why"
| "find_plain H d s (n # ns) why =
     (case open_generation d n of
        Inl reason \<Rightarrow> find_plain H d s ns (if n = 1 then reason else why)
      | Inr (f, len, head) \<Rightarrow>
          if \<not> head_matches H s head then find_plain H d s ns (if n = 1 then OtherContent else why)
          else if len < cu_offset s then find_plain H d s ns (if n = 1 then EndsBeforeOffset else why)
          else Inr (found_at H d s n f len head))"

definition find_generations ::
  "(bytes \<Rightarrow> bytes) \<Rightarrow> world \<Rightarrow> cursor_state \<Rightarrow> gz_mode \<Rightarrow> loss_reason + found" where
  "find_generations H d s mode =
     (case find_plain H d s [1, 2] NoRotatedCopy of
        Inr found \<Rightarrow> Inr found
      | Inl why \<Rightarrow>
          (case match_gzip_generation H d s mode of
             Inr Absent \<Rightarrow> Inl why
           | Inr Present \<Rightarrow> Inr \<lparr>fo_generations = [], fo_newer_missing = None\<rparr>
           | Inr (Materialized f len head) \<Rightarrow> Inr (found_at H d s 2 f len head)
           | Inl reason \<Rightarrow> Inl reason))"

section \<open>The tailer\<close>

record uncommitted_read =
  un_offset :: nat
  un_drain_offsets :: "nat list"
  un_exhausted :: "log_file list"
  un_spans :: "(nat \<times> nat) list"
  un_lens :: "nat list"
  un_raw_lossy :: "(nat \<times> bytes) list"
  un_snapshot_drains :: nat
  un_spans_valid :: bool

definition record_read :: "nat \<Rightarrow> line_read \<Rightarrow> uncommitted_read \<Rightarrow> uncommitted_read" where
  "record_read source r u =
     u\<lparr>un_spans := un_spans u @ map (Pair source) (lr_spans r),
       un_lens := un_lens u @ lr_lens r,
       un_raw_lossy := un_raw_lossy u @ map (\<lambda>(i, raw). (length (un_spans u) + i, raw)) (lr_raw_lossy r)\<rparr>"

record batch_line =
  bl_offset :: nat
  bl_raw :: "bytes option"

text \<open>\<open>ta_cursor\<close> says whether the tailer has a cursor; \<open>ta_loss\<close> is the events and bytes lost.\<close>

record log_tailer =
  ta_cursor :: bool
  ta_state :: cursor_state
  ta_file :: "log_file option"
  ta_pending_drains :: "(log_file \<times> nat) list"
  ta_last_known_size :: nat
  ta_uncommitted :: "uncommitted_read option"
  ta_size_observed :: bool
  ta_resumes :: "(nat \<times> bytes \<times> nat) list"
  ta_loss :: "nat \<times> nat"

definition with_state :: "world \<Rightarrow> bool \<Rightarrow> cursor_state \<Rightarrow> log_tailer" where
  "with_state d has_cursor s =
     \<lparr>ta_cursor = has_cursor, ta_state = s, ta_file = None, ta_pending_drains = [],
      ta_last_known_size = (case log_len d of Some n \<Rightarrow> n | None \<Rightarrow> 0), ta_uncommitted = None,
      ta_size_observed = False, ta_resumes = [], ta_loss = (0, 0)\<rparr>"

definition zero_state :: cursor_state where
  "zero_state = \<lparr>cu_inode = 0, cu_offset = 0, cu_fingerprint = zero_digest, cu_fingerprint_len = None\<rparr>"

definition tailer_new :: "bool \<Rightarrow> bool \<Rightarrow> world \<Rightarrow> cursor_dir \<Rightarrow> log_tailer \<times> cursor_dir" where
  "tailer_new save_ok remove_ok d cd =
     (let (loaded, cd) = cursor_load save_ok remove_ok cd
      in (with_state d True (case loaded of Inr (Some s) \<Rightarrow> s | _ \<Rightarrow> zero_state), cd))"

definition end_of_last_complete_line :: "world \<Rightarrow> nat" where
  "end_of_last_complete_line d =
     (case open_inode d (wo_log d) of
        None \<Rightarrow> 0
      | Some f \<Rightarrow>
          let len = file_len d f; window = min len MAX_LINE_BYTES; tail = drop (len - window) (contents d f)
          in if wo_broken d (file_ino f) then len
             else if 10 \<in> set tail then len - length (takeWhile (\<lambda>b. b \<noteq> 10) (rev tail))
             else if window = len then 0
             else len)"

datatype start_at = Beginning | End

definition without_cursor :: "(bytes \<Rightarrow> bytes) \<Rightarrow> world \<Rightarrow> start_at \<Rightarrow> log_tailer" where
  "without_cursor H d start =
     with_state d False
       (case start of
          Beginning \<Rightarrow> zero_state
        | End \<Rightarrow> (let (fp, len) = fingerprint_with_len H d
                  in \<lparr>cu_inode = get_inode d, cu_offset = end_of_last_complete_line d, cu_fingerprint = fp,
                      cu_fingerprint_len = Some len\<rparr>))"

definition refresh_last_known_size :: "world \<Rightarrow> log_tailer \<Rightarrow> log_tailer" where
  "refresh_last_known_size d t =
     (case log_len d of
        Some n \<Rightarrow> t\<lparr>ta_last_known_size := n, ta_size_observed := True\<rparr>
      | None \<Rightarrow> t)"

definition stamp_fingerprint :: "(bytes \<Rightarrow> bytes) \<Rightarrow> world \<Rightarrow> log_tailer \<Rightarrow> log_tailer" where
  "stamp_fingerprint H d t =
     (let (fp, len) = fingerprint_with_len H d
      in t\<lparr>ta_state := (ta_state t)\<lparr>cu_fingerprint := fp, cu_fingerprint_len := Some len\<rparr>\<rparr>)"

definition reset_to_current_file :: "(bytes \<Rightarrow> bytes) \<Rightarrow> world \<Rightarrow> log_tailer \<Rightarrow> log_tailer" where
  "reset_to_current_file H d t =
     (stamp_fingerprint H d
       (t\<lparr>ta_state := (ta_state t)\<lparr>cu_offset := 0\<rparr>,
          ta_uncommitted := map_option (\<lambda>u. u\<lparr>un_offset := 0\<rparr>) (ta_uncommitted t)\<rparr>))\<lparr>ta_file := None\<rparr>"

definition record_loss :: "log_tailer \<Rightarrow> log_tailer" where
  "record_loss t =
     (let estimate = (if ta_size_observed t then Some (ta_last_known_size t - cu_offset (ta_state t)) else None)
      in if estimate = Some 0 then t
         else t\<lparr>ta_loss := (fst (ta_loss t) + 1,
                          snd (ta_loss t) + (case estimate of Some n \<Rightarrow> n | None \<Rightarrow> 0))\<rparr>)"

definition queue_generation :: "generation \<Rightarrow> log_tailer \<Rightarrow> log_tailer" where
  "queue_generation g t =
     t\<lparr>ta_uncommitted := map_option (\<lambda>u. u\<lparr>un_drain_offsets := un_drain_offsets u
            @ [if ge_is_stored g then un_offset u else 0]\<rparr>) (ta_uncommitted t),
       ta_resumes := ta_resumes t @ [(file_ino (ge_file g), ge_fingerprint g, ge_fingerprint_len g)],
       ta_pending_drains := ta_pending_drains t @ [(ge_file g, ge_offset g)]\<rparr>"

definition recover_copytruncated :: "(bytes \<Rightarrow> bytes) \<Rightarrow> world \<Rightarrow> log_tailer \<Rightarrow> log_tailer" where
  "recover_copytruncated H d t =
     (let (generations, lost) =
            (case find_generations H d (ta_state t) (if ta_cursor t then Expand else Nowhere) of
               Inr found \<Rightarrow> (fo_generations found, fo_newer_missing found)
             | Inl reason \<Rightarrow> ([], Some reason));
          queued = map (file_ino \<circ> fst) (ta_pending_drains t);
          t = t\<lparr>ta_resumes := filter (\<lambda>(ino, _). ino \<in> set queued) (ta_resumes t)\<rparr>;
          t = fold queue_generation generations t;
          t = (if lost \<noteq> None then record_loss t else t)
      in reset_to_current_file H d t)"

definition FINGERPRINT_STABLE_SIZE :: nat where "FINGERPRINT_STABLE_SIZE = 256"

definition maybe_false_positive_replaced :: "world \<Rightarrow> log_tailer \<Rightarrow> bool" where
  "maybe_false_positive_replaced d t \<longleftrightarrow>
     ta_last_known_size t < FINGERPRINT_STABLE_SIZE
     \<and> (case log_len d of Some n \<Rightarrow> ta_last_known_size t < n | None \<Rightarrow> False)"

definition is_err :: "'e + 'a \<Rightarrow> bool" where
  "is_err r = (case r of Inl _ \<Rightarrow> True | Inr _ \<Rightarrow> False)"

definition handle_rotation :: "(bytes \<Rightarrow> bytes) \<Rightarrow> world \<Rightarrow> log_tailer \<Rightarrow> log_tailer" where
  "handle_rotation H d t =
     (case detect_rotation H d (ta_state t) of
        NoRotation \<Rightarrow>
          (case cu_fingerprint_len (ta_state t) of
             Some n \<Rightarrow>
               if n < 256
               then let (fp, len) = fingerprint_with_len H d
                    in if n < len
                       then t\<lparr>ta_state := (ta_state t)\<lparr>cu_fingerprint := fp, cu_fingerprint_len := Some len\<rparr>\<rparr>
                       else t
               else t
           | None \<Rightarrow> t)
      | Truncated \<Rightarrow> recover_copytruncated H d t
      | Replaced \<Rightarrow>
          if is_err (find_generations H d (ta_state t) Probe) \<and> maybe_false_positive_replaced d t
          then stamp_fingerprint H d t
          else recover_copytruncated H d t
      | InodeChanged \<Rightarrow>
          (let t = (case ta_file t of
                      Some f \<Rightarrow>
                        t\<lparr>ta_file := None,
                          ta_uncommitted := map_option (\<lambda>u. u\<lparr>un_drain_offsets := un_drain_offsets u
                            @ [un_offset u]\<rparr>) (ta_uncommitted t),
                          ta_pending_drains := ta_pending_drains t @ [(f, cu_offset (ta_state t))]\<rparr>
                    | None \<Rightarrow> t);
               t = t\<lparr>ta_state := (ta_state t)\<lparr>cu_inode := get_inode d\<rparr>\<rparr>
           in reset_to_current_file H d t))"

definition empty_read :: line_read where
  "empty_read = \<lparr>lr_entries = [], lr_consumed = 0, lr_line_bytes = 0, lr_budget_hit = False, lr_spans = [],
     lr_lens = [], lr_raw_lossy = []\<rparr>"

definition read_lines_from :: "world \<Rightarrow> log_file \<Rightarrow> nat \<Rightarrow> nat \<Rightarrow> line_budget \<Rightarrow> unit + line_read" where
  "read_lines_from d f start_offset max_lines budget =
     (if wo_broken d (file_ino f) then Inl ()
      else Inr (read_loop max_lines budget (drop start_offset (contents d f)) 0 0 empty_read))"

text \<open>The loop over the rotated-out files. A file that was not read to its end ends the loop, since the
  batch is then full: \<open>got = want\<close>, or the byte budget was hit.\<close>

record drain_state =
  ds_entries :: "tail_entry list"
  ds_line_count :: nat
  ds_bytes_taken :: nat
  ds_budget_hit :: bool
  ds_uncommitted :: uncommitted_read
  ds_drains :: "(log_file \<times> nat) list"

fun drain_loop :: "world \<Rightarrow> nat \<Rightarrow> nat \<Rightarrow> (log_file \<times> nat) list \<Rightarrow> drain_state \<Rightarrow> drain_state" where
  "drain_loop d max_lines max_bytes [] s = s\<lparr>ds_drains := []\<rparr>"
| "drain_loop d max_lines max_bytes ((f, off) # drains) s =
     (if \<not> (ds_line_count s < max_lines \<and> \<not> ds_budget_hit s) then s\<lparr>ds_drains := (f, off) # drains\<rparr>
      else let want = max_lines - ds_line_count s; u = ds_uncommitted s
           in case read_lines_from d f off want
                     \<lparr>lb_left = max_bytes - ds_bytes_taken s, lb_first_is_free = (ds_line_count s = 0)\<rparr> of
                Inr r \<Rightarrow>
                  (let got = count_lines (lr_entries r);
                       u = record_read (length (un_exhausted u)) r u;
                       s = s\<lparr>ds_entries := ds_entries s @ lr_entries r,
                             ds_line_count := ds_line_count s + got,
                             ds_bytes_taken := ds_bytes_taken s + lr_line_bytes r,
                             ds_budget_hit := lr_budget_hit r,
                             ds_uncommitted := u\<rparr>
                   in if got < want \<and> \<not> lr_budget_hit r
                      then drain_loop d max_lines max_bytes drains
                             (s\<lparr>ds_uncommitted := u\<lparr>un_exhausted := un_exhausted u @ [f]\<rparr>\<rparr>)
                      else s\<lparr>ds_drains := (f, off + lr_consumed r) # drains\<rparr>)
              | Inl _ \<Rightarrow>
                  drain_loop d max_lines max_bytes drains
                    (s\<lparr>ds_uncommitted := u\<lparr>un_exhausted := un_exhausted u @ [f]\<rparr>\<rparr>))"

definition begin_batch :: "log_tailer \<Rightarrow> uncommitted_read" where
  "begin_batch t =
     (case ta_uncommitted t of
        Some u \<Rightarrow> u\<lparr>un_spans_valid := False\<rparr>
      | None \<Rightarrow> \<lparr>un_offset = cu_offset (ta_state t), un_drain_offsets = map snd (ta_pending_drains t),
                un_exhausted = [], un_spans = [], un_lens = [], un_raw_lossy = [],
                un_snapshot_drains = length (ta_pending_drains t), un_spans_valid = True\<rparr>)"

definition advance :: "nat \<Rightarrow> log_tailer \<Rightarrow> log_tailer" where
  "advance n t = t\<lparr>ta_state := (ta_state t)\<lparr>cu_offset := cu_offset (ta_state t) + n\<rparr>\<rparr>"

definition read_entries ::
  "(bytes \<Rightarrow> bytes) \<Rightarrow> world \<Rightarrow> nat \<Rightarrow> nat \<Rightarrow> log_tailer \<Rightarrow> tail_entry list \<times> log_tailer" where
  "read_entries H d max_lines max_bytes t =
     (if max_lines = 0 then ([], t)
      else let t = handle_rotation H d t;
               s = drain_loop d max_lines max_bytes (ta_pending_drains t)
                     \<lparr>ds_entries = [], ds_line_count = 0, ds_bytes_taken = 0, ds_budget_hit = False,
                      ds_uncommitted = begin_batch t, ds_drains = []\<rparr>;
               t = t\<lparr>ta_pending_drains := ds_drains s, ta_uncommitted := Some (ds_uncommitted s)\<rparr>
           in if max_lines \<le> ds_line_count s \<or> ds_budget_hit s
              then (ds_entries s, refresh_last_known_size d t)
              else case open_inode d (wo_log d) of
                     None \<Rightarrow> (ds_entries s, t)
                   | Some f \<Rightarrow>
                       (let remaining = max_lines - ds_line_count s;
                            budget = \<lparr>lb_left = max_bytes - ds_bytes_taken s,
                                      lb_first_is_free = (ds_line_count s = 0)\<rparr>;
                            u = ds_uncommitted s;
                            (es, t) = (case read_lines_from d f (cu_offset (ta_state t)) remaining budget of
                                   Inr r \<Rightarrow>
                                     (lr_entries r,
                                      (advance (lr_consumed r) t)\<lparr>ta_uncommitted :=
                                         Some (record_read (un_snapshot_drains u) r u)\<rparr>)
                                 | Inl _ \<Rightarrow> ([], t))
                        in (ds_entries s @ es, refresh_last_known_size d (t\<lparr>ta_file := Some f\<rparr>))))"

definition read_batch_bounded ::
  "(bytes \<Rightarrow> bytes) \<Rightarrow> world \<Rightarrow> nat \<Rightarrow> nat \<Rightarrow> log_tailer \<Rightarrow> bytes list \<times> log_tailer" where
  "read_batch_bounded H d max_lines max_bytes t =
     (let (entries, t) = read_entries H d max_lines max_bytes t
      in (List.map_filter (\<lambda>e. case e of Line l \<Rightarrow> Some l | Discarded n \<Rightarrow> None) entries, t))"

definition commit_batch :: "log_tailer \<Rightarrow> log_tailer" where
  "commit_batch t = t\<lparr>ta_uncommitted := None\<rparr>"

text \<open>\<open>zip_offsets\<close> moves the queued drains back; a drain with no saved offset keeps its own.\<close>

fun zip_offsets :: "(log_file \<times> nat) list \<Rightarrow> nat list \<Rightarrow> (log_file \<times> nat) list" where
  "zip_offsets ((f, off) # drains) (saved # offs) = (f, saved) # zip_offsets drains offs"
| "zip_offsets drains offs = drains"

definition rewind_batch :: "log_tailer \<Rightarrow> log_tailer" where
  "rewind_batch t =
     (case ta_uncommitted t of
        None \<Rightarrow> t
      | Some u \<Rightarrow>
          t\<lparr>ta_uncommitted := None,
            ta_pending_drains := zip (un_exhausted u) (un_drain_offsets u)
              @ zip_offsets (ta_pending_drains t) (drop (length (un_exhausted u)) (un_drain_offsets u)),
            ta_state := (ta_state t)\<lparr>cu_offset := un_offset u\<rparr>\<rparr>)"

definition move_over :: "nat \<Rightarrow> nat \<times> nat \<Rightarrow> log_tailer \<Rightarrow> log_tailer" where
  "move_over snapshot_drains sp t =
     (case sp of
        (source, n) \<Rightarrow>
          if source < snapshot_drains
          then if source < length (ta_pending_drains t)
               then t\<lparr>ta_pending_drains := (ta_pending_drains t)[source :=
                        (fst (ta_pending_drains t ! source), snd (ta_pending_drains t ! source) + n)]\<rparr>
               else t
          else advance n t)"

definition commit_batch_through :: "(bytes \<Rightarrow> bytes) \<Rightarrow> world \<Rightarrow> nat \<Rightarrow> log_tailer \<Rightarrow> bool \<times> log_tailer" where
  "commit_batch_through H d lines t =
     (case ta_uncommitted t of
        None \<Rightarrow> (False, t)
      | Some u \<Rightarrow>
          if \<not> un_spans_valid u \<or> length (un_spans u) < lines then (False, t)
          else let changed = (case detect_rotation H d (ta_state t) of
                                Truncated \<Rightarrow> True
                              | Replaced \<Rightarrow> \<not> maybe_false_positive_replaced d t
                              | _ \<Rightarrow> False)
               in if changed \<and> is_err (find_generations H d (ta_state t) Probe) then (False, t)
                  else (True, fold (move_over (un_snapshot_drains u)) (take lines (un_spans u)) (rewind_batch t)))"

text \<open>\<open>None\<close> also where a drain has no saved offset.\<close>

definition uncommitted_line :: "nat \<Rightarrow> log_tailer \<Rightarrow> batch_line option" where
  "uncommitted_line index t =
     (case ta_uncommitted t of
        None \<Rightarrow> None
      | Some u \<Rightarrow>
          if \<not> un_spans_valid u \<or> length (un_spans u) \<le> index \<or> length (un_lens u) \<noteq> length (un_spans u)
          then None
          else let (source, sp) = un_spans u ! index;
                   before = sum_list (map snd (filter (\<lambda>(s, _). s = source) (take index (un_spans u))))
               in case (if source < un_snapshot_drains u
                        then if source < length (un_drain_offsets u) then Some (un_drain_offsets u ! source) else None
                        else Some (un_offset u)) of
                    None \<Rightarrow> None
                  | Some base \<Rightarrow>
                      Some \<lparr>bl_offset = base + before + (sp - un_lens u ! index),
                            bl_raw = map_option snd (find (\<lambda>(i, _). i = index) (un_raw_lossy u))\<rparr>)"

definition unread_past :: "nat \<Rightarrow> nat \<Rightarrow> nat" where
  "unread_past len offset = (if len < offset then len else len - offset)"

definition backlog_bytes :: "world \<Rightarrow> log_tailer \<Rightarrow> nat" where
  "backlog_bytes d t =
     sum_list (map (\<lambda>(f, off). file_len d f - off) (ta_pending_drains t))
     + (case ta_file t of
          Some f \<Rightarrow> unread_past (file_len d f) (cu_offset (ta_state t))
        | None \<Rightarrow>
            (case wo_log d of
               Some i \<Rightarrow> if i = cu_inode (ta_state t)
                         then unread_past (length (wo_files d i)) (cu_offset (ta_state t))
                         else length (wo_files d i)
             | None \<Rightarrow> 0))"

definition cursor_to_persist :: "log_tailer \<Rightarrow> cursor_state" where
  "cursor_to_persist t =
     (case ta_pending_drains t of
        [] \<Rightarrow> ta_state t
      | (f, offset) # _ \<Rightarrow>
          (case find (\<lambda>(ino, _). ino = file_ino f) (ta_resumes t) of
             None \<Rightarrow> ta_state t
           | Some (_, fp, len) \<Rightarrow>
               \<lparr>cu_inode = cu_inode (ta_state t), cu_offset = offset, cu_fingerprint = fp,
                cu_fingerprint_len = Some len\<rparr>))"

definition persist_cursor :: "bool \<Rightarrow> log_tailer \<Rightarrow> cursor_dir \<Rightarrow> bool \<times> cursor_dir" where
  "persist_cursor io_ok t cd = (if ta_cursor t then cursor_save io_ok (cursor_to_persist t) cd else (False, cd))"

end
