(* ===== verification/Tail_Queue.thy ===== *)
theory Tail_Queue
  imports Tailer "HOL-Library.Sublist"
begin

text \<open>
  The tailer as a queue of lines. What is left to read is the lines of the queued drains and of the file
  the state points into (\<open>sources\<close>); a read takes a prefix of them (\<open>read_entries_step\<close>), a rewind puts
  it back (\<open>rewind_read_step\<close>), and committing a prefix leaves exactly the lines after it
  (\<open>commit_through_sources\<close>, \<open>moved_lines\<close>).
\<close>

section \<open>Lines of sources\<close>

text \<open>The lines of a source from a position.\<close>

definition source_lines :: "world \<Rightarrow> log_file \<times> nat \<Rightarrow> bytes list" where
  "source_lines d s = complete_lines [] (drop (snd s) (contents d (fst s)))"

definition all_lines :: "world \<Rightarrow> (log_file \<times> nat) list \<Rightarrow> bytes list" where
  "all_lines d ss = concat (map (source_lines d) ss)"

lemma all_lines_simps [simp]:
  "all_lines d [] = []" "all_lines d (s # ss) = source_lines d s @ all_lines d ss"
  "all_lines d (ss @ ss') = all_lines d ss @ all_lines d ss'"
  by (simp_all add: all_lines_def)

section \<open>One read of a source\<close>

definition taken_by :: "nat \<Rightarrow> line_budget \<Rightarrow> bytes list \<Rightarrow> bytes list" where
  "taken_by m b ls = take (lines_taken m b ls 0 0) ls"

lemma taken_by_prefix: "taken_by m b ls = take (length (taken_by m b ls)) ls"
  by (simp add: taken_by_def min_absorb2 lines_taken_le)

lemma read_lines_from_eq:
  "\<not> wo_broken d (file_ino f) \<Longrightarrow> source_lines d (f, off) = ls \<Longrightarrow>
   read_lines_from d f off m b = Inr
     \<lparr>lr_entries = map entry_of (taken_by m b ls), lr_consumed = lines_len (taken_by m b ls),
      lr_line_bytes = lines_len (filter fits (taken_by m b ls)),
      lr_budget_hit = (length (taken_by m b ls) < length ls \<and> length (filter fits (taken_by m b ls)) < m),
      lr_spans = spans_of 0 (taken_by m b ls),
      lr_lens = map (\<lambda>l. length l + 1) (filter fits (taken_by m b ls)),
      lr_raw_lossy = raw_lossy_of 0 (taken_by m b ls)\<rparr>"
  using lines_taken_le [of m b ls 0 0]
  by (simp add: read_lines_from_def read_loop_lines take_lines_eq empty_read_def source_lines_def
      taken_by_def min_def)

lemma taken_by_count: "length (filter fits (taken_by m b ls)) \<le> m"
  using lines_taken_count [of 0 m b ls 0] by (simp add: taken_by_def)

lemma taken_by_all:
  "\<not> (length (taken_by m b ls) < length ls \<and> length (filter fits (taken_by m b ls)) < m) \<Longrightarrow>
   length (filter fits (taken_by m b ls)) < m \<Longrightarrow> taken_by m b ls = ls"
  using taken_by_prefix [of m b ls] by simp

lemma lines_taken_free:
  assumes "0 < m" "lb_first_is_free b" "filter fits (take (lines_taken m b ls 0 taken) ls) = []"
  shows "lines_taken m b ls 0 taken = length ls"
  using assms(3)
proof (induction ls)
  case (Cons l ls)
  show ?case
  proof (cases "fits l")
    case True
    then show ?thesis using Cons.prems assms(1,2) by (simp add: fits_def)
  next
    case False
    then have long: "MAX_LINE_BYTES < length l" by (simp add: fits_def)
    then have "filter fits (take (lines_taken m b ls 0 taken) ls) = []" using Cons.prems assms(1) False by simp
    from Cons.IH [OF this] show ?thesis using long assms(1) by simp
  qed
qed simp

text \<open>The first line of a batch is not held to the byte budget.\<close>

lemma taken_by_free:
  assumes "0 < m" "lb_first_is_free b" "filter fits (taken_by m b ls) = []"
  shows "taken_by m b ls = ls"
  using lines_taken_free [OF assms(1,2) assms(3) [unfolded taken_by_def]] by (simp add: taken_by_def)

lemma is_Line_entry_of [simp]: "is_Line (entry_of l) = fits l"
  by (simp add: entry_of_def fits_def)

lemma count_lines_entries [simp]: "count_lines (map entry_of ls) = length (filter fits ls)"
  by (simp add: count_lines_def filter_map comp_def)

lemma source_lines_advance:
  "ts = take (length ts) (source_lines d (f, off)) \<Longrightarrow>
   source_lines d (f, off + lines_len ts) = drop (length ts) (source_lines d (f, off))"
  using complete_lines_drop [of "length ts" "drop off (contents d f)"]
  by (simp add: source_lines_def add.commute) (metis length_take min.bounded_iff nle_le)

section \<open>Reads of several sources\<close>

text \<open>\<open>reads tss lss\<close>: the sources with lines \<open>lss\<close> were read in order, \<open>tss\<close> from each, the next one only
  when the one before was read to its end. \<open>tagged\<close> is the spans noted for them.\<close>

fun reads :: "bytes list list \<Rightarrow> bytes list list \<Rightarrow> bool" where
  "reads [] lss = True"
| "reads (ts # tss) [] = False"
| "reads (ts # tss) (ls # lss) \<longleftrightarrow> prefix ts ls \<and> (tss \<noteq> [] \<longrightarrow> ts = ls) \<and> reads tss lss"

fun tagged :: "nat \<Rightarrow> bytes list list \<Rightarrow> (nat \<times> nat) list" where
  "tagged n [] = []"
| "tagged n (ts # tss) = map (Pair n) (spans_of 0 ts) @ tagged (Suc n) tss"

definition same_batch :: "uncommitted_read \<Rightarrow> uncommitted_read \<Rightarrow> bool" where
  "same_batch u u' \<longleftrightarrow> un_offset u' = un_offset u \<and> un_drain_offsets u' = un_drain_offsets u
     \<and> un_snapshot_drains u' = un_snapshot_drains u \<and> un_spans_valid u' = un_spans_valid u"

definition line_lens :: "bytes list list \<Rightarrow> nat list" where
  "line_lens tss = map (\<lambda>l. length l + 1) (filter fits (concat tss))"

definition drained ::
  "world \<Rightarrow> nat \<Rightarrow> (log_file \<times> nat) list \<Rightarrow> drain_state \<Rightarrow> bytes list list \<Rightarrow> drain_state \<Rightarrow> bool" where
  "drained d m drains s tss s' \<longleftrightarrow>
     ds_entries s' = ds_entries s @ map entry_of (concat tss)
     \<and> all_lines d drains = concat tss @ all_lines d (ds_drains s')
     \<and> ds_line_count s' = ds_line_count s + length (filter fits (concat tss))
     \<and> (ds_line_count s \<le> m \<longrightarrow> ds_line_count s' \<le> m)
     \<and> (ds_line_count s' < m \<longrightarrow> \<not> ds_budget_hit s' \<longrightarrow> ds_drains s' = [] \<and> tss = map (source_lines d) drains)
     \<and> reads tss (map (source_lines d) drains)
     \<and> un_exhausted (ds_uncommitted s') @ map fst (ds_drains s') = un_exhausted (ds_uncommitted s) @ map fst drains
     \<and> un_spans (ds_uncommitted s') = un_spans (ds_uncommitted s) @ tagged (length (un_exhausted (ds_uncommitted s))) tss
     \<and> un_lens (ds_uncommitted s') = un_lens (ds_uncommitted s) @ line_lens tss
     \<and> same_batch (ds_uncommitted s) (ds_uncommitted s')
     \<and> (0 < m \<longrightarrow> ds_line_count s' = 0 \<longrightarrow> \<not> ds_budget_hit s \<longrightarrow> \<not> ds_budget_hit s')"

lemma drainedD:
  assumes "drained d m drains s tss s'"
  shows "ds_entries s' = ds_entries s @ map entry_of (concat tss)"
    "all_lines d drains = concat tss @ all_lines d (ds_drains s')"
    "ds_line_count s' = ds_line_count s + length (filter fits (concat tss))"
    "ds_line_count s \<le> m \<Longrightarrow> ds_line_count s' \<le> m"
    "ds_line_count s' < m \<Longrightarrow> \<not> ds_budget_hit s' \<Longrightarrow> ds_drains s' = []"
    "ds_line_count s' < m \<Longrightarrow> \<not> ds_budget_hit s' \<Longrightarrow> tss = map (source_lines d) drains"
    "reads tss (map (source_lines d) drains)"
    "un_exhausted (ds_uncommitted s') @ map fst (ds_drains s') = un_exhausted (ds_uncommitted s) @ map fst drains"
    "un_spans (ds_uncommitted s') = un_spans (ds_uncommitted s) @ tagged (length (un_exhausted (ds_uncommitted s))) tss"
    "un_lens (ds_uncommitted s') = un_lens (ds_uncommitted s) @ line_lens tss"
    "same_batch (ds_uncommitted s) (ds_uncommitted s')"
    "0 < m \<Longrightarrow> ds_line_count s' = 0 \<Longrightarrow> \<not> ds_budget_hit s \<Longrightarrow> \<not> ds_budget_hit s'"
  using assms unfolding drained_def by blast+

lemma drain_loop_drained:
  assumes "\<forall>(f, off) \<in> set drains. \<not> wo_broken d (file_ino f)"
  shows "\<exists>tss. drained d m drains s tss (drain_loop d m mb drains s)"
  using assms
proof (induction drains arbitrary: s)
  case Nil
  then show ?case by (intro exI [of _ "[]"]) (simp add: drained_def line_lens_def same_batch_def)
next
  case (Cons p drains)
  obtain f off where p: "p = (f, off)" by force
  show ?case
  proof (cases "ds_line_count s < m \<and> \<not> ds_budget_hit s")
    case False
    then show ?thesis
      using p by (intro exI [of _ "[]"]) (auto simp: drained_def line_lens_def same_batch_def)
  next
    case True
    let ?want = "m - ds_line_count s"
    let ?b = "\<lparr>lb_left = mb - ds_bytes_taken s, lb_first_is_free = (ds_line_count s = 0)\<rparr>"
    define ls where "ls = source_lines d (f, off)"
    define ts where "ts = taken_by ?want ?b ls"
    have ok: "\<not> wo_broken d (file_ino f)" "\<forall>(f, off) \<in> set drains. \<not> wo_broken d (file_ino f)"
      using Cons.prems(1) p by auto
    note rd = read_lines_from_eq [OF ok(1), of off ls ?want ?b, folded ts_def, OF ls_def [symmetric]]
    have pre: "prefix ts ls" using taken_by_prefix [of ?want ?b ls] take_is_prefix by (metis ts_def)
    have le: "length (filter fits ts) \<le> ?want" using taken_by_count by (simp add: ts_def)
    show ?thesis
    proof (cases "length (filter fits ts) < ?want \<and> \<not> (length ts < length ls \<and> length (filter fits ts) < ?want)")
      case more: True
      then have all: "ts = ls" unfolding ts_def using taken_by_all by blast
      define s1 where "s1 = (s\<lparr>ds_entries := ds_entries s @ map entry_of ts,
          ds_line_count := ds_line_count s + length (filter fits ts),
          ds_bytes_taken := ds_bytes_taken s + lines_len (filter fits ts), ds_budget_hit := False\<rparr>)"
      obtain u where u: "drain_loop d m mb (p # drains) s = drain_loop d m mb drains (s1\<lparr>ds_uncommitted := u\<rparr>)"
          "un_exhausted u = un_exhausted (ds_uncommitted s) @ [f]" "same_batch (ds_uncommitted s) u"
          "un_spans u = un_spans (ds_uncommitted s) @ map (Pair (length (un_exhausted (ds_uncommitted s)))) (spans_of 0 ts)"
          "un_lens u = un_lens (ds_uncommitted s) @ line_lens [ts]"
        using True more p all
        by (simp add: rd Let_def record_read_def s1_def same_batch_def line_lens_def)
      obtain tss where tss: "drained d m drains (s1\<lparr>ds_uncommitted := u\<rparr>) tss
          (drain_loop d m mb drains (s1\<lparr>ds_uncommitted := u\<rparr>))"
        using Cons.IH [OF ok(2)] by blast
      define s' where "s' = drain_loop d m mb (p # drains) s"
      have tss: "drained d m drains (s1\<lparr>ds_uncommitted := u\<rparr>) tss s'" using tss u(1) by (simp add: s'_def)
      have "source_lines d p = ts" using all by (simp add: p ls_def)
      note here = this
      note D = drainedD [OF tss]
      have "drained d m (p # drains) s (ts # tss) s'"
        unfolding drained_def
      proof (intro conjI impI)
        show "ds_entries s' = ds_entries s @ map entry_of (concat (ts # tss))" using D(1) by (simp add: s1_def)
        show "all_lines d (p # drains) = concat (ts # tss) @ all_lines d (ds_drains s')" using D(2) here by simp
        show "ds_line_count s' = ds_line_count s + length (filter fits (concat (ts # tss)))"
          using D(3) by (simp add: s1_def)
        have "ds_line_count s + length (filter fits ts) \<le> m" using le True by linarith
        then show "ds_line_count s' \<le> m" using D(4) by (simp add: s1_def)
        show "ds_drains s' = []" if "ds_line_count s' < m" "\<not> ds_budget_hit s'" using D(5) [OF that] .
        show "ts # tss = map (source_lines d) (p # drains)" if "ds_line_count s' < m" "\<not> ds_budget_hit s'"
          using D(6) [OF that] here by simp
        show "reads (ts # tss) (map (source_lines d) (p # drains))" using D(7) here by simp
        show "same_batch (ds_uncommitted s) (ds_uncommitted s')" using D(11) u(3) by (simp add: same_batch_def)
        show "un_exhausted (ds_uncommitted s') @ map fst (ds_drains s')
            = un_exhausted (ds_uncommitted s) @ map fst (p # drains)" using D(8) u(2) by (simp add: p)
        show "un_spans (ds_uncommitted s') = un_spans (ds_uncommitted s)
            @ tagged (length (un_exhausted (ds_uncommitted s))) (ts # tss)" using D(9) u(2,4) by simp
        show "un_lens (ds_uncommitted s') = un_lens (ds_uncommitted s) @ line_lens (ts # tss)"
          using D(10) u(5) by (simp add: line_lens_def)
        show "\<not> ds_budget_hit s'" if "0 < m" "ds_line_count s' = 0" using D(12) that by (simp add: s1_def)
      qed
      then have "drained d m (p # drains) s (ts # tss) (drain_loop d m mb (p # drains) s)" by (simp only: s'_def)
      then show ?thesis ..
    next
      case False
      have eq: "drain_loop d m mb (p # drains) s =
          s\<lparr>ds_entries := ds_entries s @ map entry_of ts,
            ds_line_count := ds_line_count s + length (filter fits ts),
            ds_bytes_taken := ds_bytes_taken s + lines_len (filter fits ts),
            ds_budget_hit := (length ts < length ls \<and> length (filter fits ts) < ?want),
            ds_uncommitted := record_read (length (un_exhausted (ds_uncommitted s)))
              (projr (read_lines_from d f off ?want ?b)) (ds_uncommitted s),
            ds_drains := (f, off + lines_len ts) # drains\<rparr>"
        using True False by (auto simp: p rd Let_def)
      have "ls = ts @ source_lines d (f, off + lines_len ts)"
        using source_lines_advance [of ts d f off] pre by (auto simp: ls_def [symmetric] prefix_def)
      note here = this
      have full: "ds_line_count s + length (filter fits ts) = m
          \<or> length ts < length ls \<and> length (filter fits ts) < ?want" using False le True by linarith
      have "drained d m (p # drains) s [ts] (drain_loop d m mb (p # drains) s)"
        unfolding drained_def eq
      proof (intro conjI impI, goal_cases)
        case 2
        then show ?case using here by (simp add: p ls_def)
      next
        case 4
        have "ds_line_count s + length (filter fits ts) \<le> m" using le True by linarith
        then show ?case by simp
      next
        case 12
        then have "filter fits ts = []" "ds_line_count s = 0" "0 < m" by simp_all
        then have "ts = ls" using taken_by_free [of ?want ?b ls] by (simp add: ts_def)
        then show ?case by simp
      qed (use pre full in \<open>simp_all add: p rd record_read_def ls_def [symmetric] line_lens_def same_batch_def\<close>)
      then show ?thesis ..
    qed
  qed
qed

section \<open>A batch\<close>

text \<open>What the tailer has left to read: the queued drains, then the file its state points into.\<close>

definition sources :: "log_tailer \<Rightarrow> (log_file \<times> nat) list" where
  "sources t = ta_pending_drains t @ [(OnDisk (cu_inode (ta_state t)), cu_offset (ta_state t))]"

definition unread :: "world \<Rightarrow> log_tailer \<Rightarrow> tail_entry list" where
  "unread d t = map entry_of (all_lines d (sources t))"

text \<open>The drains can be read and the log is the file the state points into.\<close>

definition settled :: "world \<Rightarrow> log_tailer \<Rightarrow> bool" where
  "settled d t \<longleftrightarrow> (\<forall>(f, off) \<in> set (ta_pending_drains t). \<not> wo_broken d (file_ino f))
     \<and> (\<forall>i. wo_log d = Some i \<longrightarrow> i = cu_inode (ta_state t))"

definition batch_of :: "log_tailer \<Rightarrow> bytes list list \<Rightarrow> uncommitted_read \<Rightarrow> bool" where
  "batch_of t tss u \<longleftrightarrow> un_spans u = tagged 0 tss \<and> un_lens u = line_lens tss
     \<and> un_offset u = cu_offset (ta_state t) \<and> un_drain_offsets u = map snd (ta_pending_drains t)
     \<and> un_snapshot_drains u = length (ta_pending_drains t) \<and> un_spans_valid u"

text \<open>\<open>read_step d m t tss t'\<close>: from the settled tailer \<open>t\<close> a read took \<open>tss\<close> and left \<open>t'\<close>.\<close>

definition read_step :: "world \<Rightarrow> nat \<Rightarrow> log_tailer \<Rightarrow> bytes list list \<Rightarrow> log_tailer \<Rightarrow> bool" where
  "read_step d m t tss t' \<longleftrightarrow>
     all_lines d (sources t) = concat tss @ all_lines d (sources t')
     \<and> reads tss (map (source_lines d) (sources t))
     \<and> length (filter fits (concat tss)) \<le> m
     \<and> (\<exists>u. ta_uncommitted t' = Some u \<and> batch_of t tss u
           \<and> un_exhausted u @ map fst (ta_pending_drains t') = map fst (ta_pending_drains t))
     \<and> (\<exists>ts. prefix ts (source_lines d (last (sources t)))
           \<and> ta_state t' = (ta_state t)\<lparr>cu_offset := cu_offset (ta_state t) + lines_len ts\<rparr>)"

lemma reads_append: "reads tss lss \<Longrightarrow> reads tss (lss @ lss')"
  by (induction tss lss rule: reads.induct) auto

lemma reads_all: "prefix ts ls \<Longrightarrow> reads (lss @ [ts]) (lss @ [ls])"
  by (induction lss) auto

lemma tagged_append: "tagged n (tss @ tss') = tagged n tss @ tagged (n + length tss) tss'"
  by (induction tss arbitrary: n) simp_all

lemma record_read_eq:
  "un_spans (record_read n r u) = un_spans u @ map (Pair n) (lr_spans r)"
  "un_lens (record_read n r u) = un_lens u @ lr_lens r" "same_batch u (record_read n r u)"
  "un_exhausted (record_read n r u) = un_exhausted u"
  by (simp_all add: record_read_def same_batch_def)

lemma refresh_simps [simp]:
  "ta_state (refresh_last_known_size d t) = ta_state t"
  "ta_pending_drains (refresh_last_known_size d t) = ta_pending_drains t"
  "ta_uncommitted (refresh_last_known_size d t) = ta_uncommitted t"
  "ta_file (refresh_last_known_size d t) = ta_file t"
  by (simp_all add: refresh_last_known_size_def split: option.split)

lemma read_step_cong:
  "read_step d m t tss t' \<Longrightarrow> ta_state t'' = ta_state t' \<Longrightarrow> ta_pending_drains t'' = ta_pending_drains t' \<Longrightarrow>
   ta_uncommitted t'' = ta_uncommitted t' \<Longrightarrow> read_step d m t tss t''"
  by (simp add: read_step_def sources_def)

lemma read_entries_step:
  assumes m: "0 < m" and t0: "handle_rotation H d t = t0" and none: "ta_uncommitted t0 = None"
    and set: "settled d t0" and run: "read_entries H d m mb t = (es, t1)"
  shows "\<exists>tss. es = map entry_of (concat tss) \<and> read_step d m t0 tss t1
    \<and> (\<forall>f. open_inode d (wo_log d) = Some f \<longrightarrow> \<not> wo_broken d (file_ino f) \<longrightarrow>
          filter fits (concat tss) = [] \<longrightarrow> concat tss = all_lines d (sources t0))"
proof -
  define s0 where "s0 = \<lparr>ds_entries = [], ds_line_count = 0, ds_bytes_taken = 0, ds_budget_hit = False,
      ds_uncommitted = begin_batch t0, ds_drains = []\<rparr>"
  define s where "s = drain_loop d m mb (ta_pending_drains t0) s0"
  have "\<forall>(f, off) \<in> set (ta_pending_drains t0). \<not> wo_broken d (file_ino f)"
    using set by (simp add: settled_def)
  then obtain tss where dr: "drained d m (ta_pending_drains t0) s0 tss s"
    unfolding s_def using drain_loop_drained by blast
  note D = drainedD [OF dr]
  define t2 where "t2 = t0\<lparr>ta_pending_drains := ds_drains s, ta_uncommitted := Some (ds_uncommitted s)\<rparr>"
  have fresh: "begin_batch t0 = \<lparr>un_offset = cu_offset (ta_state t0), un_drain_offsets = map snd (ta_pending_drains t0),
      un_exhausted = [], un_spans = [], un_lens = [], un_raw_lossy = [],
      un_snapshot_drains = length (ta_pending_drains t0), un_spans_valid = True\<rparr>"
    using none by (simp add: begin_batch_def)
  have count: "length (filter fits (concat tss)) \<le> m" using D(3,4) by (simp add: s0_def)
  have batch: "batch_of t0 tss (ds_uncommitted s)"
    using D(9,10,11) by (simp add: batch_of_def s0_def fresh same_batch_def)
  have ex: "un_exhausted (ds_uncommitted s) @ map fst (ds_drains s) = map fst (ta_pending_drains t0)"
    using D(8) by (simp add: s0_def fresh)
  have step2: "read_step d m t0 tss t2"
    using D(2) D(7) count batch ex unfolding read_step_def
    by (auto simp: t2_def sources_def reads_append intro: exI [of _ "[]"])
  have es: "ds_entries s = map entry_of (concat tss)" using D(1) by (simp add: s0_def)
  have some: "filter fits (concat tss) \<noteq> []" if "m \<le> ds_line_count s \<or> ds_budget_hit s"
    using that D(3,12) m by (auto simp: s0_def)
  have run: "(es, t1) =
      (if m \<le> ds_line_count s \<or> ds_budget_hit s then (ds_entries s, refresh_last_known_size d t2)
       else case open_inode d (wo_log d) of
              None \<Rightarrow> (ds_entries s, t2)
            | Some f \<Rightarrow>
                (let (es, t) = (case read_lines_from d f (cu_offset (ta_state t0)) (m - ds_line_count s)
                     \<lparr>lb_left = mb - ds_bytes_taken s, lb_first_is_free = (ds_line_count s = 0)\<rparr> of
                       Inr r \<Rightarrow> (lr_entries r, (advance (lr_consumed r) t2)\<lparr>ta_uncommitted :=
                           Some (record_read (un_snapshot_drains (ds_uncommitted s)) r (ds_uncommitted s))\<rparr>)
                     | Inl _ \<Rightarrow> ([], t2))
                 in (ds_entries s @ es, refresh_last_known_size d (t\<lparr>ta_file := Some f\<rparr>))))"
    unfolding s_def s0_def t2_def using m run [symmetric]
    by (cases "open_inode d (wo_log d)") (simp_all add: read_entries_def Let_def t0)
  consider (drains) "m \<le> ds_line_count s \<or> ds_budget_hit s"
    | (no_log) "\<not> (m \<le> ds_line_count s \<or> ds_budget_hit s)" "open_inode d (wo_log d) = None"
    | (unreadable) f where "\<not> (m \<le> ds_line_count s \<or> ds_budget_hit s)" "open_inode d (wo_log d) = Some f"
        "wo_broken d (file_ino f)"
    | (current) f where "\<not> (m \<le> ds_line_count s \<or> ds_budget_hit s)" "open_inode d (wo_log d) = Some f"
        "\<not> wo_broken d (file_ino f)"
    by (cases "open_inode d (wo_log d)") auto
  then show ?thesis
  proof cases
    case drains
    then show ?thesis using run es some read_step_cong [OF step2] by (intro exI [of _ tss]) auto
  next
    case no_log
    then show ?thesis using run es read_step_cong [OF step2] by auto
  next
    case (unreadable f)
    then show ?thesis using run es read_step_cong [OF step2] by (auto simp: read_lines_from_def)
  next
    case (current f)
    have f: "f = OnDisk (cu_inode (ta_state t0))"
      using current(2) set by (auto simp: open_inode_def settled_def split: option.splits if_splits)
    let ?off = "cu_offset (ta_state t0)" and ?want = "m - ds_line_count s"
    let ?b = "\<lparr>lb_left = mb - ds_bytes_taken s, lb_first_is_free = (ds_line_count s = 0)\<rparr>"
    define ts where "ts = taken_by ?want ?b (source_lines d (f, ?off))"
    note rd = read_lines_from_eq [OF current(3) refl, of ?off ?want ?b, folded ts_def]
    have all: "ds_drains s = []" "tss = map (source_lines d) (ta_pending_drains t0)"
      using D(5,6) current(1) by (auto simp: not_le)
    have pre: "prefix ts (source_lines d (f, ?off))"
      using taken_by_prefix [of ?want ?b "source_lines d (f, ?off)"] take_is_prefix by (metis ts_def)
    have split: "source_lines d (f, ?off) = ts @ source_lines d (f, ?off + lines_len ts)"
      using source_lines_advance [of ts d f ?off] pre by (auto simp: prefix_def)
    have "length (filter fits ts) \<le> ?want" using taken_by_count by (simp add: ts_def)
    then have cnt: "length (filter fits (concat (tss @ [ts]))) \<le> m"
      using D(3) current(1) by (simp add: s0_def) linarith
    let ?u = "record_read (un_snapshot_drains (ds_uncommitted s)) (projr (read_lines_from d f ?off ?want ?b)) (ds_uncommitted s)"
    have t1: "es = map entry_of (concat (tss @ [ts]))" "ta_state t1 = (ta_state t0)\<lparr>cu_offset := ?off + lines_len ts\<rparr>"
        "ta_pending_drains t1 = []" "ta_uncommitted t1 = Some ?u"
      using run current es all(1) by (simp_all add: rd advance_def t2_def)
    have "batch_of t0 (tss @ [ts]) ?u"
      using batch all(2)
      by (simp add: batch_of_def record_read_eq rd tagged_append line_lens_def) (simp add: record_read_def)
    moreover have "un_exhausted ?u = map fst (ta_pending_drains t0)" using ex all(1) by (simp add: record_read_eq)
    moreover have "reads (tss @ [ts]) (map (source_lines d) (sources t0))"
      using reads_all [OF pre, of tss] by (simp add: sources_def f all(2))
    moreover have "all_lines d (sources t0) = concat (tss @ [ts]) @ all_lines d (sources t1)"
      using split by (simp add: sources_def t1 all(2) f) (simp add: all_lines_def)
    moreover have "prefix ts (source_lines d (last (sources t0)))" using pre by (simp add: sources_def f)
    ultimately have "read_step d m t0 (tss @ [ts]) t1"
      using cnt t1 unfolding read_step_def by auto
    moreover have "concat (tss @ [ts]) = all_lines d (sources t0)" if none: "filter fits (concat (tss @ [ts])) = []"
    proof -
      have "ds_line_count s = 0" using D(3) none by (simp add: s0_def)
      then have "ts = source_lines d (f, ?off)"
        using taken_by_free [of ?want ?b "source_lines d (f, ?off)"] none m by (simp add: ts_def)
      then show ?thesis by (simp add: sources_def all(2) f) (simp add: all_lines_def)
    qed
    ultimately show ?thesis using t1(1) by blast
  qed
qed

section \<open>Rewinding and committing a prefix\<close>

lemma zip_offsets_eq: "length ds = length offs \<Longrightarrow> zip_offsets ds offs = zip (map fst ds) offs"
  by (induction ds offs rule: zip_offsets.induct) auto

lemma zip_take_length: "zip xs (take (length xs) ys) = zip xs ys"
  by (induction xs ys rule: list_induct2') auto

lemma rewind_read_step:
  assumes "read_step d m t tss t'"
  shows "ta_pending_drains (rewind_batch t') = ta_pending_drains t" "ta_state (rewind_batch t') = ta_state t"
    "ta_uncommitted (rewind_batch t') = None" "sources (rewind_batch t') = sources t"
proof -
  obtain u ts where u: "ta_uncommitted t' = Some u" "batch_of t tss u"
      "un_exhausted u @ map fst (ta_pending_drains t') = map fst (ta_pending_drains t)"
      "ta_state t' = (ta_state t)\<lparr>cu_offset := cu_offset (ta_state t) + lines_len ts\<rparr>"
    using assms unfolding read_step_def by blast
  let ?ex = "un_exhausted u" and ?offs = "map snd (ta_pending_drains t)"
  have len: "length (ta_pending_drains t) = length ?ex + length (ta_pending_drains t')"
    using arg_cong [OF u(3), of length] by simp
  have "zip_offsets (ta_pending_drains t') (drop (length ?ex) ?offs)
      = zip (map fst (ta_pending_drains t')) (drop (length ?ex) ?offs)"
    using len by (intro zip_offsets_eq) simp
  moreover have "zip ?ex ?offs @ zip (map fst (ta_pending_drains t')) (drop (length ?ex) ?offs)
      = zip (?ex @ map fst (ta_pending_drains t')) ?offs"
    by (simp add: zip_append1 zip_take_length)
  ultimately show drains: "ta_pending_drains (rewind_batch t') = ta_pending_drains t"
    using u by (simp add: rewind_batch_def batch_of_def zip_map_fst_snd)
  show state: "ta_state (rewind_batch t') = ta_state t" using u by (simp add: rewind_batch_def batch_of_def)
  show "ta_uncommitted (rewind_batch t') = None" using u by (simp add: rewind_batch_def)
  show "sources (rewind_batch t') = sources t" using drains state by (simp add: sources_def)
qed

text \<open>The number of lines of the file up to and including the \<open>j\<close>-th that fits.\<close>

fun line_prefix :: "nat \<Rightarrow> bytes list \<Rightarrow> nat" where
  "line_prefix 0 ls = 0"
| "line_prefix (Suc j) [] = 0"
| "line_prefix (Suc j) (l # ls) = Suc (if fits l then line_prefix j ls else line_prefix (Suc j) ls)"

lemma spans_prefix:
  "j \<le> length (filter fits ts) \<Longrightarrow>
   sum_list (take j (spans_of disc ts)) = (if j = 0 then 0 else disc) + lines_len (take (line_prefix j ts) ts)"
proof (induction ts arbitrary: j disc)
  case (Cons l ts)
  then show ?case by (cases j) auto
qed simp

lemma drop_line_prefix:
  "j \<le> length (filter fits ts) \<Longrightarrow> filter fits (drop (line_prefix j ts) (ts @ ls)) = drop j (filter fits (ts @ ls))"
proof (induction ts arbitrary: j)
  case (Cons l ts)
  then show ?case by (cases j) auto
qed simp

lemma line_prefix_le: "line_prefix j ts \<le> length ts"
  by (induction j ts rule: line_prefix.induct) auto

lemma length_spans_of [simp]: "length (spans_of disc ts) = length (filter fits ts)"
  by (induction ts arbitrary: disc) auto

lemma length_tagged [simp]: "length (tagged n tss) = length (filter fits (concat tss))"
  by (induction tss arbitrary: n) auto

lemma tagged_source: "(k, b) \<in> set (tagged n tss) \<Longrightarrow> k < n + length tss"
  by (induction tss arbitrary: n) fastforce+

lemma reads_length: "reads tss lss \<Longrightarrow> length tss \<le> length lss"
  by (induction tss lss rule: reads.induct) auto

text \<open>The sources after moving over the first \<open>j\<close> returned lines.\<close>

fun moved :: "nat \<Rightarrow> (log_file \<times> nat) list \<Rightarrow> bytes list list \<Rightarrow> (log_file \<times> nat) list" where
  "moved j (s # ss) (ts # tss) =
     (fst s, snd s + sum_list (take j (spans_of 0 ts))) # moved (j - length (filter fits ts)) ss tss"
| "moved j ss tss = ss"

definition bump :: "nat \<times> nat \<Rightarrow> (log_file \<times> nat) list \<Rightarrow> (log_file \<times> nat) list" where
  "bump p ss = (if fst p < length ss then ss[fst p := (fst (ss ! fst p), snd (ss ! fst p) + snd p)] else ss)"

lemma length_bump [simp]: "length (bump p ss) = length ss"
  by (simp add: bump_def)

lemma fold_bump_one:
  "fold bump (map (Pair (length pre)) ns) (pre @ s # ss) = pre @ (fst s, snd s + sum_list ns) # ss"
  by (induction ns arbitrary: s) (simp_all add: bump_def add.assoc)

lemma fold_bump_moved:
  "length tss \<le> length ss \<Longrightarrow> fold bump (take j (tagged (length pre) tss)) (pre @ ss) = pre @ moved j ss tss"
proof (induction tss arbitrary: pre ss j)
  case (Cons ts tss)
  then obtain s ss' where ss: "ss = s # ss'" by (cases ss) auto
  let ?s = "(fst s, snd s + sum_list (take j (spans_of 0 ts)))"
  show ?case
    using Cons.IH [of ss' "j - length (filter fits ts)" "pre @ [?s]"] Cons.prems
      fold_bump_one [of pre "take j (spans_of 0 ts)" s ss']
    by (simp add: ss take_map)
qed simp

lemma sources_move_over:
  assumes "fst p \<le> length (ta_pending_drains t)"
  shows "sources (move_over (length (ta_pending_drains t)) p t) = bump p (sources t)
    \<and> length (ta_pending_drains (move_over (length (ta_pending_drains t)) p t)) = length (ta_pending_drains t)"
  using assms by (cases p) (auto simp: move_over_def bump_def sources_def advance_def nth_append list_update_append
      not_less le_less_Suc_eq less_Suc_eq)

lemma sources_fold_move_over:
  "\<forall>p \<in> set ps. fst p \<le> n \<Longrightarrow> length (ta_pending_drains t) = n \<Longrightarrow>
   sources (fold (move_over n) ps t) = fold bump ps (sources t)"
proof (induction ps arbitrary: t)
  case (Cons p ps)
  then show ?case using sources_move_over [of p t] by auto
qed simp

lemma moved_lines:
  assumes "reads tss (map (source_lines d) ss)" "j \<le> length (filter fits (concat tss))"
  shows "filter fits (all_lines d (moved j ss tss)) = drop j (filter fits (all_lines d ss))"
  using assms
proof (induction j ss tss rule: moved.induct)
  case (1 j s ss ts tss)
  let ?ls = "source_lines d s" and ?j = "min j (length (filter fits ts))"
  obtain rest where ls: "?ls = ts @ rest" using 1(2) by (auto simp: prefix_def)
  have len: "ts' = take (line_prefix ?j ts) ts \<Longrightarrow> ts' = take (length ts') ?ls" for ts'
    using line_prefix_le [of ?j ts] by (simp add: ls)
  have "take j (spans_of 0 ts) = take ?j (spans_of 0 ts)" by (simp add: min_def)
  then have "source_lines d (fst s, snd s + sum_list (take j (spans_of 0 ts))) = drop (line_prefix ?j ts) ?ls"
    using source_lines_advance [of "take (line_prefix ?j ts) ts" d "fst s" "snd s"] len [OF refl]
      spans_prefix [of ?j ts 0] line_prefix_le [of ?j ts] by (simp add: min_def)
  then have here: "filter fits (source_lines d (fst s, snd s + sum_list (take j (spans_of 0 ts))))
      = drop ?j (filter fits ?ls)" using drop_line_prefix [of ?j ts rest] by (simp add: ls)
  have rest: "reads tss (map (source_lines d) ss)" using 1(2) by simp
  show ?case
  proof (cases "j \<le> length (filter fits ts)")
    case True
    then show ?thesis using here 1(1) [OF rest] by (simp add: ls)
  next
    case False
    then have "ts = ?ls" using 1(2,3) by (cases tss) auto
    then show ?thesis using here 1(1) [OF rest] 1(3) False by (simp add: min_def)
  qed
qed auto

lemma commit_through_sources:
  assumes "read_step d m t tss t'" "commit_batch_through H d' j t' = (True, t'')"
  shows "j \<le> length (filter fits (concat tss))" "sources t'' = moved j (sources t) tss" "ta_uncommitted t'' = None"
proof -
  obtain u where u: "ta_uncommitted t' = Some u" "batch_of t tss u" using assms(1) by (auto simp: read_step_def)
  have n: "un_snapshot_drains u = length (ta_pending_drains t)" using u(2) by (simp add: batch_of_def)
  have t'': "t'' = fold (move_over (length (ta_pending_drains t))) (take j (tagged 0 tss)) (rewind_batch t')"
      "j \<le> length (tagged 0 tss)"
    using assms(2) u by (auto simp: commit_batch_through_def batch_of_def Let_def split: if_splits)
  show "j \<le> length (filter fits (concat tss))" using t''(2) by simp
  have "reads tss (map (source_lines d) (sources t))" using assms(1) by (simp add: read_step_def)
  then have len: "length tss \<le> length (sources t)" using reads_length by fastforce
  then have "\<forall>p \<in> set (take j (tagged 0 tss)). fst p \<le> length (ta_pending_drains t)"
    using tagged_source [of _ _ 0 tss] by (fastforce simp: sources_def dest: in_set_takeD)
  then have "sources t'' = fold bump (take j (tagged 0 tss)) (sources t)"
    unfolding t'' using sources_fold_move_over rewind_read_step [OF assms(1)] by metis
  then show "sources t'' = moved j (sources t) tss" using fold_bump_moved [OF len, of j "[]"] by simp
  show "ta_uncommitted t'' = None"
  proof -
    have "ta_uncommitted (fold (move_over n) ps x) = ta_uncommitted x" for n ps x
      by (induction ps arbitrary: x) (auto simp: move_over_def advance_def split: prod.split)
    then show ?thesis using t''(1) rewind_read_step(3) [OF assms(1)] by simp
  qed
qed

text \<open>Moving over lines moves each source to the start of one of its lines.\<close>

definition line_move :: "world \<Rightarrow> log_file \<times> nat \<Rightarrow> log_file \<times> nat \<Rightarrow> bool" where
  "line_move d s s' \<longleftrightarrow> fst s' = fst s
     \<and> (\<exists>k \<le> length (source_lines d s). snd s' = snd s + lines_len (take k (source_lines d s)))"

lemma line_move_refl: "line_move d s s"
  unfolding line_move_def by (auto intro: exI [of _ 0])

lemma moved_line_moves:
  "reads tss (map (source_lines d) ss) \<Longrightarrow> list_all2 (line_move d) ss (moved j ss tss)"
proof (induction j ss tss rule: moved.induct)
  case (1 j s ss ts tss)
  let ?k = "line_prefix (min j (length (filter fits ts))) ts"
  obtain rest where ls: "source_lines d s = ts @ rest" using 1(2) by (auto simp: prefix_def)
  have "take j (spans_of 0 ts) = take (min j (length (filter fits ts))) (spans_of 0 ts)" by (simp add: min_def)
  then have "sum_list (take j (spans_of 0 ts)) = lines_len (take ?k (source_lines d s))"
    using spans_prefix [of "min j (length (filter fits ts))" ts 0]
      line_prefix_le [of "min j (length (filter fits ts))" ts] by (simp add: ls)
  moreover have "?k \<le> length (source_lines d s)"
    using line_prefix_le [of "min j (length (filter fits ts))" ts] by (simp add: ls)
  ultimately show ?case using 1 unfolding line_move_def by auto
qed (auto intro: list.rel_refl line_move_refl)

lemma fold_move_over_keeps:
  "ta_file (fold (move_over n) ps t) = ta_file t"
  "ta_last_known_size (fold (move_over n) ps t) = ta_last_known_size t"
  "\<exists>off. ta_state (fold (move_over n) ps t) = (ta_state t)\<lparr>cu_offset := off\<rparr>"
proof -
  show "ta_file (fold (move_over n) ps t) = ta_file t"
    by (induction ps arbitrary: t) (auto simp: move_over_def advance_def split: prod.split)
  show "ta_last_known_size (fold (move_over n) ps t) = ta_last_known_size t"
    by (induction ps arbitrary: t) (auto simp: move_over_def advance_def split: prod.split)
  show "\<exists>off. ta_state (fold (move_over n) ps t) = (ta_state t)\<lparr>cu_offset := off\<rparr>"
  proof (induction ps arbitrary: t)
    case Nil
    have "ta_state t = (ta_state t)\<lparr>cu_offset := cu_offset (ta_state t)\<rparr>" by simp
    then show ?case by (metis fold_simps(1))
  next
    case (Cons p ps)
    obtain off where "ta_state (move_over n p t) = (ta_state t)\<lparr>cu_offset := off\<rparr>"
    proof
      show "ta_state (move_over n p t) = (ta_state t)\<lparr>cu_offset := cu_offset (ta_state (move_over n p t))\<rparr>"
        by (cases p) (simp add: move_over_def advance_def)
    qed
    then show ?case using Cons [of "move_over n p t"] by auto
  qed
qed

lemma rewind_keeps:
  "ta_file (rewind_batch t) = ta_file t" "ta_last_known_size (rewind_batch t) = ta_last_known_size t"
  by (simp_all add: rewind_batch_def split: option.split)

lemma commit_through_keeps:
  assumes "commit_batch_through H d j t = (True, t')"
  shows "ta_file t' = ta_file t" "ta_last_known_size t' = ta_last_known_size t"
  using assms
  by (auto simp: commit_batch_through_def Let_def fold_move_over_keeps rewind_keeps
      split: option.splits if_splits rotation_event.splits)

end
