(* ===== verification/Tail_Follow.thy ===== *)
theory Tail_Follow
  imports Tail_Queue
begin

text \<open>
  A tailer following a live log: a writer appends, the log is renamed away, and the reader polls and
  commits, rewinds or commits a prefix (\<open>follows\<close>). A log that only grew is recognised
  (\<open>in_step_rotation\<close>), a renamed one is queued (\<open>renamed_rotation\<close>), and by rule induction
  (\<open>follows_following\<close>) the lines committed and the lines left are together the lines written.
\<close>

section \<open>A log that only grows\<close>

definition readable :: "world \<Rightarrow> nat \<Rightarrow> bool" where
  "readable d i \<longleftrightarrow> \<not> wo_denied d i \<and> \<not> wo_broken d i"

text \<open>The state points into the log, and its fingerprint is that of a prefix of the log.\<close>

definition in_step :: "(bytes \<Rightarrow> bytes) \<Rightarrow> world \<Rightarrow> log_tailer \<Rightarrow> bool" where
  "in_step H d t \<longleftrightarrow>
     (let i = cu_inode (ta_state t); c = wo_files d i
      in wo_log d = Some i \<and> readable d i \<and> cu_offset (ta_state t) \<le> length c
         \<and> (\<exists>n. cu_fingerprint_len (ta_state t) = Some n \<and> n \<le> 256 \<and> n \<le> length c
               \<and> cu_fingerprint (ta_state t) = H (take n c) \<and> (n = 0 \<longrightarrow> ta_last_known_size t = 0)))"

definition stamped :: "(bytes \<Rightarrow> bytes) \<Rightarrow> bytes \<Rightarrow> cursor_state \<Rightarrow> bool" where
  "stamped H c s \<longleftrightarrow> cu_fingerprint s = H (take 256 c) \<and> cu_fingerprint_len s = Some (min 256 (length c))"

lemma read_head_readable: "wo_log d = Some i \<Longrightarrow> readable d i \<Longrightarrow> read_head d = Some (take 256 (wo_files d i))"
  by (simp add: read_head_def open_inode_def readable_def)

lemma fingerprint_readable:
  "wo_log d = Some i \<Longrightarrow> readable d i \<Longrightarrow>
   fingerprint_with_len H d = (H (take 256 (wo_files d i)), min 256 (length (wo_files d i)))"
  by (simp add: fingerprint_with_len_def read_head_readable min.commute)

lemma find_plain_empty_window:
  "cu_fingerprint_len s = Some 0 \<Longrightarrow> \<exists>why'. find_plain H d s ns why = Inl why'"
proof (induction ns arbitrary: why)
  case (Cons n ns)
  then show ?case by (cases "open_generation d n") (auto simp: head_matches_def split: prod.split)
qed simp

text \<open>An empty fingerprint window identifies no rotated copy.\<close>

lemma empty_window_finds_nothing:
  assumes "cu_fingerprint_len s = Some 0"
  shows "is_err (find_generations H d s mode)"
proof -
  obtain why where "find_plain H d s [1, 2] NoRotatedCopy = Inl why"
    using find_plain_empty_window [OF assms] by blast
  moreover have "match_gzip_generation H d s mode = Inr Absent"
    using assms by (simp add: match_gzip_generation_def head_matches_def Let_def split: option.split)
  ultimately show ?thesis by (simp add: find_generations_def is_err_def)
qed

text \<open>A log that only grew is not taken for a rotated one: only the fingerprint is renewed.\<close>

lemma in_step_rotation:
  assumes "in_step H d t"
  shows "\<exists>fp n. handle_rotation H d t
      = t\<lparr>ta_state := (ta_state t)\<lparr>cu_fingerprint := fp, cu_fingerprint_len := Some n\<rparr>\<rparr>"
    "stamped H (wo_files d (cu_inode (ta_state t))) (ta_state (handle_rotation H d t))"
proof -
  let ?s = "ta_state t"
  let ?i = "cu_inode ?s"
  let ?c = "wo_files d ?i"
  obtain n where i: "wo_log d = Some ?i" "readable d ?i" "cu_offset ?s \<le> length ?c"
    and n: "cu_fingerprint_len ?s = Some n" "n \<le> 256" "n \<le> length ?c" "cu_fingerprint ?s = H (take n ?c)"
      "n = 0 \<Longrightarrow> ta_last_known_size t = 0"
    using assms by (auto simp: in_step_def Let_def)
  note head = read_head_readable [OF i(1,2)] and fp = fingerprint_readable [OF i(1,2), of H]
  have "(\<exists>fp n. handle_rotation H d t
          = t\<lparr>ta_state := ?s\<lparr>cu_fingerprint := fp, cu_fingerprint_len := Some n\<rparr>\<rparr>)
      \<and> stamped H ?c (ta_state (handle_rotation H d t))"
  proof (cases "n = 0 \<and> ?c \<noteq> []")
    case True
    then have "detect_rotation H d ?s = Replaced"
      using i head n by (simp add: detect_rotation_def head_matches_def)
    moreover have "maybe_false_positive_replaced d t"
      using True n(5) i(1) by (simp add: maybe_false_positive_replaced_def FINGERPRINT_STABLE_SIZE_def log_len_def)
    moreover have "is_err (find_generations H d ?s Probe)" using True n(1) empty_window_finds_nothing by blast
    ultimately show ?thesis by (auto simp: handle_rotation_def stamp_fingerprint_def fp stamped_def)
  next
    case False
    then have none: "detect_rotation H d ?s = NoRotation"
      using i head n by (auto simp: detect_rotation_def head_matches_def min_absorb1)
    show ?thesis
    proof (cases "n < 256 \<and> n < min 256 (length ?c)")
      case True
      then show ?thesis using none n(1) by (auto simp: handle_rotation_def fp stamped_def)
    next
      case False
      then have "n = min 256 (length ?c)" using n(2,3) by linarith
      then have "handle_rotation H d t = t" using none n(1) by (simp add: handle_rotation_def fp)
      moreover have "take n ?c = take 256 ?c" using \<open>n = _\<close> by (simp add: min_def)
      ultimately show ?thesis using n(1,4) \<open>n = min 256 (length ?c)\<close>
        by (auto simp: stamped_def intro!: exI [of _ "cu_fingerprint ?s"] exI [of _ n])
    qed
  qed
  then show "\<exists>fp n. handle_rotation H d t = t\<lparr>ta_state := ?s\<lparr>cu_fingerprint := fp, cu_fingerprint_len := Some n\<rparr>\<rparr>"
    "stamped H ?c (ta_state (handle_rotation H d t))" by auto
qed

text \<open>After a rename the file that was read is queued, and the new one is read from its start.\<close>

lemma renamed_rotation:
  assumes "wo_log d = Some j" "readable d j" "j \<noteq> cu_inode (ta_state t)"
  shows "ta_pending_drains (handle_rotation H d t) = ta_pending_drains t
      @ (case ta_file t of Some f \<Rightarrow> [(f, cu_offset (ta_state t))] | None \<Rightarrow> [])"
    "cu_inode (ta_state (handle_rotation H d t)) = j" "cu_offset (ta_state (handle_rotation H d t)) = 0"
    "stamped H (wo_files d j) (ta_state (handle_rotation H d t))" "ta_file (handle_rotation H d t) = None"
    "ta_uncommitted t = None \<Longrightarrow> ta_uncommitted (handle_rotation H d t) = None"
proof -
  have "detect_rotation H d (ta_state t) = InodeChanged" using assms by (simp add: detect_rotation_def)
  then show "ta_pending_drains (handle_rotation H d t) = ta_pending_drains t
      @ (case ta_file t of Some f \<Rightarrow> [(f, cu_offset (ta_state t))] | None \<Rightarrow> [])"
    "cu_inode (ta_state (handle_rotation H d t)) = j" "cu_offset (ta_state (handle_rotation H d t)) = 0"
    "stamped H (wo_files d j) (ta_state (handle_rotation H d t))" "ta_file (handle_rotation H d t) = None"
    "ta_uncommitted t = None \<Longrightarrow> ta_uncommitted (handle_rotation H d t) = None"
    using fingerprint_readable [OF assms(1,2), of H] assms(1)
    by (simp_all add: handle_rotation_def reset_to_current_file_def stamp_fingerprint_def Let_def get_inode_def
        stamped_def split: option.split)
qed

section \<open>Following a log\<close>

text \<open>A position at the start of a line.\<close>

definition aligned :: "bytes \<Rightarrow> nat \<Rightarrow> bool" where
  "aligned c off \<longleftrightarrow> (\<exists>k \<le> length (complete_lines [] c). off = lines_len (take k (complete_lines [] c)))"

lemma aligned_0 [simp]: "aligned c 0"
  unfolding aligned_def by (rule exI [of _ 0]) simp

lemma aligned_le: "aligned c off \<Longrightarrow> off \<le> length c"
proof -
  assume "aligned c off"
  then obtain k where "off = lines_len (take k (complete_lines [] c))" by (auto simp: aligned_def)
  then show ?thesis using lines_len_take [of k "complete_lines [] c"] lines_len_complete [of c] by simp
qed

lemma aligned_advance:
  assumes "aligned c off" "k \<le> length (complete_lines [] (drop off c))"
  shows "aligned c (off + lines_len (take k (complete_lines [] (drop off c))))"
proof -
  obtain n where n: "n \<le> length (complete_lines [] c)" "off = lines_len (take n (complete_lines [] c))"
    using assms(1) by (auto simp: aligned_def)
  have "off + lines_len (take k (complete_lines [] (drop off c))) = lines_len (take (n + k) (complete_lines [] c))"
    unfolding n(2) complete_lines_drop [OF n(1)] by (simp add: take_add)
  moreover have "n + k \<le> length (complete_lines [] c)"
    using assms(2) n(1) unfolding n(2) complete_lines_drop [OF n(1)] by simp
  ultimately show ?thesis unfolding aligned_def by blast
qed

lemma aligned_append:
  assumes "aligned c off" "complete_lines [] (c @ x) = complete_lines [] c @ new"
  shows "aligned (c @ x) off" "complete_lines [] (drop off (c @ x)) = complete_lines [] (drop off c) @ new"
proof -
  obtain n where n: "n \<le> length (complete_lines [] c)" "off = lines_len (take n (complete_lines [] c))"
    using assms(1) by (auto simp: aligned_def)
  let ?ls = "complete_lines [] c" and ?ls' = "complete_lines [] (c @ x)"
  have off: "off = lines_len (take n ?ls')" "n \<le> length ?ls'" using n by (simp_all add: assms(2))
  then show "aligned (c @ x) off" unfolding aligned_def by blast
  have "complete_lines [] (drop off (c @ x)) = drop n ?ls'" using complete_lines_drop [OF off(2)] off(1) by simp
  moreover have "complete_lines [] (drop off c) = drop n ?ls" using complete_lines_drop [OF n(1)] n(2) by simp
  ultimately show "complete_lines [] (drop off (c @ x)) = complete_lines [] (drop off c) @ new"
    using n(1) by (simp add: assms(2))
qed

text \<open>What the next read finds: the file of a rename not noticed yet is still to be queued.\<close>

definition view :: "world \<Rightarrow> log_tailer \<Rightarrow> (log_file \<times> nat) list" where
  "view d t =
     (case wo_log d of
        Some j \<Rightarrow>
          if j = cu_inode (ta_state t) then sources t
          else ta_pending_drains t
               @ (case ta_file t of Some f \<Rightarrow> [(f, cu_offset (ta_state t))] | None \<Rightarrow> []) @ [(OnDisk j, 0)]
      | None \<Rightarrow> sources t)"

text \<open>A writer and a rotating log, followed by one tailer that polls it. \<open>gens\<close> are the inodes the log
  has had, oldest first, and \<open>out\<close> the lines the reader has committed. The log is renamed away only
  once the tailer has opened it.\<close>

inductive follows ::
  "(bytes \<Rightarrow> bytes) \<Rightarrow> world \<Rightarrow> log_tailer \<Rightarrow> nat list \<Rightarrow> tail_entry list \<Rightarrow> bool" for H where
  begins: "wo_log d = Some i \<Longrightarrow> i \<noteq> 0 \<Longrightarrow> readable d i \<Longrightarrow> follows H d (with_state d c zero_state) [i] []"
| writes: "follows H d t gens out \<Longrightarrow> wo_log d = Some i \<Longrightarrow>
    follows H (d\<lparr>wo_files := (wo_files d)(i := wo_files d i @ x)\<rparr>) t gens out"
| renames: "follows H d t gens out \<Longrightarrow> wo_log d = Some i \<Longrightarrow> ta_file t = Some (OnDisk i) \<Longrightarrow>
    j \<noteq> 0 \<Longrightarrow> j \<notin> set gens \<Longrightarrow> readable d j \<Longrightarrow>
    follows H (d\<lparr>wo_files := (wo_files d)(j := []), wo_log := Some j, wo_rotated := r, wo_gz := z\<rparr>) t (gens @ [j]) out"
| commits: "follows H d t gens out \<Longrightarrow> 0 < m \<Longrightarrow> read_entries H d m mb t = (es, t') \<Longrightarrow>
    follows H d (commit_batch t') gens (out @ filter is_Line es)"
| rewinds: "follows H d t gens out \<Longrightarrow> 0 < m \<Longrightarrow> read_entries H d m mb t = (es, t') \<Longrightarrow>
    follows H d (rewind_batch t') gens out"
| commits_through: "follows H d t gens out \<Longrightarrow> 0 < m \<Longrightarrow> read_entries H d m mb t = (es, t') \<Longrightarrow>
    commit_batch_through H d k t' = (True, t'') \<Longrightarrow>
    follows H d t'' gens (out @ take k (filter is_Line es))"

definition written :: "world \<Rightarrow> nat list \<Rightarrow> bytes list" where
  "written d gens = concat (map (\<lambda>g. complete_lines [] (wo_files d g)) gens)"

text \<open>The invariant: the tailer is in step with the log, or has yet to notice the log's first file or a
  rename.\<close>

definition following :: "(bytes \<Rightarrow> bytes) \<Rightarrow> world \<Rightarrow> log_tailer \<Rightarrow> nat list \<Rightarrow> tail_entry list \<Rightarrow> bool" where
  "following H d t gens out \<longleftrightarrow>
     (\<exists>olds i. gens = olds @ [i] \<and> wo_log d = Some i \<and> i \<notin> set olds \<and> (\<forall>g \<in> set gens. g \<noteq> 0 \<and> readable d g)
       \<and> ta_uncommitted t = None
       \<and> fst ` set (ta_pending_drains t) \<subseteq> OnDisk ` set olds
       \<and> (if cu_inode (ta_state t) = i
          then in_step H d t \<and> aligned (wo_files d i) (cu_offset (ta_state t))
               \<and> (ta_file t = None \<or> ta_file t = Some (OnDisk i))
          else ta_file t = None \<or> ta_file t = Some (OnDisk (cu_inode (ta_state t))) \<and> cu_inode (ta_state t) \<in> set olds)
       \<and> out @ map entry_of (filter fits (all_lines d (view d t))) = map entry_of (filter fits (written d gens)))"

definition noticed :: "(bytes \<Rightarrow> bytes) \<Rightarrow> world \<Rightarrow> log_tailer \<Rightarrow> nat list \<Rightarrow> bool" where
  "noticed H d t gens \<longleftrightarrow>
     (\<exists>olds i. gens = olds @ [i] \<and> wo_log d = Some i \<and> i \<notin> set olds \<and> (\<forall>g \<in> set gens. g \<noteq> 0 \<and> readable d g)
       \<and> ta_uncommitted t = None
       \<and> fst ` set (ta_pending_drains t) \<subseteq> OnDisk ` set olds
       \<and> cu_inode (ta_state t) = i \<and> stamped H (wo_files d i) (ta_state t)
       \<and> aligned (wo_files d i) (cu_offset (ta_state t))
       \<and> (ta_file t = None \<or> ta_file t = Some (OnDisk i)))"

lemma following_rotation:
  assumes "following H d t gens out"
  shows "noticed H d (handle_rotation H d t) gens" "sources (handle_rotation H d t) = view d t"
proof -
  obtain olds i where g: "gens = olds @ [i]" "wo_log d = Some i" "i \<notin> set olds"
      "\<forall>g \<in> set gens. g \<noteq> 0 \<and> readable d g" "ta_uncommitted t = None"
      "fst ` set (ta_pending_drains t) \<subseteq> OnDisk ` set olds"
    and t: "if cu_inode (ta_state t) = i
          then in_step H d t \<and> aligned (wo_files d i) (cu_offset (ta_state t))
               \<and> (ta_file t = None \<or> ta_file t = Some (OnDisk i))
          else ta_file t = None \<or> ta_file t = Some (OnDisk (cu_inode (ta_state t))) \<and> cu_inode (ta_state t) \<in> set olds"
    using assms unfolding following_def by blast
  have i: "readable d i" using g(1,4) by simp
  have "noticed H d (handle_rotation H d t) gens \<and> sources (handle_rotation H d t) = view d t"
  proof (cases "cu_inode (ta_state t) = i")
    case True
    then have step: "in_step H d t" using t by simp
    then obtain fp n where rot: "handle_rotation H d t
        = t\<lparr>ta_state := (ta_state t)\<lparr>cu_fingerprint := fp, cu_fingerprint_len := Some n\<rparr>\<rparr>"
      using in_step_rotation(1) by blast
    have st: "stamped H (wo_files d i) (ta_state (handle_rotation H d t))"
      using in_step_rotation(2) [OF step] True by simp
    have "sources (handle_rotation H d t) = view d t" using True g(2) by (simp add: rot view_def sources_def)
    moreover have "noticed H d (handle_rotation H d t) gens"
      unfolding noticed_def using g t True st by (intro exI [of _ olds] exI [of _ i]) (simp add: rot)
    ultimately show ?thesis by simp
  next
    case False
    note rot = renamed_rotation [OF g(2) i, of t H]
    have "sources (handle_rotation H d t) = view d t"
      using False g(2) rot by (simp add: view_def sources_def)
    moreover have "noticed H d (handle_rotation H d t) gens"
      unfolding noticed_def using g t False rot by (intro exI [of _ olds] exI [of _ i]) auto
    ultimately show ?thesis by simp
  qed
  then show "noticed H d (handle_rotation H d t) gens" "sources (handle_rotation H d t) = view d t" by auto
qed

lemma noticed_settled: "noticed H d t gens \<Longrightarrow> settled d t"
  by (fastforce simp: noticed_def settled_def readable_def)

lemma read_entries_meta:
  assumes "0 < m" "read_entries H d m mb t = (es, t1)" "wo_log d = Some i" "readable d i"
  shows "ta_last_known_size t1 = length (wo_files d i)"
    "ta_file t1 = ta_file (handle_rotation H d t) \<or> ta_file t1 = Some (OnDisk i)"
proof -
  have op: "open_inode d (Some i) = Some (OnDisk i)" using assms(4) by (simp add: open_inode_def readable_def)
  show "ta_last_known_size t1 = length (wo_files d i)"
    using assms(1,2)
    by (auto simp: read_entries_def Let_def op assms(3) refresh_last_known_size_def log_len_def
        split: if_splits prod.splits sum.splits)
  show "ta_file t1 = ta_file (handle_rotation H d t) \<or> ta_file t1 = Some (OnDisk i)"
    using assms(1,2)
    by (auto simp: read_entries_def Let_def op assms(3) advance_def split: if_splits prod.splits sum.splits)
qed

text \<open>After a batch: whatever was decided about it, the tailer is in step and the lines that are not
  committed are those left.\<close>

lemma noticed_after:
  assumes n: "noticed H d t0 gens" and log: "wo_log d = Some i"
    and st: "ta_state t' = (ta_state t0)\<lparr>cu_offset := off\<rparr>" and al: "aligned (wo_files d i) off"
    and size: "ta_last_known_size t' = length (wo_files d i)"
    and fl: "ta_file t' = ta_file t0 \<or> ta_file t' = Some (OnDisk i)" and none: "ta_uncommitted t' = None"
    and drains: "fst ` set (ta_pending_drains t') \<subseteq> fst ` set (ta_pending_drains t0)"
    and out: "out @ map entry_of (filter fits (all_lines d (sources t'))) = map entry_of (filter fits (written d gens))"
  shows "following H d t' gens out"
proof -
  obtain olds where g: "gens = olds @ [i]" "i \<notin> set olds" "\<forall>g \<in> set gens. g \<noteq> 0 \<and> readable d g"
      "fst ` set (ta_pending_drains t0) \<subseteq> OnDisk ` set olds" "cu_inode (ta_state t0) = i"
      "stamped H (wo_files d i) (ta_state t0)" "ta_file t0 = None \<or> ta_file t0 = Some (OnDisk i)"
    using n log unfolding noticed_def by auto
  have "in_step H d t'"
    using st al size g(1,3,5,6) log aligned_le [OF al]
    by (auto simp: in_step_def Let_def stamped_def min_def)
  moreover have "view d t' = sources t'" using st g(5) log by (simp add: view_def)
  moreover have "fst ` set (ta_pending_drains t') \<subseteq> OnDisk ` set olds" using drains g(4) by (rule subset_trans)
  ultimately show ?thesis
    unfolding following_def using g(1-3,5-7) log st al fl none out
    by (intro exI [of _ olds] exI [of _ i]) auto
qed

lemma all_lines_cong:
  "\<forall>s \<in> set ss. contents d' (fst s) = contents d (fst s) \<Longrightarrow> all_lines d' ss = all_lines d ss"
  by (induction ss) (auto simp: source_lines_def)

lemma written_append: "written d (gs @ hs) = written d gs @ written d hs"
  by (simp add: written_def)

lemma written_cong: "(\<And>g. g \<in> set gens \<Longrightarrow> wo_files d' g = wo_files d g) \<Longrightarrow> written d' gens = written d gens"
  by (induction gens) (auto simp: written_def)

text \<open>The view ends with the log, at the start of a line, and everything before it is an older file.\<close>

lemma following_view:
  assumes "following H d t gens out"
  shows "\<exists>olds i pre off. gens = olds @ [i] \<and> wo_log d = Some i \<and> view d t = pre @ [(OnDisk i, off)]
    \<and> aligned (wo_files d i) off \<and> fst ` set pre \<subseteq> OnDisk ` set olds \<and> i \<notin> set olds"
proof -
  obtain olds i where n: "gens = olds @ [i]" "wo_log d = Some i" "i \<notin> set olds"
      "fst ` set (ta_pending_drains (handle_rotation H d t)) \<subseteq> OnDisk ` set olds"
      "cu_inode (ta_state (handle_rotation H d t)) = i"
      "aligned (wo_files d i) (cu_offset (ta_state (handle_rotation H d t)))"
    using following_rotation(1) [OF assms] unfolding noticed_def by blast
  then show ?thesis using following_rotation(2) [OF assms, symmetric]
    by (intro exI [of _ olds] exI [of _ i] exI [of _ "ta_pending_drains (handle_rotation H d t)"]
        exI [of _ "cu_offset (ta_state (handle_rotation H d t))"]) (simp add: sources_def)
qed

lemma following_begins:
  "wo_log d = Some i \<Longrightarrow> i \<noteq> 0 \<Longrightarrow> readable d i \<Longrightarrow> following H d (with_state d c zero_state) [i] []"
  unfolding following_def
  by (intro exI [of _ "[]"] exI [of _ i])
    (simp add: with_state_def zero_state_def view_def written_def source_lines_def)

lemma following_writes:
  assumes "following H d t gens out" "wo_log d = Some i"
  shows "following H (d\<lparr>wo_files := (wo_files d)(i := wo_files d i @ x)\<rparr>) t gens out"
    (is "following H ?d t gens out")
proof -
  obtain olds pre off where v: "gens = olds @ [i]" "view d t = pre @ [(OnDisk i, off)]"
      "aligned (wo_files d i) off" "fst ` set pre \<subseteq> OnDisk ` set olds" "i \<notin> set olds"
    using following_view [OF assms(1)] assms(2) by auto
  obtain new where new: "complete_lines [] (wo_files d i @ x) = complete_lines [] (wo_files d i) @ new"
    using complete_lines_append by blast
  have "all_lines ?d pre = all_lines d pre" using v(4,5) by (intro all_lines_cong) force
  moreover have view: "view ?d t = view d t" by (simp add: view_def)
  ultimately have lines: "all_lines ?d (view ?d t) = all_lines d (view d t) @ new"
    using aligned_append(2) [OF v(3) new] by (simp add: v(2) source_lines_def)
  have "written ?d olds = written d olds" using v(5) by (intro written_cong) auto
  then have w: "written ?d gens = written d gens @ new" using new by (simp add: v(1) written_append) (simp add: written_def)
  have step: "in_step H ?d t" if "in_step H d t" "cu_inode (ta_state t) = i"
    using that by (auto simp: in_step_def Let_def readable_def)
  have al: "aligned (wo_files d i @ x) o'" if "aligned (wo_files d i) o'" for o'
    using aligned_append(1) [OF that new] .
  show ?thesis
    using assms(1) step al unfolding following_def lines w
    by (auto simp: v(1) readable_def)
qed

lemma following_renames:
  assumes "following H d t gens out" "wo_log d = Some i" "ta_file t = Some (OnDisk i)"
    "j \<noteq> 0" "j \<notin> set gens" "readable d j"
  shows "following H (d\<lparr>wo_files := (wo_files d)(j := []), wo_log := Some j, wo_rotated := r, wo_gz := z\<rparr>) t
      (gens @ [j]) out" (is "following H ?d t _ out")
proof -
  obtain olds where g: "gens = olds @ [i]" "i \<notin> set olds" "\<forall>g \<in> set gens. g \<noteq> 0 \<and> readable d g"
      "ta_uncommitted t = None" "fst ` set (ta_pending_drains t) \<subseteq> OnDisk ` set olds"
      "if cu_inode (ta_state t) = i
       then in_step H d t \<and> aligned (wo_files d i) (cu_offset (ta_state t))
            \<and> (ta_file t = None \<or> ta_file t = Some (OnDisk i))
       else ta_file t = None \<or> ta_file t = Some (OnDisk (cu_inode (ta_state t))) \<and> cu_inode (ta_state t) \<in> set olds"
      "out @ map entry_of (filter fits (all_lines d (view d t))) = map entry_of (filter fits (written d gens))"
    using assms(1,2) unfolding following_def by auto
  have i: "cu_inode (ta_state t) = i" "i \<noteq> j" using g(1,6) assms(3,5) by (auto split: if_splits)
  have "view d t = sources t" using i assms(2) by (simp add: view_def)
  moreover have "view ?d t = sources t @ [(OnDisk j, 0)]" using i assms(3) by (simp add: view_def sources_def)
  moreover have "all_lines ?d (sources t) = all_lines d (sources t)"
    using g(1,5) i assms(5) by (intro all_lines_cong) (fastforce simp: sources_def)
  ultimately have lines: "all_lines ?d (view ?d t) = all_lines d (view d t)" by (simp add: source_lines_def)
  have "written ?d gens = written d gens" using assms(5) by (intro written_cong) auto
  then have w: "written ?d (gens @ [j]) = written d gens" by (simp add: written_append) (simp add: written_def)
  show ?thesis
    unfolding following_def lines w
    using g i assms(3-6) by (intro exI [of _ gens] exI [of _ j]) (auto simp: readable_def)
qed

text \<open>One poll: what it returns, and that the tailer is again in step whatever is decided about it.\<close>

lemma following_read:
  assumes "following H d t gens out" "0 < m" "read_entries H d m mb t = (es, t1)"
  shows "\<exists>tss i. es = map entry_of (concat tss) \<and> wo_log d = Some i
    \<and> read_step d m (handle_rotation H d t) tss t1
    \<and> out @ map entry_of (filter fits (all_lines d (sources (handle_rotation H d t))))
        = map entry_of (filter fits (written d gens))
    \<and> ta_last_known_size t1 = length (wo_files d i)
    \<and> (ta_file t1 = ta_file (handle_rotation H d t) \<or> ta_file t1 = Some (OnDisk i))
    \<and> (filter fits (concat tss) = [] \<longrightarrow> concat tss = all_lines d (view d t))"
proof -
  let ?t0 = "handle_rotation H d t"
  note rot = following_rotation [OF assms(1)]
  obtain i where i: "wo_log d = Some i" "readable d i" "ta_uncommitted ?t0 = None"
    using rot(1) unfolding noticed_def by auto
  have "open_inode d (wo_log d) = Some (OnDisk i)" "\<not> wo_broken d i"
    using i by (simp_all add: open_inode_def readable_def)
  then obtain tss where "es = map entry_of (concat tss)" "read_step d m ?t0 tss t1"
      "filter fits (concat tss) = [] \<Longrightarrow> concat tss = all_lines d (view d t)"
    using read_entries_step [OF assms(2) refl i(3) noticed_settled [OF rot(1)] assms(3)] rot(2) by auto
  moreover have "out @ map entry_of (filter fits (all_lines d (sources ?t0)))
      = map entry_of (filter fits (written d gens))"
    using assms(1) rot(2) unfolding following_def by auto
  ultimately show ?thesis using read_entries_meta [OF assms(2,3) i(1,2)] i(1) by blast
qed

lemma filter_is_Line [simp]: "filter is_Line (map entry_of ls) = map entry_of (filter fits ls)"
  by (induction ls) auto

lemma following_commits:
  assumes "following H d t gens out" "0 < m" "read_entries H d m mb t = (es, t1)"
  shows "following H d (commit_batch t1) gens (out @ filter is_Line es)"
proof -
  let ?t0 = "handle_rotation H d t"
  obtain tss i where r: "es = map entry_of (concat tss)" "wo_log d = Some i" "read_step d m ?t0 tss t1"
      "out @ map entry_of (filter fits (all_lines d (sources ?t0))) = map entry_of (filter fits (written d gens))"
      "ta_last_known_size t1 = length (wo_files d i)" "ta_file t1 = ta_file ?t0 \<or> ta_file t1 = Some (OnDisk i)"
    using following_read [OF assms] by blast
  note n = following_rotation(1) [OF assms(1)]
  have n': "cu_inode (ta_state ?t0) = i" "aligned (wo_files d i) (cu_offset (ta_state ?t0))"
    using n r(2) unfolding noticed_def by auto
  obtain ts and u :: uncommitted_read where ts: "prefix ts (source_lines d (last (sources ?t0)))"
      "ta_state t1 = (ta_state ?t0)\<lparr>cu_offset := cu_offset (ta_state ?t0) + lines_len ts\<rparr>"
      "all_lines d (sources ?t0) = concat tss @ all_lines d (sources t1)"
      "un_exhausted u @ map fst (ta_pending_drains t1) = map fst (ta_pending_drains ?t0)"
    using r(3) unfolding read_step_def by blast
  have ts': "ts = take (length ts) (source_lines d (last (sources ?t0)))" "length ts \<le> length (source_lines d (last (sources ?t0)))"
    using ts(1) by (auto simp: prefix_def)
  have al: "aligned (wo_files d i) (cu_offset (ta_state ?t0) + lines_len ts)"
    using aligned_advance [OF n'(2), of "length ts"] ts' n'(1) by (simp add: sources_def source_lines_def)
  have "fst ` set (ta_pending_drains t1) \<subseteq> fst ` set (ta_pending_drains ?t0)"
    using arg_cong [OF ts(4), of set] by auto
  moreover have "sources (commit_batch t1) = sources t1" by (simp add: commit_batch_def sources_def)
  ultimately show ?thesis
    using noticed_after [OF n r(2) _ al, of "commit_batch t1"] ts(2,3) r by (simp add: commit_batch_def)
qed

lemma following_rewinds:
  assumes "following H d t gens out" "0 < m" "read_entries H d m mb t = (es, t1)"
  shows "following H d (rewind_batch t1) gens out"
proof -
  let ?t0 = "handle_rotation H d t"
  obtain tss i where r: "wo_log d = Some i" "read_step d m ?t0 tss t1"
      "out @ map entry_of (filter fits (all_lines d (sources ?t0))) = map entry_of (filter fits (written d gens))"
      "ta_last_known_size t1 = length (wo_files d i)" "ta_file t1 = ta_file ?t0 \<or> ta_file t1 = Some (OnDisk i)"
    using following_read [OF assms] by blast
  note n = following_rotation(1) [OF assms(1)] and b = rewind_read_step [OF r(2)]
  have al: "aligned (wo_files d i) (cu_offset (ta_state ?t0))" using n r(1) unfolding noticed_def by auto
  show ?thesis
    using noticed_after [OF n r(1) _ al, of "rewind_batch t1"] b r by (simp add: rewind_keeps)
qed

lemma commit_through_state:
  assumes "commit_batch_through H d k t = (True, t')"
  shows "\<exists>off. ta_state t' = (ta_state (rewind_batch t))\<lparr>cu_offset := off\<rparr>"
  using assms fold_move_over_keeps(3)
  by (auto simp: commit_batch_through_def Let_def split: option.splits if_splits rotation_event.splits)

lemma following_commits_through:
  assumes "following H d t gens out" "0 < m" "read_entries H d m mb t = (es, t1)"
    and "commit_batch_through H d k t1 = (True, t2)"
  shows "following H d t2 gens (out @ take k (filter is_Line es))"
proof -
  let ?t0 = "handle_rotation H d t"
  obtain tss i where r: "es = map entry_of (concat tss)" "wo_log d = Some i" "read_step d m ?t0 tss t1"
      "out @ map entry_of (filter fits (all_lines d (sources ?t0))) = map entry_of (filter fits (written d gens))"
      "ta_last_known_size t1 = length (wo_files d i)" "ta_file t1 = ta_file ?t0 \<or> ta_file t1 = Some (OnDisk i)"
    using following_read [OF assms(1-3)] by blast
  note n = following_rotation(1) [OF assms(1)] and c = commit_through_sources [OF r(3) assms(4)]
    and keeps = commit_through_keeps [OF assms(4)]
  have rd: "reads tss (map (source_lines d) (sources ?t0))" using r(3) by (simp add: read_step_def)
  have n': "cu_inode (ta_state ?t0) = i" "aligned (wo_files d i) (cu_offset (ta_state ?t0))"
    using n r(2) unfolding noticed_def by auto
  obtain off where st: "ta_state t2 = (ta_state ?t0)\<lparr>cu_offset := off\<rparr>"
    using commit_through_state [OF assms(4)] rewind_read_step(2) [OF r(3)] by auto
  have moves: "list_all2 (line_move d) (sources ?t0) (sources t2)" using moved_line_moves [OF rd] c(2) by simp
  moreover have "length (ta_pending_drains ?t0) = length (ta_pending_drains t2)"
    using list_all2_lengthD [OF moves] by (simp add: sources_def)
  ultimately have "line_move d (last (sources ?t0)) (last (sources t2))"
    and dr: "list_all2 (line_move d) (ta_pending_drains ?t0) (ta_pending_drains t2)"
    by (simp_all add: sources_def list_all2_append)
  then have al: "aligned (wo_files d i) off"
    using aligned_advance [OF n'(2)] n'(1) st by (auto simp: sources_def line_move_def source_lines_def)
  have "map fst (ta_pending_drains t2) = map fst (ta_pending_drains ?t0)"
    using dr by (induction rule: list_all2_induct) (auto simp: line_move_def)
  then have "fst ` set (ta_pending_drains t2) \<subseteq> fst ` set (ta_pending_drains ?t0)" by (metis list.set_map order_refl)
  moreover have "filter fits (all_lines d (sources ?t0))
      = take k (filter fits (concat tss)) @ filter fits (all_lines d (sources t2))"
    using moved_lines [OF rd c(1)] c(1,2) r(3) by (simp add: read_step_def)
  ultimately show ?thesis
    using noticed_after [OF n r(2) st al] r c(3) keeps by (simp add: take_map)
qed

lemma follows_following: "follows H d t gens out \<Longrightarrow> following H d t gens out"
  by (induction rule: follows.induct)
    (blast intro: following_begins following_writes following_renames following_commits following_rewinds
      following_commits_through)+

text \<open>A poll that returns no line has nothing left to return.\<close>

lemma following_progress:
  assumes "following H d t gens out" "0 < m" "read_entries H d m mb t = (es, t1)" "filter is_Line es = []"
  shows "filter fits (all_lines d (view d t)) = []"
proof -
  obtain tss where "es = map entry_of (concat tss)" "filter fits (concat tss) = [] \<Longrightarrow> concat tss = all_lines d (view d t)"
    using following_read [OF assms(1-3)] by blast
  then show ?thesis using assms(4) by simp
qed

end
