(* ===== verification/Shipper.thy ===== *)
theory Shipper
  imports Gateway Tail_Follow
begin

text \<open>
  \<open>crates/shipper\<close>: batches are cut from a followed log (\<open>batcher.rs\<close>), sent to the gateway and
  confirmed (\<open>client.rs\<close>, \<open>state.rs\<close>), log after log and pass after pass (\<open>main.rs\<close>). The gateway is
  the one of theory \<open>Gateway\<close>, reached through its connection handler; what the network and the local
  disk do is the outcome \<open>turn\<close> of each network operation, and a log directory is a \<open>world\<close> for each
  moment, counted in network operations.
\<close>

section \<open>Batches\<close>

definition MAX_RECORDS_FRAME_SAFE :: nat where "MAX_RECORDS_FRAME_SAFE = 15"

definition DEFAULT_MAX_RECORDS :: nat where "DEFAULT_MAX_RECORDS = MAX_RECORDS_FRAME_SAFE"

text \<open>\<open>read_batch\<close> has no byte budget (\<open>u64::MAX\<close>). The inner \<open>None\<close> is \<open>Batch::new\<close> panicking.\<close>

definition next_batch ::
  "(bytes \<Rightarrow> bytes) \<Rightarrow> world \<Rightarrow> log_tailer \<Rightarrow> u64 \<Rightarrow> bytes \<Rightarrow> nat \<Rightarrow> batch option \<times> log_tailer" where
  "next_batch H d t last_seq last_hash max_records =
     (let n = min max_records MAX_RECORDS_FRAME_SAFE;
          (lines, t) = read_batch_bounded H d n (2 ^ 64 - 1) t
      in if lines = [] then (None, t)
         else let records = filter (\<lambda>l. length l mod 2 ^ 32 \<le> MAX_RECORD_LEN) lines
              in if records = [] then (None, t)
                 else (batch_new H (last_seq + 1) last_hash records, t))"

section \<open>Confirmed state\<close>

record confirmed_state =
  cf_last_seq :: u64
  cf_last_batch_hash :: bytes

definition confirmed_fresh :: confirmed_state where
  "confirmed_fresh = \<lparr>cf_last_seq = 0, cf_last_batch_hash = ZERO_HASH\<rparr>"

datatype confirmed_file = NotFound | ReadFails | NotJson | Saved confirmed_state

definition is_safe_state_key :: "rust_str \<Rightarrow> bool" where
  "is_safe_state_key key \<longleftrightarrow>
     key \<noteq> [] \<and> key \<noteq> [46] \<and> key \<noteq> [46, 46] \<and> 47 \<notin> set key \<and> 92 \<notin> set key
     \<and> \<not> list_ex is_control key"

definition confirmed_load ::
  "(rust_str \<Rightarrow> confirmed_file) \<Rightarrow> rust_str \<Rightarrow> unit + confirmed_state option" where
  "confirmed_load dir key =
     (if \<not> is_safe_state_key key then Inl ()
      else case dir key of
             NotFound \<Rightarrow> Inr None
           | ReadFails \<Rightarrow> Inl ()
           | NotJson \<Rightarrow> Inr None
           | Saved c \<Rightarrow> Inr (Some c))"

definition load_or_fresh :: "(rust_str \<Rightarrow> confirmed_file) \<Rightarrow> rust_str \<Rightarrow> confirmed_state" where
  "load_or_fresh dir key =
     (case confirmed_load dir key of Inr (Some c) \<Rightarrow> c | _ \<Rightarrow> confirmed_fresh)"

definition confirmed_store ::
  "store_io \<Rightarrow> confirmed_state \<Rightarrow> (rust_str \<Rightarrow> confirmed_file) \<Rightarrow> rust_str
   \<Rightarrow> bool \<times> (rust_str \<Rightarrow> confirmed_file)" where
  "confirmed_store io c dir key =
     (if \<not> is_safe_state_key key then (False, dir)
      else case io of
             StoreOk \<Rightarrow> (True, dir(key := Saved c))
           | StoreFailsBefore \<Rightarrow> (False, dir)
           | StoreFailsAfter \<Rightarrow> (False, dir(key := Saved c)))"

section \<open>One exchange\<close>

text \<open>What happens to a frame that is sent: it never arrives, or the gateway handles it with the given
  I/O outcome and the acknowledgement arrives or not. A timeout is one of the two losses.\<close>

datatype link = FrameLost | Handled accept_io bool

definition exchange ::
  "(bytes \<Rightarrow> bytes) \<Rightarrow> link \<Rightarrow> rust_str \<Rightarrow> bytes \<Rightarrow> gateway \<Rightarrow> ack option \<times> gateway" where
  "exchange H l cid frame_bytes g =
     (case l of
        FrameLost \<Rightarrow> (None, g)
      | Handled io acked \<Rightarrow>
          (let (acks, g) = handle_connection H (\<lambda>_. (io, acked)) 0 cid
                 (be_bytes 4 (length frame_bytes) @ frame_bytes) g
           in (case acks of
                 [] \<Rightarrow> None
               | a # _ \<Rightarrow> (case decode_ack (encode_ack a) of Inr a \<Rightarrow> Some a | Inl _ \<Rightarrow> None), g)))"

text \<open>One network operation: whether a dial succeeds, what happens to a frame, and how the writes that
  follow a confirmation go.\<close>

record turn =
  tu_connects :: bool
  tu_link :: link
  tu_store :: store_io
  tu_cursor :: bool

section \<open>One cycle\<close>

datatype stop_reason = Rejected ack_reason | RetriesExhausted | ChainDiverged u64 u64

record cycle_report =
  cr_batches_shipped :: nat
  cr_stopped :: "stop_reason option"

record retry_policy =
  rp_backoff :: nat
  rp_max_consecutive_retries :: nat

text \<open>A log and the state of its tailer; what all logs of a collector share, with the clock.\<close>

record sensor_log =
  sl_files :: "nat \<Rightarrow> world"
  sl_tailer :: log_tailer
  sl_cursor :: cursor_dir

record hub =
  hb_dir :: "rust_str \<Rightarrow> confirmed_file"
  hb_gateway :: gateway
  hb_clock :: nat

text \<open>The resend loop: the last acknowledgement, or \<open>None\<close> if the connection died.\<close>

function send_loop ::
  "(bytes \<Rightarrow> bytes) \<Rightarrow> (nat \<Rightarrow> turn) \<Rightarrow> retry_policy \<Rightarrow> rust_str \<Rightarrow> bytes \<Rightarrow> nat \<Rightarrow> nat \<Rightarrow> gateway
   \<Rightarrow> ack option \<times> nat \<times> gateway" where
  "send_loop H net rp cid frame_bytes consecutive_retries k g =
     (let (a, g) = exchange H (tu_link (net k)) cid frame_bytes g
      in case a of
           None \<Rightarrow> (None, k, g)
         | Some a \<Rightarrow>
             if ak_status a = Retry \<and> \<not> rp_max_consecutive_retries rp < consecutive_retries + 1
             then send_loop H net rp cid frame_bytes (consecutive_retries + 1) (k + 1) g
             else (Some a, k, g))"
  by pat_completeness auto
termination
  by (relation "measure (\<lambda>(H, net, rp, cid, f, n, k, g). rp_max_consecutive_retries rp - n)") auto

declare send_loop.simps [simp del]

datatype batch_end = Shipped confirmed_state | IoError | Stopped stop_reason

definition confirm ::
  "turn \<Rightarrow> rust_str \<Rightarrow> batch \<Rightarrow> sensor_log \<Rightarrow> hub \<Rightarrow> batch_end \<times> sensor_log \<times> hub" where
  "confirm u key b l h =
     (let confirmed = \<lparr>cf_last_seq = ba_seq b, cf_last_batch_hash = ba_batch_hash b\<rparr>;
          l = l\<lparr>sl_tailer := commit_batch (sl_tailer l)\<rparr>;
          (stored, dir) = confirmed_store (tu_store u) confirmed (hb_dir h) key;
          h = h\<lparr>hb_dir := dir\<rparr>
      in if \<not> stored then (IoError, l, h)
         else let (saved, cd) = persist_cursor (tu_cursor u) (sl_tailer l) (sl_cursor l);
                  l = l\<lparr>sl_cursor := cd\<rparr>
              in if saved then (Shipped confirmed, l, h) else (IoError, l, h))"

definition rewind_log :: "sensor_log \<Rightarrow> sensor_log" where
  "rewind_log l = l\<lparr>sl_tailer := rewind_batch (sl_tailer l)\<rparr>"

definition ship_batch ::
  "(bytes \<Rightarrow> bytes) \<Rightarrow> (nat \<Rightarrow> turn) \<Rightarrow> retry_policy \<Rightarrow> rust_str \<Rightarrow> batch \<Rightarrow> sensor_log \<Rightarrow> hub
   \<Rightarrow> batch_end \<times> sensor_log \<times> hub" where
  "ship_batch H net rp key b l h =
     (let (a, k, g) = send_loop H net rp key (encode_frame b) 0 (hb_clock h) (hb_gateway h);
          h = h\<lparr>hb_gateway := g, hb_clock := k + 1\<rparr>
      in case a of
           None \<Rightarrow> (IoError, rewind_log l, h)
         | Some a \<Rightarrow>
             (case ak_status a of
                Accepted \<Rightarrow> confirm (net k) key b l h
              | Duplicate \<Rightarrow>
                  if ak_next_expected_seq a = ba_seq b + 1 then confirm (net k) key b l h
                  else (Stopped (ChainDiverged (ba_seq b) (ak_next_expected_seq a)), rewind_log l, h)
              | Retry \<Rightarrow> (Stopped RetriesExhausted, rewind_log l, h)
              | Reject \<Rightarrow> (Stopped (Rejected (ak_reason a)), rewind_log l, h)))"

text \<open>The loop of a cycle runs as long as the log has lines, which a growing log can make forever.\<close>

partial_function (option) ship_loop ::
  "(bytes \<Rightarrow> bytes) \<Rightarrow> (nat \<Rightarrow> turn) \<Rightarrow> retry_policy \<Rightarrow> rust_str \<Rightarrow> nat \<Rightarrow> confirmed_state \<Rightarrow> nat \<Rightarrow> sensor_log
   \<Rightarrow> hub \<Rightarrow> ((unit + cycle_report) \<times> sensor_log \<times> hub) option" where
  "ship_loop H net rp key max_records confirmed shipped l h =
     (case next_batch H (sl_files l (hb_clock h)) (sl_tailer l) (cf_last_seq confirmed)
             (cf_last_batch_hash confirmed) max_records of
        (None, t) \<Rightarrow>
          Some (Inr \<lparr>cr_batches_shipped = shipped, cr_stopped = None\<rparr>, l\<lparr>sl_tailer := t\<rparr>, h)
      | (Some b, t) \<Rightarrow>
          (case ship_batch H net rp key b (l\<lparr>sl_tailer := t\<rparr>) h of
             (Shipped confirmed', l', h') \<Rightarrow>
               ship_loop H net rp key max_records confirmed' (shipped + 1) l' h'
           | (IoError, l', h') \<Rightarrow> Some (Inl (), l', h')
           | (Stopped r, l', h') \<Rightarrow>
               Some (Inr \<lparr>cr_batches_shipped = shipped, cr_stopped = Some r\<rparr>, l', h')))"

definition ship_cycle ::
  "(bytes \<Rightarrow> bytes) \<Rightarrow> (nat \<Rightarrow> turn) \<Rightarrow> retry_policy \<Rightarrow> rust_str \<Rightarrow> nat \<Rightarrow> sensor_log \<Rightarrow> hub
   \<Rightarrow> ((unit + cycle_report) \<times> sensor_log \<times> hub) option" where
  "ship_cycle H net rp key max_records l h =
     ship_loop H net rp key max_records (load_or_fresh (hb_dir h) key) 0 l h"

section \<open>Passes over the logs\<close>

text \<open>One pass: why the loop stops for good, if it does, whether anything was shipped, and the logs.\<close>

fun ship_pass ::
  "(bytes \<Rightarrow> bytes) \<Rightarrow> (nat \<Rightarrow> turn) \<Rightarrow> retry_policy \<Rightarrow> rust_str \<Rightarrow> nat \<Rightarrow> sensor_log list \<Rightarrow> bool \<Rightarrow> hub
   \<Rightarrow> (stop_reason option \<times> bool \<times> sensor_log list \<times> hub) option" where
  "ship_pass H net rp key max_records [] any_shipped h = Some (None, any_shipped, [], h)"
| "ship_pass H net rp key max_records (l # ls) any_shipped h =
     (let connects = tu_connects (net (hb_clock h)); h = h\<lparr>hb_clock := hb_clock h + 1\<rparr>
      in case (if connects then ship_cycle H net rp key max_records l h else Some (Inl (), l, h)) of
           None \<Rightarrow> None
         | Some (result, l', h') \<Rightarrow>
             (let any_shipped = (any_shipped \<or> (case result of
                    Inl _ \<Rightarrow> False | Inr report \<Rightarrow> 0 < cr_batches_shipped report));
                  stopped = (case result of Inl _ \<Rightarrow> None | Inr report \<Rightarrow> cr_stopped report)
              in if stopped \<noteq> None \<and> stopped \<noteq> Some RetriesExhausted
                 then Some (stopped, any_shipped, l' # ls, h')
                 else map_option (\<lambda>(r, any_shipped, ls, h). (r, any_shipped, l' # ls, h))
                        (ship_pass H net rp key max_records ls any_shipped h')))"

text \<open>A pass that shipped nothing is followed by a pause. The loop returns on a permanent stop only.\<close>

partial_function (option) run_ship_loop ::
  "(bytes \<Rightarrow> bytes) \<Rightarrow> (nat \<Rightarrow> turn) \<Rightarrow> retry_policy \<Rightarrow> rust_str \<Rightarrow> nat \<Rightarrow> sensor_log list \<Rightarrow> hub
   \<Rightarrow> (stop_reason \<times> sensor_log list \<times> hub) option" where
  "run_ship_loop H net rp key max_records ls h =
     (case ship_pass H net rp key max_records ls False h of
        None \<Rightarrow> None
      | Some (Some r, any_shipped, ls', h') \<Rightarrow> Some (r, ls', h')
      | Some (None, any_shipped, ls', h') \<Rightarrow>
          run_ship_loop H net rp key max_records ls'
            (if any_shipped then h' else h'\<lparr>hb_clock := hb_clock h' + 1\<rparr>))"

definition MAX_CONSECUTIVE_RETRIES :: nat where "MAX_CONSECUTIVE_RETRIES = 5"

section \<open>Lines as records\<close>

lemma utf8_chunk_len:
  assumes "(n, ok) = utf8_chunk b rest"
  shows "n \<le> Suc (length rest)"
proof -
  let ?conts = "takeWhile cont_byte (take (utf8_width b - 2) (drop 1 rest))"
  have "length ?conts \<le> length (take (utf8_width b - 2) (drop 1 rest))" by (rule length_takeWhile_le)
  then have "length ?conts \<le> length rest - 1" by simp
  moreover have "n = 1 \<or> rest \<noteq> [] \<and> n = 2 + length ?conts"
    using assms by (auto simp: utf8_chunk_def Let_def split: if_splits)
  ultimately show ?thesis by (cases rest) auto
qed

lemma utf8_lossy_newline: "10 \<notin> set l \<Longrightarrow> 10 \<notin> set (utf8_lossy l)"
proof (induction l rule: utf8_lossy.induct)
  case (2 b rest)
  obtain n ok where n: "utf8_chunk b rest = (n, ok)" by fastforce
  have "10 \<notin> set (drop n (b # rest))" "10 \<notin> set (take n (b # rest))"
    using 2(2) in_set_dropD in_set_takeD by metis+
  then show ?case using 2(1) [OF n [symmetric] refl] by (simp add: n)
qed simp

lemma utf8_lossy_length: "length (utf8_lossy l) \<le> 3 * length l"
proof (induction l rule: utf8_lossy.induct)
  case (2 b rest)
  obtain n ok where n: "utf8_chunk b rest = (n, ok)" by fastforce
  have "0 < n" "n \<le> length (b # rest)"
    using utf8_chunk_pos [OF n [symmetric]] utf8_chunk_len [OF n [symmetric]] by simp_all
  moreover have "length (utf8_lossy (drop n (b # rest))) \<le> 3 * (length (b # rest) - n)"
    using 2(1) [OF n [symmetric] refl] by simp
  moreover have "length (utf8_lossy (b # rest)) \<le> max n 3 + length (utf8_lossy (drop n (b # rest)))"
    by (simp add: n min_def max_def)
  ultimately show ?case by linarith
qed simp

lemma utf8_lossy_Nil_iff [simp]: "utf8_lossy l = [] \<longleftrightarrow> l = []"
proof (cases l)
  case (Cons b rest)
  obtain n ok where n: "utf8_chunk b rest = (n, ok)" by fastforce
  then have "0 < n" using utf8_chunk_pos [OF n [symmetric]] by simp
  then have "take n (b # rest) \<noteq> []" by simp
  then show ?thesis unfolding Cons utf8_lossy.simps n by (simp del: take_Cons')
qed simp


text \<open>A log line as it can be read: without a newline and within the line bound.\<close>

definition tailed :: "tail_entry \<Rightarrow> bool" where
  "tailed e \<longleftrightarrow> (\<exists>l. 10 \<notin> set l \<and> e = entry_of l)"

lemma complete_lines_newline: "10 \<notin> set acc \<Longrightarrow> l \<in> set (complete_lines acc bs) \<Longrightarrow> 10 \<notin> set l"
  by (induction acc bs rule: complete_lines.induct) (auto split: if_splits)

lemma read_lines_from_tailed:
  assumes "read_lines_from d f off m b = Inr r"
  shows "list_all tailed (lr_entries r)" "count_lines (lr_entries r) \<le> m"
proof -
  define ls where "ls = source_lines d (f, off)"
  have "\<not> wo_broken d (file_ino f)" using assms by (auto simp: read_lines_from_def split: if_splits)
  then have es: "lr_entries r = map entry_of (taken_by m b ls)"
    using read_lines_from_eq [of d f off ls m b] assms by (auto simp: ls_def)
  have "set (taken_by m b ls) \<subseteq> set ls" using set_take_subset by (fastforce simp: taken_by_def)
  moreover have "10 \<notin> set l" if "l \<in> set ls" for l
    using that complete_lines_newline [of "[]"] by (auto simp: ls_def source_lines_def)
  ultimately show "list_all tailed (lr_entries r)" by (auto simp: es list_all_iff tailed_def)
  show "count_lines (lr_entries r) \<le> m"
    using taken_by_count [of m b ls] by (simp add: es count_lines_def)
qed

lemma count_lines_append [simp]: "count_lines (xs @ ys) = count_lines xs + count_lines ys"
  by (simp add: count_lines_def)

lemma drain_loop_tailed:
  assumes "list_all tailed (ds_entries s)" "ds_line_count s = count_lines (ds_entries s)" "ds_line_count s \<le> m"
  shows "list_all tailed (ds_entries (drain_loop d m mb drains s))
    \<and> ds_line_count (drain_loop d m mb drains s) = count_lines (ds_entries (drain_loop d m mb drains s))
    \<and> ds_line_count (drain_loop d m mb drains s) \<le> m"
  using assms
proof (induction d m mb drains s rule: drain_loop.induct)
  case (2 d m mb f off drains s)
  show ?case
  proof (cases "ds_line_count s < m \<and> \<not> ds_budget_hit s")
    case False
    then have full: "drain_loop d m mb ((f, off) # drains) s = s\<lparr>ds_drains := (f, off) # drains\<rparr>" by simp
    show ?thesis unfolding full using 2(3-) by simp
  next
    case go: True
    let ?b = "\<lparr>lb_left = mb - ds_bytes_taken s, lb_first_is_free = (ds_line_count s = 0)\<rparr>"
    show ?thesis
    proof (cases "read_lines_from d f off (m - ds_line_count s) ?b")
      case (Inl e)
      then show ?thesis using 2(1) [OF _ refl refl Inl] 2(3-) go by (simp add: Let_def)
    next
      case (Inr r)
      note r = read_lines_from_tailed [OF Inr]
      have le: "ds_line_count s + count_lines (lr_entries r) \<le> m" using r(2) go by linarith
      show ?thesis
      proof (cases "count_lines (lr_entries r) < m - ds_line_count s \<and> \<not> lr_budget_hit r")
        case True
        then have "drain_loop d m mb ((f, off) # drains) s = drain_loop d m mb drains
            (s\<lparr>ds_entries := ds_entries s @ lr_entries r,
               ds_line_count := ds_line_count s + count_lines (lr_entries r),
               ds_bytes_taken := ds_bytes_taken s + lr_line_bytes r, ds_budget_hit := lr_budget_hit r,
               ds_uncommitted := record_read (length (un_exhausted (ds_uncommitted s))) r (ds_uncommitted s)
                 \<lparr>un_exhausted := un_exhausted (record_read (length (un_exhausted (ds_uncommitted s))) r
                   (ds_uncommitted s)) @ [f]\<rparr>\<rparr>)"
          using go by (simp add: Let_def Inr)
        then show ?thesis
          using 2(2) [OF _ refl refl Inr refl refl refl True] 2(3-) go r(1) le by simp
      next
        case False
        then have stop: "ds_entries (drain_loop d m mb ((f, off) # drains) s) = ds_entries s @ lr_entries r"
            "ds_line_count (drain_loop d m mb ((f, off) # drains) s) = ds_line_count s + count_lines (lr_entries r)"
          using go by (auto simp add: Let_def Inr)
        show ?thesis unfolding stop using 2(3,4) r(1) le by simp
      qed
    qed
  qed
qed simp

lemma read_entries_tailed:
  assumes "read_entries H d m mb t = (es, t')"
  shows "list_all tailed es \<and> count_lines es \<le> m"
proof (cases "m = 0")
  case False
  define t0 where "t0 = handle_rotation H d t"
  define s where "s = drain_loop d m mb (ta_pending_drains t0)
      \<lparr>ds_entries = [], ds_line_count = 0, ds_bytes_taken = 0, ds_budget_hit = False,
       ds_uncommitted = begin_batch t0, ds_drains = []\<rparr>"
  have s: "list_all tailed (ds_entries s)" "ds_line_count s = count_lines (ds_entries s)" "ds_line_count s \<le> m"
    using drain_loop_tailed [of "\<lparr>ds_entries = [], ds_line_count = 0, ds_bytes_taken = 0, ds_budget_hit = False,
       ds_uncommitted = begin_batch t0, ds_drains = []\<rparr>" m d mb "ta_pending_drains t0"]
    by (simp_all add: s_def count_lines_def)
  let ?b = "\<lparr>lb_left = mb - ds_bytes_taken s, lb_first_is_free = (ds_line_count s = 0)\<rparr>"
  have "es = ds_entries s \<or> (\<exists>f off r. read_lines_from d f off (m - ds_line_count s) ?b = Inr r
      \<and> es = ds_entries s @ lr_entries r)"
    using assms False unfolding read_entries_def Let_def t0_def [symmetric] s_def [symmetric]
    by (auto split: if_splits option.splits sum.splits prod.splits)
  then show ?thesis using s read_lines_from_tailed by fastforce
qed (use assms in \<open>simp add: read_entries_def count_lines_def\<close>)

section \<open>The next batch\<close>

text \<open>The records a read of the log leads to.\<close>

fun line_text :: "tail_entry \<Rightarrow> bytes option" where
  "line_text (Line l) = Some l"
| "line_text (Discarded n) = None"

definition records_of :: "tail_entry list \<Rightarrow> bytes list" where
  "records_of es = filter (\<lambda>l. length l \<le> MAX_RECORD_LEN) (List.map_filter line_text es)"

lemma map_filter_line_text:
  "List.map_filter (\<lambda>e. case e of Line l \<Rightarrow> Some l | Discarded n \<Rightarrow> None) es = List.map_filter line_text es"
  by (rule arg_cong [where f = "\<lambda>f. List.map_filter f es"]) (rule ext, simp split: tail_entry.split)

lemma records_of_simps [simp]:
  "records_of [] = []" "records_of (xs @ ys) = records_of xs @ records_of ys"
  by (simp_all add: records_of_def map_filter_def)

lemma records_of_lines: "records_of (filter is_Line es) = records_of es"
proof (induction es)
  case (Cons e es)
  then show ?case by (cases e) (simp_all add: records_of_def map_filter_simps)
qed simp

lemma records_of_count: "length (records_of es) \<le> count_lines es"
proof -
  have "length (List.map_filter line_text es) = count_lines es"
  proof (induction es)
    case (Cons e es)
    then show ?case by (cases e) (simp_all add: map_filter_simps count_lines_def)
  qed (simp add: map_filter_simps count_lines_def)
  then show ?thesis using length_filter_le unfolding records_of_def by metis
qed

lemma tailed_text:
  assumes "list_all tailed es" "l \<in> set (List.map_filter line_text es)"
  shows "10 \<notin> set l" "length l < 2 ^ 32"
proof -
  obtain e where e: "e \<in> set es" "line_text e = Some l"
    using assms(2) by (auto simp: map_filter_def)
  have "e = Line l" using e(2) by (cases e) simp_all
  then obtain raw where raw: "10 \<notin> set raw" "entry_of raw = Line l"
    using assms(1) e(1) unfolding list_all_iff tailed_def by metis
  then have "l = utf8_lossy raw" "length raw \<le> MAX_LINE_BYTES" by (auto simp: entry_of_def split: if_splits)
  then show "10 \<notin> set l" "length l < 2 ^ 32"
    using utf8_lossy_newline [OF raw(1)] utf8_lossy_length [of raw] by (simp_all add: MAX_LINE_BYTES_def)
qed

lemma next_batch_read:
  assumes "read_entries H d (min max_records MAX_RECORDS_FRAME_SAFE) (2 ^ 64 - 1) t = (es, t')"
  shows "next_batch H d t seq hash max_records =
    (if records_of es = [] then None
     else Some (let b = \<lparr>ba_seq = seq + 1, ba_prev_batch_hash = hash, ba_records = records_of es,
                         ba_batch_hash = replicate 32 0\<rparr>
                in b\<lparr>ba_batch_hash := H (encode_prefix b)\<rparr>), t')"
proof -
  note es = read_entries_tailed [OF assms]
  have rs: "filter (\<lambda>l. length l mod 2 ^ 32 \<le> MAX_RECORD_LEN) (List.map_filter line_text es) = records_of es"
    unfolding records_of_def using tailed_text(2) es by (intro filter_cong) auto
  have "length (records_of es) \<le> 15"
    using records_of_count [of es] es by (auto simp: MAX_RECORDS_FRAME_SAFE_def)
  then have new: "batch_new H (seq + 1) hash (records_of es) =
      (if records_of es = [] then None
       else Some (let b = \<lparr>ba_seq = seq + 1, ba_prev_batch_hash = hash, ba_records = records_of es,
                           ba_batch_hash = replicate 32 0\<rparr>
                  in b\<lparr>ba_batch_hash := H (encode_prefix b)\<rparr>))"
    by (simp add: batch_new_def MAX_RECORDS_PER_BATCH_def)
  have read: "read_batch_bounded H d (min max_records MAX_RECORDS_FRAME_SAFE) (2 ^ 64 - 1) t
      = (List.map_filter line_text es, t')"
    unfolding read_batch_bounded_def assms by (simp add: map_filter_line_text)
  have "List.map_filter line_text es = [] \<Longrightarrow> records_of es = []" by (simp add: records_of_def)
  moreover have "next_batch H d t seq hash max_records =
      (if List.map_filter line_text es = [] then (None, t')
       else if records_of es = [] then (None, t') else (batch_new H (seq + 1) hash (records_of es), t'))"
    by (simp only: next_batch_def Let_def read prod.case rs)
  ultimately show ?thesis unfolding new by (simp split: if_splits)
qed

lemma next_batch_Some:
  assumes "next_batch H d t seq hash max_records = (Some b, t')"
  obtains es where "read_entries H d (min max_records MAX_RECORDS_FRAME_SAFE) (2 ^ 64 - 1) t = (es, t')"
    "ba_records b = records_of es" "records_of es \<noteq> []" "length (records_of es) \<le> 15"
    "\<forall>r \<in> set (records_of es). length r \<le> MAX_RECORD_LEN \<and> 10 \<notin> set r"
    "ba_seq b = seq + 1" "ba_prev_batch_hash b = hash" "ba_batch_hash b = H (encode_prefix b)"
proof -
  obtain es t1 where r: "read_entries H d (min max_records MAX_RECORDS_FRAME_SAFE) (2 ^ 64 - 1) t = (es, t1)"
    by fastforce
  note es = read_entries_tailed [OF r]
  have "length (records_of es) \<le> 15"
    using records_of_count [of es] es by (auto simp: MAX_RECORDS_FRAME_SAFE_def)
  moreover have "\<forall>r \<in> set (records_of es). length r \<le> MAX_RECORD_LEN \<and> 10 \<notin> set r"
    using tailed_text(1) es by (auto simp: records_of_def)
  moreover have "b = (let b = \<lparr>ba_seq = seq + 1, ba_prev_batch_hash = hash, ba_records = records_of es,
        ba_batch_hash = replicate 32 0\<rparr> in b\<lparr>ba_batch_hash := H (encode_prefix b)\<rparr>)"
    "records_of es \<noteq> []" "t' = t1"
    using assms by (auto simp: next_batch_read [OF r] split: if_splits)
  ultimately show thesis using that r by (simp add: Let_def encode_prefix_def)
qed

lemma batch_frame_bound:
  assumes "length (ba_batch_hash b) = 32" "length (ba_prev_batch_hash b) = 32"
    and "length (ba_records b) \<le> 15" "\<forall>r \<in> set (ba_records b). length r \<le> MAX_RECORD_LEN \<and> 10 \<notin> set r"
  shows "length (encode_frame b) \<le> MAX_FRAME_LEN"
proof -
  have "(\<Sum>r\<leftarrow>rs. 4 + length r) \<le> (4 + MAX_RECORD_LEN) * length rs"
    if "\<forall>r \<in> set rs. length r \<le> MAX_RECORD_LEN \<and> 10 \<notin> set r" for rs :: "bytes list"
    using that by (induction rs) auto
  from this [OF assms(4)] have "(\<Sum>r\<leftarrow>ba_records b. 4 + length r) \<le> (4 + MAX_RECORD_LEN) * 15"
    using assms(3) by (meson le_trans mult_le_mono2)
  then show ?thesis using assms(1,2) by (simp add: encode_frame_length frame_constants)
qed

lemma batch_frame_decodes:
  assumes "\<And>x. length (H x) = 32" "length (ba_prev_batch_hash b) = 32" "ba_batch_hash b = H (encode_prefix b)"
    and "ba_records b \<noteq> []" "length (ba_records b) \<le> 15"
    and "\<forall>r \<in> set (ba_records b). length r \<le> MAX_RECORD_LEN \<and> 10 \<notin> set r"
  shows "decode_frame H (encode_frame b) = (if [] \<in> set (ba_records b) then Inl RecordTooLarge else Inr b)"
proof -
  have len: "length (ba_batch_hash b) = 32" using assms(1,3) by simp
  note fits = batch_frame_bound [OF len assms(2,5,6)]
  show ?thesis
proof (cases "[] \<in> set (ba_records b)")
  case True
  then obtain good rest where g: "ba_records b = good @ [] # rest" "[] \<notin> set good"
    by (metis split_list_first)
  have "\<forall>r \<in> set good. record_ok r" using assms(6) g by (auto simp: record_ok_def)
  moreover have "length (ba_records b) \<le> MAX_RECORDS_PER_BATCH"
    using assms(5) by (simp add: MAX_RECORDS_PER_BATCH_def)
  ultimately have "decode_frame H (encode_frame b) = Inl RecordTooLarge"
    using empty_record_refused [OF g(1) _ _ assms(2) len fits] by blast
  then show ?thesis using True by simp
next
  case False
  then have "\<forall>r \<in> set (ba_records b). record_ok r" using assms(6) by (metis record_ok_def)
  moreover have "length (ba_records b) \<le> MAX_RECORDS_PER_BATCH"
    using assms(5) by (simp add: MAX_RECORDS_PER_BATCH_def)
  moreover have "length (ba_batch_hash b) = TRAILER_LEN" using len by (simp add: TRAILER_LEN_def)
  ultimately have "batch_ok H b" unfolding batch_ok_def using assms(2,3,4) fits by blast
  then show ?thesis using False decode_encode_frame by simp
qed
qed

section \<open>One exchange and one batch\<close>

lemma handle_connection_single:
  assumes "length frame_bytes \<le> MAX_FRAME_LEN"
  shows "handle_connection H (\<lambda>_. (io, acked)) 0 cid (be_bytes 4 (length frame_bytes) @ frame_bytes) g
    = (let (a, failed, g') = handle_frame H io cid frame_bytes g in (if acked then [a] else [], g'))"
proof -
  have len: "from_be (be_bytes 4 (length frame_bytes)) = length frame_bytes"
    using assms by (simp add: from_be_bytes frame_constants)
  have rest: "handle_connection H ios k cid [] g' = ([], g')" for ios k g'
    by (subst handle_connection.simps) simp
  show ?thesis
    using assms by (subst handle_connection.simps) (simp add: len rest Let_def split: prod.split)
qed

lemma exchange_handled:
  assumes "length frame_bytes \<le> MAX_FRAME_LEN"
  shows "exchange H (Handled io acked) cid frame_bytes g
    = (let (a, failed, g') = handle_frame H io cid frame_bytes g in (if acked then Some a else None, g'))"
  using acks.dec_enc by (simp add: exchange_def handle_connection_single [OF assms] Let_def split: prod.split)

text \<open>The gateway's state for the collector is the one the collector has confirmed.\<close>

definition in_sync :: "rust_str \<Rightarrow> confirmed_state \<Rightarrow> gateway \<Rightarrow> bool" where
  "in_sync key c g \<longleftrightarrow>
     current_state g key = \<lparr>co_last_seq = cf_last_seq c, co_last_batch_hash = cf_last_batch_hash c\<rparr>"

text \<open>A turn in which frames may be lost but no acknowledgement, and writes succeed.\<close>

definition benign :: "turn \<Rightarrow> bool" where
  "benign u \<longleftrightarrow>
     (tu_link u = FrameLost \<or> tu_link u = Handled \<lparr>io_spool = SpoolOk, io_store = StoreOk\<rparr> True)
     \<and> tu_store u = StoreOk"

text \<open>A batch cut by \<open>next_batch\<close> on top of a confirmed state.\<close>

definition cut_from :: "(bytes \<Rightarrow> bytes) \<Rightarrow> confirmed_state \<Rightarrow> batch \<Rightarrow> bool" where
  "cut_from H c b \<longleftrightarrow>
     ba_seq b = cf_last_seq c + 1 \<and> ba_prev_batch_hash b = cf_last_batch_hash c
     \<and> ba_batch_hash b = H (encode_prefix b) \<and> ba_records b \<noteq> [] \<and> length (ba_records b) \<le> 15
     \<and> (\<forall>r \<in> set (ba_records b). length r \<le> MAX_RECORD_LEN \<and> 10 \<notin> set r)"

lemma next_batch_cut:
  "next_batch H d t (cf_last_seq c) (cf_last_batch_hash c) n = (Some b, t') \<Longrightarrow> cut_from H c b"
  by (erule next_batch_Some) (simp add: cut_from_def)

lemma cut_from_decodes:
  assumes "\<And>x. length (H x) = 32" "length (cf_last_batch_hash c) = 32" "cut_from H c b"
  shows "decode_frame H (encode_frame b) = (if [] \<in> set (ba_records b) then Inl RecordTooLarge else Inr b)"
    "length (encode_frame b) \<le> MAX_FRAME_LEN"
proof -
  have b: "length (ba_prev_batch_hash b) = 32" "ba_batch_hash b = H (encode_prefix b)" "ba_records b \<noteq> []"
      "length (ba_records b) \<le> 15" "\<forall>r \<in> set (ba_records b). length r \<le> MAX_RECORD_LEN \<and> 10 \<notin> set r"
    using assms(2,3) unfolding cut_from_def by auto
  show "decode_frame H (encode_frame b) = (if [] \<in> set (ba_records b) then Inl RecordTooLarge else Inr b)"
    by (intro batch_frame_decodes assms(1) b)
  show "length (encode_frame b) \<le> MAX_FRAME_LEN"
    by (rule batch_frame_bound [OF _ b(1,4,5)]) (simp add: b(2) assms(1))
qed

definition confirmed_of :: "batch \<Rightarrow> confirmed_state" where
  "confirmed_of b = \<lparr>cf_last_seq = ba_seq b, cf_last_batch_hash = ba_batch_hash b\<rparr>"

lemma confirm_result:
  assumes "confirm u key b l h = (e, l', h')"
  shows "e = Shipped (confirmed_of b) \<or> e = IoError" "sl_tailer l' = commit_batch (sl_tailer l)"
    "sl_files l' = sl_files l" "hb_gateway h' = hb_gateway h" "hb_clock h' = hb_clock h"
    "tu_store u = StoreOk \<Longrightarrow> is_safe_state_key key \<Longrightarrow> load_or_fresh (hb_dir h') key = confirmed_of b"
    "e = Shipped c \<Longrightarrow> load_or_fresh (hb_dir h') key = c"
  using assms
  by (auto simp: confirm_def confirmed_of_def Let_def confirmed_store_def load_or_fresh_def confirmed_load_def
      split: prod.splits if_splits store_io.splits)

text \<open>The resend loop over frames the gateway does not ask to resend.\<close>

lemma send_loop_once:
  assumes "exchange H (tu_link (net k)) cid f g = (a, g')" "\<And>x. a = Some x \<Longrightarrow> ak_status x \<noteq> Retry"
  shows "send_loop H net rp cid f n k g = (a, k, g')"
  using assms by (subst send_loop.simps) (auto split: option.split)

text \<open>The gateway's answer to a batch cut on top of its own state, with its writes succeeding: it takes
  the batch, or refuses it and changes nothing.\<close>

lemma handle_frame_cut:
  assumes "\<And>x. length (H x) = 32" "length (cf_last_batch_hash c) = 32" "cut_from H c b"
    and "is_safe_path_component key"
    and "handle_frame H \<lparr>io_spool = SpoolOk, io_store = StoreOk\<rparr> key (encode_frame b) g = (a, failed, g')"
  shows "ak_status a = Accepted \<and> ak_next_expected_seq a = ba_seq b + 1
      \<and> extends (current_state g key) b \<and> current_state g' key = state_after b
      \<and> gw_spool g' = (gw_spool g)(key := gw_spool g key @ payload (ba_records b))
    \<or> (ak_status a = Duplicate \<or> ak_status a = Reject) \<and> gw_spool g' = gw_spool g
      \<and> current_state g' = current_state g
      \<and> (ak_status a = Duplicate \<longrightarrow> ba_seq b \<le> co_last_seq (current_state g key)
            \<and> ak_next_expected_seq a = co_last_seq (current_state g key) + 1)"
proof (cases "[] \<in> set (ba_records b)")
  case True
  then have "a = mk_ack Reject Oversize 0" "g' = g"
    using assms(5) cut_from_decodes(1) [OF assms(1-3)] by (simp_all add: handle_frame_def)
  then show ?thesis by (simp add: mk_ack_def)
next
  case False
  let ?io = "\<lparr>io_spool = SpoolOk, io_store = StoreOk\<rparr>"
  have acc: "accept ?io key b g = (a, g')"
    using assms(5) cut_from_decodes(1) [OF assms(1-3)] False
    by (auto simp: handle_frame_def split: prod.splits)
  have dup: "ak_status a = Duplicate \<Longrightarrow> ba_seq b \<le> co_last_seq (current_state g key)"
    using acc by (auto simp: accept_def Let_def mk_ack_def split: if_splits prod.splits bool.splits)
  show ?thesis
    using acc
  proof (cases rule: accept_cases)
    case refused
    then show ?thesis using dup by (cases "ak_status a") simp_all
  next
    case (failed n)
    then show ?thesis using assms(4) by simp
  next
    case accepted
    then show ?thesis by simp
  qed
qed

lemma ship_batch_benign:
  assumes H: "\<And>x. length (H x) = 32" "length (cf_last_batch_hash c) = 32" "cut_from H c b"
    and key: "is_safe_path_component key" "is_safe_state_key key"
    and sync: "in_sync key c (hb_gateway h)" and net: "benign (net (hb_clock h))"
    and run: "ship_batch H net rp key b l h = (e, l', h')"
  shows "hb_clock h' = Suc (hb_clock h) \<and> sl_files l' = sl_files l \<and>
    ((e = Shipped (confirmed_of b) \<or> e = IoError) \<and> sl_tailer l' = commit_batch (sl_tailer l)
       \<and> in_sync key (confirmed_of b) (hb_gateway h') \<and> load_or_fresh (hb_dir h') key = confirmed_of b
       \<and> gw_spool (hb_gateway h') = (gw_spool (hb_gateway h))(key := gw_spool (hb_gateway h) key @ payload (ba_records b))
     \<or> (\<forall>c. e \<noteq> Shipped c) \<and> sl_tailer l' = rewind_batch (sl_tailer l)
       \<and> in_sync key c (hb_gateway h') \<and> hb_dir h' = hb_dir h
       \<and> gw_spool (hb_gateway h') = gw_spool (hb_gateway h))"
proof -
  let ?g = "hb_gateway h" and ?k = "hb_clock h"
  let ?io = "\<lparr>io_spool = SpoolOk, io_store = StoreOk\<rparr>"
  have len: "length (encode_frame b) \<le> MAX_FRAME_LEN" by (rule cut_from_decodes(2) [OF H])
  obtain a failed g' where fr: "handle_frame H ?io key (encode_frame b) ?g = (a, failed, g')"
    using prod_cases3 by blast
  note ans = handle_frame_cut [OF H key(1) fr]
  consider (lost) "tu_link (net ?k) = FrameLost" | (handled) "tu_link (net ?k) = Handled ?io True"
    using net by (auto simp: benign_def)
  then show ?thesis
  proof cases
    case lost
    then have "send_loop H net rp key (encode_frame b) 0 ?k ?g = (None, ?k, ?g)"
      by (intro send_loop_once) (simp_all add: exchange_def)
    then show ?thesis using run sync by (auto simp: ship_batch_def rewind_log_def)
  next
    case handled
    have once: "send_loop H net rp key (encode_frame b) 0 ?k ?g = (Some a, ?k, g')"
      using ans by (intro send_loop_once) (auto simp: handled exchange_handled [OF len] fr)
    show ?thesis
    proof (cases "ak_status a = Accepted")
      case True
      then have c: "confirm (net ?k) key b l (h\<lparr>hb_gateway := g', hb_clock := ?k + 1\<rparr>) = (e, l', h')"
        using run by (simp add: ship_batch_def once)
      show ?thesis
        using confirm_result [OF c] True ans key(2) net by (auto simp: in_sync_def confirmed_of_def state_after_def benign_def)
    next
      case False
      then have no: "ak_status a = Duplicate \<or> ak_status a = Reject" "gw_spool g' = gw_spool ?g"
          "current_state g' = current_state ?g"
          "ak_status a = Duplicate \<Longrightarrow> ak_next_expected_seq a = ba_seq b \<and> ba_seq b \<noteq> ba_seq b + 1"
        using ans sync H(3) by (auto simp: in_sync_def cut_from_def)
      then show ?thesis using run sync by (auto simp: ship_batch_def once rewind_log_def in_sync_def)
    qed
  qed
qed

end
