(* ===== verification/Ship_Follow.thy ===== *)
theory Ship_Follow
  imports Shipper
begin

text \<open>
  A log followed over many ship cycles. A cycle that finds nothing to ship leaves a read uncommitted;
  \<open>resting\<close> says what a tailer is worth then, and reads, commits and rewinds keep it. On top of it are
  the rule for the loop of a cycle (\<open>ship_loop_rule\<close>), the return of a cycle over a log that stands
  still (\<open>ship_loop_returns\<close>) and the invariants of cycles and passes when no acknowledgement is lost
  (\<open>ship_cycle_inv\<close>, \<open>ship_pass_inv\<close>).
\<close>

section \<open>Reads on top of an uncommitted read\<close>

text \<open>A cycle that finds nothing to ship leaves its last read uncommitted, and the next cycle reads on top
  of it. The snapshot of such a read still covers the drains.\<close>

definition snapshot_ok :: "log_tailer \<Rightarrow> bool" where
  "snapshot_ok t \<longleftrightarrow>
     (case ta_uncommitted t of
        None \<Rightarrow> True
      | Some u \<Rightarrow> length (un_drain_offsets u) = length (un_exhausted u) + length (ta_pending_drains t))"

lemma rewind_snapshot:
  assumes "ta_uncommitted t = Some u" "snapshot_ok t"
  shows "rewind_batch t = t\<lparr>ta_uncommitted := None,
      ta_pending_drains := zip (un_exhausted u @ map fst (ta_pending_drains t)) (un_drain_offsets u),
      ta_state := (ta_state t)\<lparr>cu_offset := un_offset u\<rparr>\<rparr>"
proof -
  have "zip_offsets (ta_pending_drains t) (drop (length (un_exhausted u)) (un_drain_offsets u))
      = zip (map fst (ta_pending_drains t)) (drop (length (un_exhausted u)) (un_drain_offsets u))"
    using assms by (intro zip_offsets_eq) (simp add: snapshot_ok_def)
  then show ?thesis
    using assms(1) by (simp add: rewind_batch_def zip_append1 zip_take_length)
qed

lemma drain_loop_snapshot:
  "un_exhausted (ds_uncommitted (drain_loop d m mb drains s)) @ map fst (ds_drains (drain_loop d m mb drains s))
     = un_exhausted (ds_uncommitted s) @ map fst drains
   \<and> un_drain_offsets (ds_uncommitted (drain_loop d m mb drains s)) = un_drain_offsets (ds_uncommitted s)
   \<and> un_offset (ds_uncommitted (drain_loop d m mb drains s)) = un_offset (ds_uncommitted s)"
proof (induction d m mb drains s rule: drain_loop.induct)
  case (2 d m mb f off drains s)
  show ?case
  proof (cases "ds_line_count s < m \<and> \<not> ds_budget_hit s")
    case go: True
    let ?b = "\<lparr>lb_left = mb - ds_bytes_taken s, lb_first_is_free = (ds_line_count s = 0)\<rparr>"
    show ?thesis
    proof (cases "read_lines_from d f off (m - ds_line_count s) ?b")
      case (Inl e)
      then show ?thesis using 2(1) [OF _ refl refl Inl] go by (simp add: Let_def)
    next
      case (Inr r)
      show ?thesis
      proof (cases "count_lines (lr_entries r) < m - ds_line_count s \<and> \<not> lr_budget_hit r")
        case True
        show ?thesis
          using 2(2) [OF _ refl refl Inr refl refl refl True] go True by (simp add: Let_def Inr record_read_def)
      next
        case False
        then show ?thesis using go by (auto simp: Let_def Inr record_read_def)
      qed
    qed
  qed simp
qed simp

lemma read_entries_snapshot:
  assumes "0 < m" "read_entries H d m mb t = (es, t1)" "handle_rotation H d t = t0"
    and "length (un_drain_offsets (begin_batch t0)) = length (un_exhausted (begin_batch t0)) + length (ta_pending_drains t0)"
  shows "snapshot_ok t1"
    "ta_pending_drains (rewind_batch t1)
       = zip (un_exhausted (begin_batch t0) @ map fst (ta_pending_drains t0)) (un_drain_offsets (begin_batch t0))"
    "ta_state (rewind_batch t1) = (ta_state t0)\<lparr>cu_offset := un_offset (begin_batch t0)\<rparr>"
    "ta_uncommitted (rewind_batch t1) = None" "ta_file (rewind_batch t1) = ta_file t1"
    "ta_last_known_size (rewind_batch t1) = ta_last_known_size t1"
proof -
  define u0 where "u0 = begin_batch t0"
  define s where "s = drain_loop d m mb (ta_pending_drains t0)
      \<lparr>ds_entries = [], ds_line_count = 0, ds_bytes_taken = 0, ds_budget_hit = False,
       ds_uncommitted = u0, ds_drains = []\<rparr>"
  have s: "un_exhausted (ds_uncommitted s) @ map fst (ds_drains s) = un_exhausted u0 @ map fst (ta_pending_drains t0)"
      "un_drain_offsets (ds_uncommitted s) = un_drain_offsets u0" "un_offset (ds_uncommitted s) = un_offset u0"
    using drain_loop_snapshot [of d m mb "ta_pending_drains t0"
        "\<lparr>ds_entries = [], ds_line_count = 0, ds_bytes_taken = 0, ds_budget_hit = False,
          ds_uncommitted = u0, ds_drains = []\<rparr>"] by (simp_all add: s_def)
  have keep: "\<exists>off. ta_state t0 = (ta_state t0)\<lparr>cu_offset := off\<rparr>"
      "\<exists>off. (ta_state t0)\<lparr>cu_offset := n\<rparr> = (ta_state t0)\<lparr>cu_offset := off\<rparr>" for n
    by (rule exI [of _ "cu_offset (ta_state t0)"], simp, rule exI, rule refl)
  have "\<exists>u off. ta_uncommitted t1 = Some u \<and> ta_pending_drains t1 = ds_drains s
      \<and> un_exhausted u = un_exhausted (ds_uncommitted s) \<and> un_drain_offsets u = un_drain_offsets (ds_uncommitted s)
      \<and> un_offset u = un_offset (ds_uncommitted s) \<and> ta_state t1 = (ta_state t0)\<lparr>cu_offset := off\<rparr>"
    using assms(1,2) unfolding read_entries_def Let_def assms(3) u0_def [symmetric] s_def [symmetric]
    by (auto simp: refresh_last_known_size_def advance_def record_read_def keep
        split: if_splits option.splits sum.splits prod.splits)
  then obtain u off where u: "ta_uncommitted t1 = Some u" "ta_pending_drains t1 = ds_drains s"
      "un_exhausted u = un_exhausted (ds_uncommitted s)" "un_drain_offsets u = un_drain_offsets (ds_uncommitted s)"
      "un_offset u = un_offset (ds_uncommitted s)" "ta_state t1 = (ta_state t0)\<lparr>cu_offset := off\<rparr>"
    by blast
  have "length (un_exhausted (ds_uncommitted s)) + length (ds_drains s) = length (un_exhausted u0) + length (ta_pending_drains t0)"
    using arg_cong [OF s(1), of length] by simp
  then show ok: "snapshot_ok t1" using u s(2) assms(4) by (simp add: snapshot_ok_def u0_def)
  note rw = rewind_snapshot [OF u(1) ok]
  show "ta_pending_drains (rewind_batch t1)
       = zip (un_exhausted (begin_batch t0) @ map fst (ta_pending_drains t0)) (un_drain_offsets (begin_batch t0))"
    using s u by (simp add: rw u0_def)
  show "ta_state (rewind_batch t1) = (ta_state t0)\<lparr>cu_offset := un_offset (begin_batch t0)\<rparr>"
    "ta_uncommitted (rewind_batch t1) = None" "ta_file (rewind_batch t1) = ta_file t1"
    "ta_last_known_size (rewind_batch t1) = ta_last_known_size t1"
    using s u by (simp_all add: rw u0_def)
qed

text \<open>What is read does not depend on the uncommitted read.\<close>

lemma queue_generation_commit: "queue_generation g (commit_batch t) = commit_batch (queue_generation g t)"
  by (simp add: commit_batch_def queue_generation_def)

lemma queue_generations_commit:
  "fold queue_generation gs (commit_batch t) = commit_batch (fold queue_generation gs t)"
  by (induction gs arbitrary: t) (simp_all add: queue_generation_commit)

lemma reset_commit: "reset_to_current_file H d (commit_batch t) = commit_batch (reset_to_current_file H d t)"
  by (simp add: reset_to_current_file_def stamp_fingerprint_def commit_batch_def split: prod.split)

lemma record_loss_commit: "record_loss (commit_batch t) = commit_batch (record_loss t)"
  by (simp add: record_loss_def commit_batch_def Let_def)

lemma recover_commit: "recover_copytruncated H d (commit_batch t) = commit_batch (recover_copytruncated H d t)"
proof -
  have "(commit_batch t)\<lparr>ta_resumes := r\<rparr> = commit_batch (t\<lparr>ta_resumes := r\<rparr>)" for r
    by (simp add: commit_batch_def)
  moreover have "ta_state (commit_batch t) = ta_state t" "ta_cursor (commit_batch t) = ta_cursor t"
      "ta_pending_drains (commit_batch t) = ta_pending_drains t" "ta_resumes (commit_batch t) = ta_resumes t"
    by (simp_all add: commit_batch_def)
  ultimately show ?thesis
    by (simp add: recover_copytruncated_def Let_def queue_generations_commit record_loss_commit reset_commit
        split: sum.split prod.split)
qed

lemma handle_rotation_commit: "handle_rotation H d (commit_batch t) = commit_batch (handle_rotation H d t)"
proof (cases "detect_rotation H d (ta_state t)")
  case NoRotation
  then show ?thesis
    by (simp add: handle_rotation_def commit_batch_def split: option.split prod.split)
next
  case Replaced
  have "maybe_false_positive_replaced d (commit_batch t) = maybe_false_positive_replaced d t"
      "stamp_fingerprint H d (commit_batch t) = commit_batch (stamp_fingerprint H d t)"
      "ta_state (commit_batch t) = ta_state t"
    by (simp_all add: commit_batch_def maybe_false_positive_replaced_def stamp_fingerprint_def
        split: prod.split option.split)
  then show ?thesis using Replaced recover_commit [of H d t] by (simp add: handle_rotation_def)
next
  case InodeChanged
  then show ?thesis
    by (simp add: handle_rotation_def commit_batch_def Let_def reset_to_current_file_def stamp_fingerprint_def
        split: option.split prod.split)
next
  case Truncated
  then show ?thesis using recover_commit [of H d t] by (simp add: handle_rotation_def commit_batch_def)
qed

lemma drain_loop_uncommitted:
  "\<exists>u'. drain_loop d m mb drains (s\<lparr>ds_uncommitted := u\<rparr>) = (drain_loop d m mb drains s)\<lparr>ds_uncommitted := u'\<rparr>"
proof (induction drains arbitrary: s u)
  case Nil
  show ?case by (rule exI [of _ u]) simp
next
  case (Cons p drains)
  obtain f off where p: "p = (f, off)" by fastforce
  let ?b = "\<lparr>lb_left = mb - ds_bytes_taken s, lb_first_is_free = (ds_line_count s = 0)\<rparr>"
  show ?case
  proof (cases "ds_line_count s < m \<and> \<not> ds_budget_hit s")
    case go: True
    have again: "\<exists>u'. drain_loop d m mb drains (s'\<lparr>ds_uncommitted := u2\<rparr>)
        = (drain_loop d m mb drains (s'\<lparr>ds_uncommitted := u1\<rparr>))\<lparr>ds_uncommitted := u'\<rparr>" for s' u1 u2
      using Cons.IH [of u2 "s'\<lparr>ds_uncommitted := u1\<rparr>"] by simp
    show ?thesis
    proof (cases "read_lines_from d f off (m - ds_line_count s) ?b")
      case (Inl e)
      then show ?thesis using again go by (simp add: p Let_def)
    next
      case (Inr r)
      show ?thesis
      proof (cases "count_lines (lr_entries r) < m - ds_line_count s \<and> \<not> lr_budget_hit r")
        case True
        then show ?thesis using again go Inr by (simp add: p Let_def)
      next
        case False
        then show ?thesis
          using go Inr by (intro exI [of _ "record_read (length (un_exhausted u)) r u"]) (auto simp: p Let_def)
      qed
    qed
  next
    case False
    then show ?thesis by (intro exI [of _ u]) (auto simp add: p)
  qed
qed

lemma read_entries_commit:
  assumes "read_entries H d m mb t = (es, t1)"
  shows "\<exists>t1'. read_entries H d m mb (commit_batch t) = (es, t1') \<and> commit_batch t1' = commit_batch t1"
proof (cases "m = 0")
  case True
  then show ?thesis using assms by (simp add: read_entries_def commit_batch_def)
next
  case False
  define t0 where "t0 = handle_rotation H d t"
  define s0 where "s0 u = \<lparr>ds_entries = [], ds_line_count = 0, ds_bytes_taken = 0, ds_budget_hit = False,
      ds_uncommitted = u, ds_drains = []\<rparr>" for u
  define s where "s = drain_loop d m mb (ta_pending_drains t0) (s0 (begin_batch t0))"
  have "s0 u2 = (s0 u1)\<lparr>ds_uncommitted := u2\<rparr>" for u1 u2 by (simp add: s0_def)
  then obtain u' where s': "drain_loop d m mb (ta_pending_drains t0) (s0 (begin_batch (commit_batch t0)))
      = s\<lparr>ds_uncommitted := u'\<rparr>"
    using drain_loop_uncommitted unfolding s_def by metis
  have flds: "ta_pending_drains (commit_batch t0) = ta_pending_drains t0" "ta_state (commit_batch t0) = ta_state t0"
    by (simp_all add: commit_batch_def)
  show ?thesis
    using assms False
    unfolding read_entries_def Let_def handle_rotation_commit t0_def [symmetric] s0_def [symmetric] s_def [symmetric] flds s'
    by (auto simp: commit_batch_def refresh_last_known_size_def advance_def
        split: if_splits option.splits sum.splits)
qed

section \<open>A tailer between two cycles\<close>

text \<open>A tailer between two cycles: rewound it is in step with the log; committed it is too, and the lines
  of its uncommitted read, if any, are lines that cannot be shipped.\<close>

definition resting :: "(bytes \<Rightarrow> bytes) \<Rightarrow> world \<Rightarrow> log_tailer \<Rightarrow> nat list \<Rightarrow> tail_entry list \<Rightarrow> bool" where
  "resting H d t gens out \<longleftrightarrow>
     following H d (rewind_batch t) gens out \<and> snapshot_ok t
     \<and> (\<exists>skip. records_of skip = [] \<and> following H d (commit_batch t) gens (out @ skip))"

lemma following_none: "following H d t gens out \<Longrightarrow> ta_uncommitted t = None"
  by (auto simp: following_def)

lemma commit_committed: "ta_uncommitted t = None \<Longrightarrow> commit_batch t = t"
  by (simp add: commit_batch_def)

lemma following_resting: "following H d t gens out \<Longrightarrow> resting H d t gens out"
  using following_none [of H d t gens out] commit_committed [of t]
  by (auto simp: resting_def snapshot_ok_def rewind_batch_def intro!: exI [of _ "[]"])

lemma resting_writes:
  "resting H d t gens out \<Longrightarrow> wo_log d = Some i \<Longrightarrow>
   resting H (d\<lparr>wo_files := (wo_files d)(i := wo_files d i @ x)\<rparr>) t gens out"
  using following_writes by (fastforce simp: resting_def)

lemma resting_log: "resting H d t gens out \<Longrightarrow> \<exists>i. wo_log d = Some i \<and> readable d i"
  by (auto simp: resting_def following_def)

text \<open>Noticing a rotation on top of an uncommitted read and then rewinding is noticing it rewound.\<close>

lemma rotation_snapshot:
  assumes "following H d (rewind_batch t) gens out" "following H d (commit_batch t) gens out'" "snapshot_ok t"
  defines "t0 \<equiv> handle_rotation H d t" and "r0 \<equiv> handle_rotation H d (rewind_batch t)"
  shows "length (un_drain_offsets (begin_batch t0))
      = length (un_exhausted (begin_batch t0)) + length (ta_pending_drains t0)"
    "zip (un_exhausted (begin_batch t0) @ map fst (ta_pending_drains t0)) (un_drain_offsets (begin_batch t0))
      = ta_pending_drains r0"
    "(ta_state t0)\<lparr>cu_offset := un_offset (begin_batch t0)\<rparr> = ta_state r0" "ta_file t0 = ta_file r0"
proof -
  obtain i where i: "wo_log d = Some i" "readable d i" using assms(1) by (auto simp: following_def)
  have flds: "ta_state (commit_batch t) = ta_state t" "ta_file (commit_batch t) = ta_file t"
      "ta_last_known_size (commit_batch t) = ta_last_known_size t"
    by (simp_all add: commit_batch_def)
  have rw: "ta_file (rewind_batch t) = ta_file t" "cu_inode (ta_state (rewind_batch t)) = cu_inode (ta_state t)"
    by (simp_all add: rewind_batch_def split: option.split)
  have step: "in_step H d (rewind_batch t) \<and> in_step H d t" if "cu_inode (ta_state t) = i"
    using assms(1,2) i that rw by (auto simp: following_def in_step_def flds Let_def)
  have goal: "length (un_drain_offsets (begin_batch t0))
      = length (un_exhausted (begin_batch t0)) + length (ta_pending_drains t0)
    \<and> zip (un_exhausted (begin_batch t0) @ map fst (ta_pending_drains t0)) (un_drain_offsets (begin_batch t0))
      = ta_pending_drains r0
    \<and> (ta_state t0)\<lparr>cu_offset := un_offset (begin_batch t0)\<rparr> = ta_state r0 \<and> ta_file t0 = ta_file r0"
    if u: "ta_uncommitted t = Some u" for u
  proof (cases "cu_inode (ta_state t) = i")
    case True
    note s = step [OF True]
    obtain fp n fp' n' where rot: "t0 = t\<lparr>ta_state := (ta_state t)\<lparr>cu_fingerprint := fp, cu_fingerprint_len := Some n\<rparr>\<rparr>"
        "r0 = (rewind_batch t)\<lparr>ta_state := (ta_state (rewind_batch t))\<lparr>cu_fingerprint := fp', cu_fingerprint_len := Some n'\<rparr>\<rparr>"
      using in_step_rotation(1) s unfolding t0_def r0_def by meson
    have "stamped H (wo_files d i) (ta_state t0)" "stamped H (wo_files d i) (ta_state r0)"
      using in_step_rotation(2) s rw True unfolding t0_def r0_def by metis+
    then have "fp' = fp" "n' = n" by (simp_all add: rot stamped_def)
    then show ?thesis
      using assms(3) u by (simp add: rot begin_batch_def rewind_snapshot [OF u assms(3)] snapshot_ok_def)
  next
    case False
    have r: "i \<noteq> cu_inode (ta_state (rewind_batch t))" "i \<noteq> cu_inode (ta_state t)" using False rw by simp_all
    note rr = renamed_rotation [OF i r(1), of H, folded r0_def] and rt = renamed_rotation [OF i r(2), of H, folded t0_def]
    have state: "(ta_state t0)\<lparr>cu_offset := 0\<rparr> = ta_state r0"
      using rr(2,3,4) rt(2,4) by (intro cursor_state.equality) (simp_all add: stamped_def)
    have un: "ta_uncommitted t0 = Some (u\<lparr>un_offset := 0, un_drain_offsets := un_drain_offsets u
        @ (case ta_file t of Some f \<Rightarrow> [un_offset u] | None \<Rightarrow> [])\<rparr>)"
      using i r(2) u unfolding t0_def
      by (simp add: handle_rotation_def detect_rotation_def reset_to_current_file_def stamp_fingerprint_def Let_def
          split: option.split prod.split)
    have "length (un_exhausted u @ map fst (ta_pending_drains t)) = length (un_drain_offsets u)"
      using assms(3) u by (simp add: snapshot_ok_def)
    note zips = zip_append [OF this, of "[f]" "[un_offset u]" for f]
    show ?thesis
      using assms(3) u rr(1,5) rt(1,5) state rw
      by (simp add: begin_batch_def un snapshot_ok_def rewind_snapshot [OF u assms(3)] zips [simplified] split: option.split)
  qed
  have none: "t0 = r0" if "ta_uncommitted t = None"
    using that by (simp add: t0_def r0_def rewind_batch_def)
  have "begin_batch r0 = \<lparr>un_offset = cu_offset (ta_state r0), un_drain_offsets = map snd (ta_pending_drains r0),
                un_exhausted = [], un_spans = [], un_lens = [], un_raw_lossy = [],
                un_snapshot_drains = length (ta_pending_drains r0), un_spans_valid = True\<rparr>"
    using following_rotation(1) [OF assms(1), folded r0_def] by (auto simp: begin_batch_def noticed_def)
  then show "length (un_drain_offsets (begin_batch t0))
      = length (un_exhausted (begin_batch t0)) + length (ta_pending_drains t0)"
    "zip (un_exhausted (begin_batch t0) @ map fst (ta_pending_drains t0)) (un_drain_offsets (begin_batch t0))
      = ta_pending_drains r0"
    "(ta_state t0)\<lparr>cu_offset := un_offset (begin_batch t0)\<rparr> = ta_state r0" "ta_file t0 = ta_file r0"
    using goal none by (cases "ta_uncommitted t"; simp add: zip_map_fst_snd)+
qed

lemma resting_rewind:
  assumes "resting H d t gens out" "0 < m" "read_entries H d m mb t = (es, t1)"
  shows "following H d (rewind_batch t1) gens out" "snapshot_ok t1"
proof -
  obtain out' where r: "following H d (rewind_batch t) gens out" "following H d (commit_batch t) gens out'" "snapshot_ok t"
    using assms(1) by (auto simp: resting_def)
  let ?r0 = "handle_rotation H d (rewind_batch t)"
  obtain i where i: "wo_log d = Some i" "readable d i" using resting_log [OF assms(1)] by blast
  note rot = rotation_snapshot [OF r]
  note snap = read_entries_snapshot [OF assms(2,3) refl rot(1)]
  note meta = read_entries_meta [OF assms(2,3) i]
  have n: "noticed H d ?r0 gens" "sources ?r0 = view d (rewind_batch t)" by (rule following_rotation [OF r(1)])+
  have same: "ta_state (rewind_batch t1) = ta_state ?r0" "ta_pending_drains (rewind_batch t1) = ta_pending_drains ?r0"
    using snap(2,3) rot(2,3) by simp_all
  then have src: "sources (rewind_batch t1) = view d (rewind_batch t)" using n(2) by (simp add: sources_def)
  have "out @ map entry_of (filter fits (all_lines d (view d (rewind_batch t)))) = map entry_of (filter fits (written d gens))"
    using r(1) by (auto simp: following_def)
  moreover have "aligned (wo_files d i) (cu_offset (ta_state ?r0))" using n(1) i by (auto simp: noticed_def)
  ultimately show "following H d (rewind_batch t1) gens out"
    using meta rot(4) by (intro noticed_after [OF n(1) i(1)]) (simp_all add: same src snap)
  show "snapshot_ok t1" by (rule snap(1))
qed

lemma resting_commit:
  assumes "resting H d t gens out" "0 < m" "read_entries H d m mb t = (es, t1)"
  obtains skip where "records_of skip = []" "following H d (commit_batch t1) gens (out @ skip @ filter is_Line es)"
proof -
  obtain skip where s: "records_of skip = []" "following H d (commit_batch t) gens (out @ skip)"
    using assms(1) by (auto simp: resting_def)
  obtain t1' where t1': "read_entries H d m mb (commit_batch t) = (es, t1')" "commit_batch t1' = commit_batch t1"
    using read_entries_commit [OF assms(3)] by blast
  show thesis
    using that [OF s(1)] following_commits [OF s(2) assms(2) t1'(1)] t1'(2) by simp
qed

lemma resting_idle:
  assumes "resting H d t gens out" "0 < m" "read_entries H d m mb t = (es, t1)" "records_of es = []"
  shows "resting H d t1 gens out"
  unfolding resting_def
proof (intro conjI)
  obtain skip where s: "records_of skip = []" "following H d (commit_batch t1) gens (out @ skip @ filter is_Line es)"
    using resting_commit [OF assms(1-3)] by blast
  then show "\<exists>skip. records_of skip = [] \<and> following H d (commit_batch t1) gens (out @ skip)"
    using assms(4) by (intro exI [of _ "skip @ filter is_Line es"]) (simp add: records_of_lines)
qed (use resting_rewind [OF assms(1-3)] in auto)

lemma following_bound: "following H d t gens out \<Longrightarrow> length out \<le> length (filter fits (written d gens))"
proof -
  assume "following H d t gens out"
  then have "out @ map entry_of (filter fits (all_lines d (view d t))) = map entry_of (filter fits (written d gens))"
    by (auto simp: following_def)
  from arg_cong [OF this, of length] show ?thesis by simp
qed

lemma resting_bound: "resting H d t gens out \<Longrightarrow> length out \<le> length (filter fits (written d gens))"
  using following_bound by (auto simp: resting_def)

section \<open>Cycles return\<close>

lemma ship_batch_Shipped:
  assumes "ship_batch H net rp key b l h = (Shipped c, l', h')"
  shows "sl_tailer l' = commit_batch (sl_tailer l)" "sl_files l' = sl_files l"
proof -
  obtain u h0 where c: "confirm u key b l h0 = (Shipped c, l', h')"
    using assms by (auto simp: ship_batch_def Let_def split: prod.splits option.splits ack_status.splits if_splits)
  show "sl_tailer l' = commit_batch (sl_tailer l)" "sl_files l' = sl_files l"
    by (rule confirm_result(2) [OF c], rule confirm_result(3) [OF c])
qed

lemma ship_loop_returns:
  assumes "resting H d (sl_tailer l) gens out" "sl_files l = (\<lambda>_. d)" "0 < max_records"
  shows "\<exists>r. ship_loop H net rp key max_records c n l h = Some r"
  using assms(1,2)
proof (induction "length (filter fits (written d gens)) - length out" arbitrary: c n l h out rule: less_induct)
  case less
  let ?m = "min max_records MAX_RECORDS_FRAME_SAFE"
  have m: "0 < ?m" using assms(3) by (simp add: MAX_RECORDS_FRAME_SAFE_def)
  obtain bo t1 where nb: "next_batch H d (sl_tailer l) (cf_last_seq c) (cf_last_batch_hash c) max_records = (bo, t1)"
    by fastforce
  show ?case
  proof (cases bo)
    case None
    then show ?thesis using nb less.prems(2) by (subst ship_loop.simps) simp
  next
    case (Some b)
    obtain es where es: "read_entries H d ?m (2 ^ 64 - 1) (sl_tailer l) = (es, t1)" "records_of es \<noteq> []"
      using next_batch_Some nb [unfolded Some] by metis
    obtain skip where s: "following H d (commit_batch t1) gens (out @ skip @ filter is_Line es)"
      using resting_commit [OF less.prems(1) m es(1)] by blast
    have "0 < length (filter is_Line es)"
      using es(2) records_of_count [of es] by (cases "records_of es") (auto simp: count_lines_def)
    then have dec: "length (filter fits (written d gens)) - length (out @ skip @ filter is_Line es)
        < length (filter fits (written d gens)) - length out"
      using following_bound [OF s] unfolding length_append by linarith
    obtain e l' h' where sb: "ship_batch H net rp key b (l\<lparr>sl_tailer := t1\<rparr>) h = (e, l', h')"
      using prod_cases3 by blast
    show ?thesis
    proof (cases e)
      case (Shipped c')
      have "resting H d (sl_tailer l') gens (out @ skip @ filter is_Line es)" "sl_files l' = (\<lambda>_. d)"
        using ship_batch_Shipped [OF sb [unfolded Shipped]] following_resting [OF s] less.prems(2) by simp_all
      then show ?thesis
        using less.hyps [OF dec] nb sb Some Shipped less.prems(2) by (subst ship_loop.simps) simp
    qed (use nb sb Some less.prems(2) in \<open>subst ship_loop.simps, simp\<close>)+
  qed
qed

section \<open>Cycles deliver\<close>

text \<open>The log's directory over time: the writer only appends.\<close>

definition appended :: "(nat \<Rightarrow> world) \<Rightarrow> bool" where
  "appended W \<longleftrightarrow> (\<forall>k. \<exists>i x. wo_log (W k) = Some i
     \<and> W (Suc k) = (W k)\<lparr>wo_files := (wo_files (W k))(i := wo_files (W k) i @ x)\<rparr>)"

lemma resting_appended:
  "appended W \<Longrightarrow> resting H (W k) t gens out \<Longrightarrow> resting H (W (Suc k)) t gens out"
  using resting_writes unfolding appended_def by metis

lemma resting_later:
  "k \<le> k' \<Longrightarrow> appended W \<Longrightarrow> resting H (W k) t gens out \<Longrightarrow> resting H (W k') t gens out"
  by (induction k' rule: dec_induct) (auto intro: resting_appended)

text \<open>What a cycle has to preserve: the log's lines up to \<open>out\<close> are taken, the collector and the gateway
  agree, and the spool holds \<open>base\<close>.\<close>

definition cycle_inv ::
  "(bytes \<Rightarrow> bytes) \<Rightarrow> rust_str \<Rightarrow> nat list \<Rightarrow> tail_entry list \<Rightarrow> bytes \<Rightarrow> confirmed_state \<Rightarrow> sensor_log \<Rightarrow> hub \<Rightarrow> bool" where
  "cycle_inv H key gens out base c l h \<longleftrightarrow>
     appended (sl_files l) \<and> resting H (sl_files l (hb_clock h)) (sl_tailer l) gens out
     \<and> load_or_fresh (hb_dir h) key = c \<and> in_sync key c (hb_gateway h) \<and> length (cf_last_batch_hash c) = 32
     \<and> gw_spool (hb_gateway h) key = base"

lemma ship_batch_inv:
  assumes H: "\<And>x. length (H x) = 32" and key: "is_safe_path_component key" "is_safe_state_key key"
    and net: "benign (net (hb_clock h))" and m: "0 < max_records"
    and inv: "cycle_inv H key gens out base c l h"
    and nb: "next_batch H (sl_files l (hb_clock h)) (sl_tailer l) (cf_last_seq c) (cf_last_batch_hash c) max_records
      = (Some b, t1)"
    and run: "ship_batch H net rp key b (l\<lparr>sl_tailer := t1\<rparr>) h = (e, l', h')"
  shows "\<exists>new c'. cycle_inv H key gens (out @ new) (base @ payload (records_of new)) c' l' h'
    \<and> hb_clock h \<le> hb_clock h' \<and> sl_files l' = sl_files l \<and> (\<forall>c''. e = Shipped c'' \<longrightarrow> c'' = c')"
proof -
  let ?W = "sl_files l" and ?k = "hb_clock h" and ?m = "min max_records MAX_RECORDS_FRAME_SAFE"
  have m': "0 < ?m" using m by (simp add: MAX_RECORDS_FRAME_SAFE_def)
  have i: "appended ?W" "resting H (?W ?k) (sl_tailer l) gens out" "load_or_fresh (hb_dir h) key = c"
      "in_sync key c (hb_gateway h)" "length (cf_last_batch_hash c) = 32" "gw_spool (hb_gateway h) key = base"
    using inv by (auto simp: cycle_inv_def)
  obtain es where es: "read_entries H (?W ?k) ?m (2 ^ 64 - 1) (sl_tailer l) = (es, t1)" "ba_records b = records_of es"
      "ba_batch_hash b = H (encode_prefix b)"
    using nb by (rule next_batch_Some)
  note res = ship_batch_benign [OF H i(5) next_batch_cut [OF nb] key i(4) net run]
  show ?thesis
  proof (cases "sl_tailer l' = rewind_batch t1 \<and> gw_spool (hb_gateway h') = gw_spool (hb_gateway h) \<and> (\<forall>c. e \<noteq> Shipped c)
      \<and> hb_dir h' = hb_dir h \<and> in_sync key c (hb_gateway h')")
    case True
    have "resting H (?W (Suc ?k)) (rewind_batch t1) gens out"
      using resting_appended [OF i(1)] following_resting [OF resting_rewind(1) [OF i(2) m' es(1)]] by blast
    then have "cycle_inv H key gens (out @ []) (base @ payload (records_of [])) c l' h'"
      using True res i by (simp add: cycle_inv_def payload_def)
    then show ?thesis using res True by fastforce
  next
    case False
    then have ok: "e = Shipped (confirmed_of b) \<or> e = IoError" "sl_tailer l' = commit_batch t1"
        "in_sync key (confirmed_of b) (hb_gateway h')" "load_or_fresh (hb_dir h') key = confirmed_of b"
        "gw_spool (hb_gateway h') key = base @ payload (ba_records b)" "hb_clock h' = Suc ?k" "sl_files l' = ?W"
      using res i(6) by auto
    obtain skip where s: "records_of skip = []"
        "following H (?W ?k) (commit_batch t1) gens (out @ skip @ filter is_Line es)"
      using resting_commit [OF i(2) m' es(1)] by blast
    have "resting H (?W (Suc ?k)) (commit_batch t1) gens (out @ skip @ filter is_Line es)"
      using resting_appended [OF i(1)] following_resting [OF s(2)] by blast
    then have "cycle_inv H key gens (out @ skip @ filter is_Line es)
        (base @ payload (records_of (skip @ filter is_Line es))) (confirmed_of b) l' h'"
      using ok i(1) es(2,3) s(1) H by (simp add: cycle_inv_def records_of_lines confirmed_of_def)
    then show ?thesis using ok by fastforce
  qed
qed

text \<open>A rule for the loop: an invariant kept by shipped batches, and what holds wherever the loop ends.\<close>

lemma ship_loop_rule:
  assumes "ship_loop H net rp key max_records c n l h = Some (res, l', h')" "I c l h"
    and idle: "\<And>c l h t. I c l h \<Longrightarrow>
      next_batch H (sl_files l (hb_clock h)) (sl_tailer l) (cf_last_seq c) (cf_last_batch_hash c) max_records = (None, t)
      \<Longrightarrow> Q (l\<lparr>sl_tailer := t\<rparr>) h"
    and ship: "\<And>c l h b t e l' h'. I c l h \<Longrightarrow>
      next_batch H (sl_files l (hb_clock h)) (sl_tailer l) (cf_last_seq c) (cf_last_batch_hash c) max_records = (Some b, t)
      \<Longrightarrow> ship_batch H net rp key b (l\<lparr>sl_tailer := t\<rparr>) h = (e, l', h')
      \<Longrightarrow> case e of Shipped c' \<Rightarrow> I c' l' h' | _ \<Rightarrow> Q l' h'"
  shows "Q l' h'"
proof -
  define P where "P H1 net1 rp1 key1 m1 c n l h y \<longleftrightarrow>
      (H1 = H \<and> net1 = net \<and> rp1 = rp \<and> key1 = key \<and> m1 = max_records \<longrightarrow> I c l h \<longrightarrow> Q (fst (snd y)) (snd (snd y)))"
    for H1 net1 rp1 key1 m1 c and n :: nat and l h and y :: "(unit + cycle_report) \<times> sensor_log \<times> hub"
  have "P H net rp key max_records c n l h (res, l', h')"
    using assms(1)
  proof (rule ship_loop.raw_induct [of P, rotated], goal_cases)
    case (1 loop H1 net1 rp1 key1 m1 c n l h y)
    show ?case
      unfolding P_def
    proof (intro impI)
      assume same: "H1 = H \<and> net1 = net \<and> rp1 = rp \<and> key1 = key \<and> m1 = max_records" and I: "I c l h"
      obtain bo t where nb: "next_batch H (sl_files l (hb_clock h)) (sl_tailer l) (cf_last_seq c)
          (cf_last_batch_hash c) max_records = (bo, t)" by fastforce
      show "Q (fst (snd y)) (snd (snd y))"
      proof (cases bo)
        case None
        then show ?thesis using 1(2) idle [OF I] nb same by auto
      next
        case (Some b)
        obtain e l2 h2 where sb: "ship_batch H net rp key b (l\<lparr>sl_tailer := t\<rparr>) h = (e, l2, h2)"
          using prod_cases3 by blast
        note st = ship [OF I nb [unfolded Some] sb]
        show ?thesis
        proof (cases e)
          case (Shipped c')
          then have "loop H net rp key max_records c' (n + 1) l2 h2 = Some y" "I c' l2 h2"
            using 1(2) nb sb Some same st by simp_all
          then show ?thesis using 1(1) unfolding P_def by blast
        qed (use 1(2) nb sb Some same st in auto)
      qed
    qed
  qed
  then show ?thesis using assms(2) by (simp add: P_def)
qed

lemma ship_loop_inv:
  assumes H: "\<And>x. length (H x) = 32" and key: "is_safe_path_component key" "is_safe_state_key key"
    and net: "\<And>k. benign (net k)" and m: "0 < max_records"
    and run: "ship_loop H net rp key max_records c n l h = Some (res, l', h')"
    and inv: "cycle_inv H key gens out base c l h"
  shows "\<exists>new c'. cycle_inv H key gens (out @ new) (base @ payload (records_of new)) c' l' h'
    \<and> hb_clock h \<le> hb_clock h' \<and> sl_files l' = sl_files l"
proof -
  define I where "I c1 l1 h1 \<longleftrightarrow> (\<exists>new. cycle_inv H key gens (out @ new) (base @ payload (records_of new)) c1 l1 h1
      \<and> hb_clock h \<le> hb_clock h1 \<and> sl_files l1 = sl_files l)" for c1 l1 h1
  have "\<exists>c'. I c' l' h'"
  proof (rule ship_loop_rule [OF run, where I = I and Q = "\<lambda>l' h'. \<exists>c'. I c' l' h'"])
    show "I c l h" unfolding I_def using inv by (intro exI [of _ "[]"]) (simp add: payload_def)
  next
    fix c1 l1 h1 t
    assume I: "I c1 l1 h1" and nb: "next_batch H (sl_files l1 (hb_clock h1)) (sl_tailer l1) (cf_last_seq c1)
        (cf_last_batch_hash c1) max_records = (None, t)"
    then obtain new where new: "cycle_inv H key gens (out @ new) (base @ payload (records_of new)) c1 l1 h1"
        "hb_clock h \<le> hb_clock h1" "sl_files l1 = sl_files l"
      by (auto simp: I_def)
    obtain es t1 where r: "read_entries H (sl_files l1 (hb_clock h1)) (min max_records MAX_RECORDS_FRAME_SAFE)
        (2 ^ 64 - 1) (sl_tailer l1) = (es, t1)" by fastforce
    have "records_of es = []" "t1 = t" using nb by (auto simp: next_batch_read [OF r] split: if_splits)
    then have "resting H (sl_files l1 (hb_clock h1)) t gens (out @ new)"
      using resting_idle [OF _ _ r] new(1) m by (simp add: cycle_inv_def MAX_RECORDS_FRAME_SAFE_def)
    then have "cycle_inv H key gens (out @ new) (base @ payload (records_of new)) c1 (l1\<lparr>sl_tailer := t\<rparr>) h1"
      using new(1) by (simp add: cycle_inv_def)
    then show "\<exists>c'. I c' (l1\<lparr>sl_tailer := t\<rparr>) h1" unfolding I_def using new(2,3) by auto
  next
    fix c1 l1 h1 b t e l2 h2
    assume I: "I c1 l1 h1" and nb: "next_batch H (sl_files l1 (hb_clock h1)) (sl_tailer l1) (cf_last_seq c1)
        (cf_last_batch_hash c1) max_records = (Some b, t)"
      and sb: "ship_batch H net rp key b (l1\<lparr>sl_tailer := t\<rparr>) h1 = (e, l2, h2)"
    then obtain new where new: "cycle_inv H key gens (out @ new) (base @ payload (records_of new)) c1 l1 h1"
        "hb_clock h \<le> hb_clock h1" "sl_files l1 = sl_files l"
      by (auto simp: I_def)
    obtain more c' where more: "cycle_inv H key gens ((out @ new) @ more)
          ((base @ payload (records_of new)) @ payload (records_of more)) c' l2 h2"
        "hb_clock h1 \<le> hb_clock h2" "sl_files l2 = sl_files l1" "\<forall>c''. e = Shipped c'' \<longrightarrow> c'' = c'"
      using ship_batch_inv [OF H key net m new(1) nb sb] by blast
    then have "I c' l2 h2"
      unfolding I_def using new(2,3) by (intro exI [of _ "new @ more"]) (simp add: payload_def)
    then show "case e of Shipped c' \<Rightarrow> I c' l2 h2 | _ \<Rightarrow> \<exists>c'. I c' l2 h2"
      using more(4) by (auto split: batch_end.split)
  qed
  then show ?thesis by (auto simp: I_def)
qed

section \<open>Passes deliver\<close>

text \<open>Every log is tailed up to its \<open>out\<close>; the collector's confirmed state is the gateway's.\<close>

definition logs_at :: "(bytes \<Rightarrow> bytes) \<Rightarrow> nat \<Rightarrow> sensor_log list \<Rightarrow> (nat list \<times> tail_entry list) list \<Rightarrow> bool" where
  "logs_at H k ls ts \<longleftrightarrow>
     list_all2 (\<lambda>l (gens, out). appended (sl_files l) \<and> resting H (sl_files l k) (sl_tailer l) gens out) ls ts"

definition agreed :: "rust_str \<Rightarrow> hub \<Rightarrow> bool" where
  "agreed key h \<longleftrightarrow> in_sync key (load_or_fresh (hb_dir h) key) (hb_gateway h)
     \<and> length (cf_last_batch_hash (load_or_fresh (hb_dir h) key)) = 32"

lemma logs_at_later: "logs_at H k ls ts \<Longrightarrow> k \<le> k' \<Longrightarrow> logs_at H k' ls ts"
  unfolding logs_at_def by (erule list_all2_mono) (auto intro: resting_later)

lemma ship_cycle_inv:
  assumes "\<And>x. length (H x) = 32" "is_safe_path_component key" "is_safe_state_key key" "\<And>k. benign (net k)"
    and "0 < max_records" "agreed key h" "appended (sl_files l)"
    and "resting H (sl_files l (hb_clock h)) (sl_tailer l) gens out"
    and "ship_cycle H net rp key max_records l h = Some (res, l', h')"
  shows "\<exists>new. appended (sl_files l') \<and> resting H (sl_files l' (hb_clock h')) (sl_tailer l') gens (out @ new)
    \<and> agreed key h' \<and> hb_clock h \<le> hb_clock h'
    \<and> gw_spool (hb_gateway h') key = gw_spool (hb_gateway h) key @ payload (records_of new)"
proof -
  let ?c = "load_or_fresh (hb_dir h) key"
  have "cycle_inv H key gens out (gw_spool (hb_gateway h) key) ?c l h"
    using assms(6-8) by (simp add: cycle_inv_def agreed_def)
  then obtain new c' where "cycle_inv H key gens (out @ new)
        (gw_spool (hb_gateway h) key @ payload (records_of new)) c' l' h'" "hb_clock h \<le> hb_clock h'"
    using ship_loop_inv [OF assms(1-5) assms(9) [unfolded ship_cycle_def]] by blast
  then show ?thesis by (auto simp: cycle_inv_def agreed_def)
qed

definition taken_on :: "(nat list \<times> tail_entry list) list \<Rightarrow> tail_entry list list \<Rightarrow> (nat list \<times> tail_entry list) list" where
  "taken_on ts news = map2 (\<lambda>(gens, out) new. (gens, out @ new)) ts news"

lemma taken_on_none: "taken_on ts (replicate (length ts) []) = ts"
  by (induction ts) (auto simp: taken_on_def)

lemma ship_pass_inv:
  assumes H: "\<And>x. length (H x) = 32" and key: "is_safe_path_component key" "is_safe_state_key key"
    and net: "\<And>k. benign (net k)" and m: "0 < max_records"
  shows "ship_pass H net rp key max_records ls any h = Some (r, any', ls', h') \<Longrightarrow>
    agreed key h \<Longrightarrow> logs_at H (hb_clock h) ls ts \<Longrightarrow>
    \<exists>news. length news = length ls \<and> agreed key h' \<and> hb_clock h \<le> hb_clock h'
      \<and> logs_at H (hb_clock h') ls' (taken_on ts news)
      \<and> gw_spool (hb_gateway h') key = gw_spool (hb_gateway h) key @ payload (concat (map records_of news))"
proof (induction ls arbitrary: any h ts ls')
  case Nil
  then show ?case by (intro exI [of _ "[]"]) (auto simp: logs_at_def taken_on_def payload_def)
next
  case (Cons l ls)
  let ?h = "h\<lparr>hb_clock := Suc (hb_clock h)\<rparr>"
  obtain gens out ts1 where ts: "ts = (gens, out) # ts1" "appended (sl_files l)"
      "resting H (sl_files l (hb_clock h)) (sl_tailer l) gens out" "logs_at H (hb_clock h) ls ts1"
    using Cons.prems(3) by (auto simp: logs_at_def list_all2_Cons1)
  have agr: "agreed key ?h" using Cons.prems(2) by (simp add: agreed_def)
  have r1: "resting H (sl_files l (hb_clock ?h)) (sl_tailer l) gens out"
    using resting_appended [OF ts(2,3)] by simp
  define first where "first = (if tu_connects (net (hb_clock h)) then ship_cycle H net rp key max_records l ?h
      else Some (Inl (), l, ?h))"
  obtain res l1 h1 where f: "first = Some (res, l1, h1)"
    using Cons.prems(1) by (auto simp: first_def Let_def split: option.splits)
  have "\<exists>new. appended (sl_files l1) \<and> resting H (sl_files l1 (hb_clock h1)) (sl_tailer l1) gens (out @ new)
      \<and> agreed key h1 \<and> hb_clock h \<le> hb_clock h1
      \<and> gw_spool (hb_gateway h1) key = gw_spool (hb_gateway h) key @ payload (records_of new)"
  proof (cases "tu_connects (net (hb_clock h))")
    case True
    then have "ship_cycle H net rp key max_records l ?h = Some (res, l1, h1)" using f by (simp add: first_def)
    from ship_cycle_inv [OF H key net m agr ts(2) r1 this] show ?thesis by auto
  next
    case False
    then have "l1 = l" "h1 = ?h" using f by (auto simp: first_def)
    then show ?thesis using ts(2) r1 agr by (intro exI [of _ "[]"]) (simp add: payload_def)
  qed
  then obtain new where new: "appended (sl_files l1)" "resting H (sl_files l1 (hb_clock h1)) (sl_tailer l1) gens (out @ new)"
      "agreed key h1" "hb_clock h \<le> hb_clock h1"
      "gw_spool (hb_gateway h1) key = gw_spool (hb_gateway h) key @ payload (records_of new)"
    by blast
  note rest = logs_at_later [OF ts(4) new(4)]
  have len: "length ts1 = length ls" using ts(4) by (simp add: logs_at_def list_all2_lengthD)
  consider (stop) "ls' = l1 # ls" "h' = h1" | (go) any1 ls1 where
      "ship_pass H net rp key max_records ls any1 h1 = Some (r, any', ls1, h')" "ls' = l1 # ls1"
    using Cons.prems(1) by (auto simp: first_def [symmetric] f Let_def split: if_splits)
  then show ?case
  proof cases
    case stop
    then show ?thesis
      using new rest taken_on_none [of ts1] len
      by (intro exI [of _ "new # replicate (length ls) []"])
        (auto simp: ts(1) logs_at_def taken_on_def)
  next
    case go
    obtain news where "length news = length ls" "agreed key h'" "hb_clock h1 \<le> hb_clock h'"
        "logs_at H (hb_clock h') ls1 (taken_on ts1 news)"
        "gw_spool (hb_gateway h') key = gw_spool (hb_gateway h1) key @ payload (concat (map records_of news))"
      using Cons.IH [OF go(1) new(3) rest] by blast
    then show ?thesis
      using go(2) new resting_later [OF _ new(1,2)]
      by (intro exI [of _ "new # news"]) (auto simp: ts(1) logs_at_def taken_on_def payload_def)
  qed
qed

section \<open>What stops the loop\<close>

lemma ship_pass_stop: "ship_pass H net rp key n ls any h = Some (Some r, any', ls', h') \<Longrightarrow> r \<noteq> RetriesExhausted"
  by (induction ls arbitrary: any h ls') (auto simp: Let_def split: option.splits if_splits)

lemma send_loop_bound:
  "n \<le> rp_max_consecutive_retries rp \<Longrightarrow> send_loop H net rp cid f n k g = (a, k', g') \<Longrightarrow>
   k \<le> k' \<and> k' + n \<le> k + rp_max_consecutive_retries rp"
proof (induction H net rp cid f n k g arbitrary: a k' g' rule: send_loop.induct)
  case (1 H net rp cid f n k g)
  obtain x g1 where x: "exchange H (tu_link (net k)) cid f g = (x, g1)" by fastforce
  show ?case
  proof (cases "\<exists>y. x = Some y \<and> ak_status y = Retry \<and> \<not> rp_max_consecutive_retries rp < n + 1")
    case True
    then obtain y where y: "x = Some y" "ak_status y = Retry" "\<not> rp_max_consecutive_retries rp < n + 1" by blast
    then have "send_loop H net rp cid f (n + 1) (k + 1) g1 = (a, k', g')"
      using 1(3) by (subst (asm) send_loop.simps) (simp add: x)
    then show ?thesis using 1(1) [OF x [symmetric] refl y(1)] y by simp
  next
    case False
    then have "k' = k" using 1(3) by (subst (asm) send_loop.simps) (auto simp: x split: option.splits if_splits)
    then show ?thesis using 1(2) by simp
  qed
qed

end
