(* ===== verification/Ship_Runs.thy ===== *)
theory Ship_Runs
  imports Ship_Follow
begin

text \<open>
  Runs of ship cycles under given network outcomes: a connected cycle ships the whole log
  (\<open>ship_cycle_all\<close>), a lost acknowledgement makes the next batch stale (\<open>ship_batch_lost_ack\<close>,
  \<open>ship_batch_stale\<close>, \<open>ship_batch_mismatch\<close>), and a blank line is refused (\<open>ship_cycle_blank\<close>).
\<close>

section \<open>A connected cycle ships everything\<close>

definition connected :: "turn \<Rightarrow> bool" where
  "connected u \<longleftrightarrow> tu_link u = Handled \<lparr>io_spool = SpoolOk, io_store = StoreOk\<rparr> True \<and> tu_store u = StoreOk
     \<and> tu_cursor u"

lemma connected_benign: "connected u \<Longrightarrow> benign u"
  by (simp add: connected_def benign_def)

lemma read_entries_cursor: "ta_cursor (snd (read_entries H d m mb t)) = ta_cursor t"
proof -
  have q: "ta_cursor (fold queue_generation gs t) = ta_cursor t" for gs t
    by (induction gs arbitrary: t) (simp_all add: queue_generation_def)
  have r: "ta_cursor (reset_to_current_file H d t) = ta_cursor t" "ta_cursor (stamp_fingerprint H d t) = ta_cursor t"
      "ta_cursor (record_loss t) = ta_cursor t" for t
    by (simp_all add: reset_to_current_file_def stamp_fingerprint_def record_loss_def Let_def split: prod.split)
  have c: "ta_cursor (recover_copytruncated H d t) = ta_cursor t"
    by (simp add: recover_copytruncated_def Let_def case_prod_beta q r)
  have "ta_cursor (handle_rotation H d t) = ta_cursor t"
    by (cases "detect_rotation H d (ta_state t)"; cases "ta_file t"; cases "cu_fingerprint_len (ta_state t)")
      (simp_all add: handle_rotation_def c r Let_def case_prod_beta)
  then show ?thesis
    by (simp add: read_entries_def Let_def advance_def refresh_last_known_size_def
        split: option.split sum.split prod.split)
qed

lemma accept_good:
  assumes "in_sync key c g" "cut_from H c b" "cf_last_seq c < cf_last_seq c + 1" "is_safe_path_component key"
  shows "ak_status (fst (accept \<lparr>io_spool = SpoolOk, io_store = StoreOk\<rparr> key b g)) = Accepted"
proof -
  have "ba_seq b = co_last_seq (current_state g key) + 1" "ba_prev_batch_hash b = co_last_batch_hash (current_state g key)"
      "\<not> ba_seq b \<le> co_last_seq (current_state g key)"
    using assms(1-3) by (simp_all add: cut_from_def in_sync_def not_le)
  then show ?thesis
    using assms(4) by (simp add: accept_def Let_def write_records_def store_state_def mk_ack_def)
qed

lemma ship_batch_connected:
  assumes H: "\<And>x. length (H x) = 32" "length (cf_last_batch_hash c) = 32" "cut_from H c b"
    and key: "is_safe_path_component key" "is_safe_state_key key"
    and sync: "in_sync key c (hb_gateway h)" and net: "connected (net (hb_clock h))"
    and b: "[] \<notin> set (ba_records b)" "cf_last_seq c < cf_last_seq c + 1" and cur: "ta_cursor (sl_tailer l)"
  shows "fst (ship_batch H net rp key b l h) = Shipped (confirmed_of b)"
proof -
  let ?io = "\<lparr>io_spool = SpoolOk, io_store = StoreOk\<rparr>" and ?g = "hb_gateway h"
  have len: "length (encode_frame b) \<le> MAX_FRAME_LEN" by (rule cut_from_decodes(2) [OF H])
  have "ak_status (fst (accept ?io key b ?g)) = Accepted" by (rule accept_good [OF sync H(3) b(2) key(1)])
  then obtain a g' where a: "accept ?io key b ?g = (a, g')" "ak_status a = Accepted" by (metis prod.collapse)
  have "decode_frame H (encode_frame b) = Inr b" using cut_from_decodes(1) [OF H] b(1) by simp
  then have "handle_frame H ?io key (encode_frame b) ?g = (a, False, g')"
    by (simp add: handle_frame_def a)
  then have "send_loop H net rp key (encode_frame b) 0 (hb_clock h) ?g = (Some a, hb_clock h, g')"
    using net a(2) by (intro send_loop_once) (auto simp: connected_def exchange_handled [OF len])
  then show ?thesis
    using net cur key(2)
    by (simp add: ship_batch_def a(2) confirm_def Let_def confirmed_store_def persist_cursor_def cursor_save_def
        commit_batch_def connected_def confirmed_of_def)
qed

text \<open>Lines that can be shipped: not empty, and a record once decoded.\<close>

definition shippable :: "tail_entry \<Rightarrow> bool" where
  "shippable e \<longleftrightarrow> (\<exists>s. e = Line s \<and> s \<noteq> [] \<and> length s \<le> MAX_RECORD_LEN)"

lemma shippable_records:
  "list_all shippable es \<Longrightarrow> length (records_of es) = length es \<and> [] \<notin> set (records_of es)"
  by (induction es) (auto simp: shippable_def records_of_def map_filter_simps)

lemma following_lines:
  "following H d t gens out \<Longrightarrow>
   map entry_of (filter fits (written d gens)) = out @ map entry_of (filter fits (all_lines d (view d t)))"
  by (auto simp: following_def)

lemma ship_loop_all:
  assumes H: "\<And>x. length (H x) = 32" and key: "is_safe_path_component key" "is_safe_state_key key"
    and net: "\<And>k. connected (net k)" and m: "0 < max_records"
    and all: "list_all shippable all" "all = map entry_of (filter fits (written d gens))"
  shows "cycle_inv H key gens out base c l h \<Longrightarrow> sl_files l = (\<lambda>_. d) \<Longrightarrow> ta_cursor (sl_tailer l) \<Longrightarrow>
    unat (cf_last_seq c) + (length all - length out) < 2 ^ 64 \<Longrightarrow>
    \<exists>n' l' h'. ship_loop H net rp key max_records c n l h
        = Some (Inr \<lparr>cr_batches_shipped = n', cr_stopped = None\<rparr>, l', h')
      \<and> gw_spool (hb_gateway h') key = base @ payload (records_of (drop (length out) all))"
proof (induction "length all - length out" arbitrary: c n l h out base rule: less_induct)
  case less
  let ?m = "min max_records MAX_RECORDS_FRAME_SAFE"
  have m': "0 < ?m" using m by (simp add: MAX_RECORDS_FRAME_SAFE_def)
  have res: "resting H d (sl_tailer l) gens out" using less.prems(1,2) by (simp add: cycle_inv_def)
  obtain es t1 where es: "read_entries H d ?m (2 ^ 64 - 1) (sl_tailer l) = (es, t1)" by fastforce
  obtain skip where s: "records_of skip = []" "following H d (commit_batch t1) gens (out @ skip @ filter is_Line es)"
    using resting_commit [OF res m' es] by blast
  obtain rest where rest: "all = out @ skip @ filter is_Line es @ rest"
    using following_lines [OF s(2)] all(2) by auto
  then have ship: "list_all shippable skip" "list_all shippable (filter is_Line es)" using all(1) by simp_all
  then have skip: "skip = []" using shippable_records [OF ship(1)] s(1) by simp
  have recs: "length (records_of es) = length (filter is_Line es)" "[] \<notin> set (records_of es)"
    using shippable_records [OF ship(2)] by (simp_all add: records_of_lines)
  show ?case
  proof (cases "records_of es = []")
    case True
    obtain t1' where c1: "read_entries H d ?m (2 ^ 64 - 1) (commit_batch (sl_tailer l)) = (es, t1')"
      using read_entries_commit [OF es] by blast
    obtain skip' where c0: "following H d (commit_batch (sl_tailer l)) gens (out @ skip')" "records_of skip' = []"
      using res by (auto simp: resting_def)
    have none: "filter is_Line es = []" using recs(1) True by simp
    then have "filter fits (all_lines d (view d (commit_batch (sl_tailer l)))) = []"
      by (rule following_progress [OF c0(1) m' c1])
    then have "all = out @ skip'" using following_lines [OF c0(1)] all(2) by simp
    then show ?thesis
      using next_batch_read [OF es] True less.prems(1,2) c0(2)
      by (subst ship_loop.simps) (simp add: cycle_inv_def payload_def)
  next
    case False
    then obtain b where nb: "next_batch H d (sl_tailer l) (cf_last_seq c) (cf_last_batch_hash c) max_records = (Some b, t1)"
        "ba_records b = records_of es"
      using next_batch_read [OF es] by (simp add: Let_def)
    obtain e l' h' where sb: "ship_batch H net rp key b (l\<lparr>sl_tailer := t1\<rparr>) h = (e, l', h')"
      using prod_cases3 by blast
    have inv: "in_sync key c (hb_gateway h)" "length (cf_last_batch_hash c) = 32" "appended (sl_files l)"
        "gw_spool (hb_gateway h) key = base"
      using less.prems(1) by (simp_all add: cycle_inv_def)
    have pos: "0 < length (filter is_Line es)" using False recs(1) by (cases "records_of es") auto
    have left: "length all - length out = length (filter is_Line es) + length rest" by (simp add: rest skip)
    have "unat (cf_last_seq c) + 1 < 2 ^ 64" using less.prems(4) pos unfolding left by linarith
    then have seq: "unat (cf_last_seq c + 1) = unat (cf_last_seq c) + 1" "cf_last_seq c < cf_last_seq c + 1"
      by (simp_all add: unat_word_ariths word_less_nat_alt)
    have cur: "ta_cursor t1" using read_entries_cursor [of H d ?m "2 ^ 64 - 1" "sl_tailer l"] es less.prems(3) by simp
    note cut = next_batch_cut [OF nb(1)]
    have e: "e = Shipped (confirmed_of b)"
      using ship_batch_connected [where net = net and l = "l\<lparr>sl_tailer := t1\<rparr>" and rp = rp,
          OF H inv(2) cut key inv(1) net] sb recs(2) nb(2) seq(2) cur
      by simp
    note ok = ship_batch_benign [OF H inv(2) cut key inv(1) connected_benign [OF net] sb]
    let ?out = "out @ filter is_Line es" and ?base = "base @ payload (records_of es)"
    have "length (cf_last_batch_hash (confirmed_of b)) = 32" using cut H by (simp add: cut_from_def confirmed_of_def)
    then have "cycle_inv H key gens ?out ?base (confirmed_of b) l' h'" "sl_files l' = (\<lambda>_. d)" "ta_cursor (sl_tailer l')"
      using ok e inv less.prems(2) nb(2) cur following_resting [OF s(2)] skip
      by (simp_all add: cycle_inv_def commit_batch_def)
    moreover have left': "length all - length ?out = length rest" by (simp add: rest skip)
    moreover have "length rest < length all - length out" using pos unfolding left by linarith
    moreover have "unat (cf_last_seq (confirmed_of b)) + (length all - length ?out) < 2 ^ 64"
    proof -
      have "unat (cf_last_seq (confirmed_of b)) = unat (cf_last_seq c) + 1"
        using cut seq(1) by (simp add: cut_from_def confirmed_of_def)
      then show ?thesis using less.prems(4) pos unfolding left left' by linarith
    qed
    ultimately obtain n' l2 h2 where "ship_loop H net rp key max_records (confirmed_of b) (n + 1) l' h'
        = Some (Inr \<lparr>cr_batches_shipped = n', cr_stopped = None\<rparr>, l2, h2)"
        "gw_spool (hb_gateway h2) key = ?base @ payload (records_of (drop (length ?out) all))"
      using less.hyps [of ?out] by metis
    moreover have "records_of (drop (length out) all) = records_of es @ records_of (drop (length ?out) all)"
      by (simp add: rest skip records_of_lines)
    ultimately show ?thesis
      using nb sb e less.prems(2) by (subst ship_loop.simps) (simp add: payload_def)
  qed
qed

section \<open>A lost acknowledgement\<close>

lemma ship_batch_lost_ack:
  assumes H: "\<And>x. length (H x) = 32" "length (cf_last_batch_hash c) = 32" "cut_from H c b"
    and key: "is_safe_path_component key" and sync: "in_sync key c (hb_gateway h)"
    and link: "tu_link (net (hb_clock h)) = Handled \<lparr>io_spool = SpoolOk, io_store = StoreOk\<rparr> False"
    and b: "[] \<notin> set (ba_records b)" "cf_last_seq c < cf_last_seq c + 1"
    and run: "ship_batch H net rp key b l h = (e, l', h')"
  shows "e = IoError \<and> l' = rewind_log l \<and> hb_dir h' = hb_dir h \<and> hb_clock h' = Suc (hb_clock h)
    \<and> current_state (hb_gateway h') key = state_after b
    \<and> gw_spool (hb_gateway h') = (gw_spool (hb_gateway h))(key := gw_spool (hb_gateway h) key @ payload (ba_records b))"
proof -
  let ?io = "\<lparr>io_spool = SpoolOk, io_store = StoreOk\<rparr>" and ?g = "hb_gateway h"
  have len: "length (encode_frame b) \<le> MAX_FRAME_LEN" by (rule cut_from_decodes(2) [OF H])
  obtain a g' where a: "accept ?io key b ?g = (a, g')" by fastforce
  have "decode_frame H (encode_frame b) = Inr b" using cut_from_decodes(1) [OF H] b(1) by simp
  then have fr: "handle_frame H ?io key (encode_frame b) ?g = (a, False, g')" by (simp add: handle_frame_def a)
  have "ak_status a = Accepted" using accept_good [OF sync H(3) b(2) key] a by simp
  then have g': "current_state g' key = state_after b"
      "gw_spool g' = (gw_spool ?g)(key := gw_spool ?g key @ payload (ba_records b))"
    using handle_frame_cut [OF H key fr] by auto
  have "send_loop H net rp key (encode_frame b) 0 (hb_clock h) ?g = (None, hb_clock h, g')"
    by (rule send_loop_once) (simp_all add: link exchange_handled [OF len] fr)
  then show ?thesis using run g' by (auto simp: ship_batch_def)
qed

lemma ship_batch_stale:
  assumes H: "\<And>x. length (H x) = 32" "length (cf_last_batch_hash c) = 32" "cut_from H c b"
    and net: "connected (net (hb_clock h))" and key: "is_safe_state_key key"
    and ahead: "co_last_seq (current_state (hb_gateway h) key) = cf_last_seq c + 1"
    and b: "[] \<notin> set (ba_records b)" and cur: "ta_cursor (sl_tailer l)"
    and run: "ship_batch H net rp key b l h = (e, l', h')"
  shows "e = Shipped (confirmed_of b) \<and> sl_tailer l' = commit_batch (sl_tailer l)
    \<and> load_or_fresh (hb_dir h') key = confirmed_of b
    \<and> gw_spool (hb_gateway h') = gw_spool (hb_gateway h)
    \<and> current_state (hb_gateway h') key = current_state (hb_gateway h) key"
proof -
  let ?io = "\<lparr>io_spool = SpoolOk, io_store = StoreOk\<rparr>" and ?g = "hb_gateway h"
  let ?g' = "?g\<lparr>gw_states := (gw_states ?g)(key \<mapsto> current_state ?g key)\<rparr>"
  let ?a = "mk_ack Duplicate NoReason (ba_seq b + 1)"
  have len: "length (encode_frame b) \<le> MAX_FRAME_LEN" by (rule cut_from_decodes(2) [OF H])
  have seq: "ba_seq b = cf_last_seq c + 1" using H(3) by (simp add: cut_from_def)
  then have "accept ?io key b ?g = (?a, ?g')"
    using ahead by (simp add: accept_def Let_def)
  moreover have "decode_frame H (encode_frame b) = Inr b" using cut_from_decodes(1) [OF H] b by simp
  ultimately have fr: "handle_frame H ?io key (encode_frame b) ?g = (?a, False, ?g')" by (simp add: handle_frame_def)
  have "send_loop H net rp key (encode_frame b) 0 (hb_clock h) ?g = (Some ?a, hb_clock h, ?g')"
    using net by (intro send_loop_once) (auto simp: connected_def exchange_handled [OF len] fr mk_ack_def)
  then have c: "confirm (net (hb_clock h)) key b l (h\<lparr>hb_gateway := ?g', hb_clock := hb_clock h + 1\<rparr>) = (e, l', h')"
    using run by (simp add: ship_batch_def mk_ack_def)
  have "e = Shipped (confirmed_of b)"
    using c net cur key
    by (simp add: confirm_def Let_def confirmed_store_def persist_cursor_def cursor_save_def commit_batch_def
        connected_def confirmed_of_def)
  then show ?thesis using confirm_result [OF c] net key by (auto simp: connected_def current_state_def)
qed

lemma ship_batch_mismatch:
  assumes H: "\<And>x. length (H x) = 32" "length (cf_last_batch_hash c) = 32" "cut_from H c b"
    and net: "connected (net (hb_clock h))"
    and seq: "co_last_seq (current_state (hb_gateway h) key) = cf_last_seq c" "cf_last_seq c < cf_last_seq c + 1"
    and hash: "co_last_batch_hash (current_state (hb_gateway h) key) \<noteq> cf_last_batch_hash c"
    and b: "[] \<notin> set (ba_records b)"
  shows "fst (ship_batch H net rp key b l h) = Stopped (Rejected ReasonHashMismatch)"
proof -
  let ?io = "\<lparr>io_spool = SpoolOk, io_store = StoreOk\<rparr>" and ?g = "hb_gateway h"
  let ?g' = "?g\<lparr>gw_states := (gw_states ?g)(key \<mapsto> current_state ?g key)\<rparr>"
  let ?a = "mk_ack Reject ReasonHashMismatch (ba_seq b)"
  have len: "length (encode_frame b) \<le> MAX_FRAME_LEN" by (rule cut_from_decodes(2) [OF H])
  have "accept ?io key b ?g = (?a, ?g')"
    using H(3) seq hash by (auto simp: accept_def Let_def cut_from_def not_le)
  moreover have "decode_frame H (encode_frame b) = Inr b" using cut_from_decodes(1) [OF H] b by simp
  ultimately have fr: "handle_frame H ?io key (encode_frame b) ?g = (?a, False, ?g')" by (simp add: handle_frame_def)
  have "send_loop H net rp key (encode_frame b) 0 (hb_clock h) ?g = (Some ?a, hb_clock h, ?g')"
    using net by (intro send_loop_once) (auto simp: connected_def exchange_handled [OF len] fr mk_ack_def)
  then show ?thesis by (simp add: ship_batch_def mk_ack_def)
qed

section \<open>A blank line\<close>

lemma ship_cycle_blank:
  assumes H: "\<And>x. length (H x) = 32" and c: "load_or_fresh (hb_dir h) key = c" "length (cf_last_batch_hash c) = 32"
    and nb: "next_batch H (sl_files l (hb_clock h)) (sl_tailer l) (cf_last_seq c) (cf_last_batch_hash c) n = (Some b, t)"
    and b: "[] \<in> set (ba_records b)" and link: "tu_link (net (hb_clock h)) = Handled io True"
  shows "ship_cycle H net rp key n l h
    = Some (Inr \<lparr>cr_batches_shipped = 0, cr_stopped = Some (Rejected Oversize)\<rparr>,
        l\<lparr>sl_tailer := rewind_batch t\<rparr>, h\<lparr>hb_clock := Suc (hb_clock h)\<rparr>)"
proof -
  let ?a = "mk_ack Reject Oversize 0"
  note dec = cut_from_decodes [OF H c(2) next_batch_cut [OF nb]]
  have "handle_frame H io key (encode_frame b) (hb_gateway h) = (?a, True, hb_gateway h)"
    using dec(1) b by (simp add: handle_frame_def)
  then have "send_loop H net rp key (encode_frame b) 0 (hb_clock h) (hb_gateway h) = (Some ?a, hb_clock h, hb_gateway h)"
    by (intro send_loop_once) (auto simp: link exchange_handled [OF dec(2)] mk_ack_def)
  then have "ship_batch H net rp key b (l\<lparr>sl_tailer := t\<rparr>) h
      = (Stopped (Rejected Oversize), l\<lparr>sl_tailer := rewind_batch t\<rparr>, h\<lparr>hb_clock := Suc (hb_clock h)\<rparr>)"
    by (simp add: ship_batch_def rewind_log_def mk_ack_def)
  then show ?thesis
    using nb by (simp add: ship_cycle_def c(1)) (subst ship_loop.simps, simp)
qed

lemma ship_cycle_all:
  assumes "\<And>x. length (H x) = 32" "is_safe_path_component key" "is_safe_state_key key" "\<And>k. connected (net k)"
    and "0 < max_records" "agreed key h" "sl_files l = (\<lambda>_. d)" "appended (sl_files l)" "ta_cursor (sl_tailer l)"
    and "resting H d (sl_tailer l) gens out" "list_all shippable (map entry_of (filter fits (written d gens)))"
    and "unat (cf_last_seq (load_or_fresh (hb_dir h) key)) + length (written d gens) < 2 ^ 64"
  shows "\<exists>n l' h'. ship_cycle H net rp key max_records l h
      = Some (Inr \<lparr>cr_batches_shipped = n, cr_stopped = None\<rparr>, l', h')
    \<and> gw_spool (hb_gateway h') key = gw_spool (hb_gateway h) key
        @ payload (records_of (drop (length out) (map entry_of (filter fits (written d gens)))))"
proof -
  let ?c = "load_or_fresh (hb_dir h) key" and ?all = "map entry_of (filter fits (written d gens))"
  have "cycle_inv H key gens out (gw_spool (hb_gateway h) key) ?c l h"
    using assms(6-8,10) by (simp add: cycle_inv_def agreed_def)
  moreover have "unat (cf_last_seq ?c) + (length ?all - length out) < 2 ^ 64"
    using assms(12) length_filter_le [of fits "written d gens"] unfolding length_map by linarith
  ultimately show ?thesis
    unfolding ship_cycle_def using ship_loop_all [where H = H and net = net, OF assms(1-5,11) refl _ assms(7,9)] by blast
qed

lemma run_ship_loop_stop:
  "run_ship_loop H net rp key n ls h = Some y \<Longrightarrow> fst y \<noteq> RetriesExhausted"
  by (erule run_ship_loop.raw_induct [rotated])
    (auto split: option.splits prod.splits dest: ship_pass_stop)

end
