(* ===== verification/Ship_Properties.thy ===== *)
theory Ship_Properties
  imports Ship_Runs
begin

text \<open>
  The properties of the shipper and of the whole transport from log to spool: in-order delivery
  without loss or duplication, completeness and return of a cycle, frame bounds, and the two
  situations in which lines are lost or shipping stops.
\<close>

section \<open>Sample runs\<close>

text \<open>The first poll of a fresh tailer.\<close>

lemma fresh_poll:
  assumes "wo_log d = Some i" "i \<noteq> 0" "readable d i" "0 < m"
  shows "fst (read_entries H d m mb (with_state d c zero_state))
    = map entry_of (taken_by m \<lparr>lb_left = mb, lb_first_is_free = True\<rparr> (complete_lines [] (wo_files d i)))"
proof -
  let ?t = "with_state d c zero_state"
  have t: "i \<noteq> cu_inode (ta_state ?t)" "ta_pending_drains ?t = []" "ta_file ?t = None"
    using assms(2) by (simp_all add: with_state_def zero_state_def)
  note rot = renamed_rotation [OF assms(1,3) t(1), of H]
  have op: "open_inode d (Some i) = Some (OnDisk i)" "\<not> wo_broken d (file_ino (OnDisk i))"
    using assms(3) by (simp_all add: open_inode_def readable_def)
  have ls: "source_lines d (OnDisk i, 0) = complete_lines [] (wo_files d i)" by (simp add: source_lines_def)
  note rd = read_lines_from_eq [OF op(2) ls, of m "\<lparr>lb_left = mb, lb_first_is_free = True\<rparr>"]
  show ?thesis using rot t assms(1,4) op(1) by (simp add: read_entries_def Let_def rd)
qed

text \<open>A log with given contents, and its tailer.\<close>

definition log_world :: "bytes \<Rightarrow> world" where
  "log_world c = \<lparr>wo_files = (\<lambda>i. if i = 7 then c else []), wo_denied = (\<lambda>_. False), wo_broken = (\<lambda>_. False),
     wo_log = Some 7, wo_rotated = (\<lambda>_. None), wo_gz = (\<lambda>_. None), wo_free = None,
     wo_scratch = ScratchFails, wo_expand = ExpandOk\<rparr>"

definition sample_log :: "bytes \<Rightarrow> sensor_log" where
  "sample_log c = \<lparr>sl_files = (\<lambda>_. log_world c), sl_tailer = with_state (log_world c) True zero_state,
     sl_cursor = \<lparr>cd_canonical = NoCursor, cd_legacy = NoCursor, cd_same = True, cd_legacy_newer = False\<rparr>\<rparr>"

definition sample_hub :: hub where
  "sample_hub = \<lparr>hb_dir = (\<lambda>_. NotFound), hb_gateway = sample_gateway, hb_clock = 0\<rparr>"

definition sample_turn :: "bool \<Rightarrow> turn" where
  "sample_turn acked = \<lparr>tu_connects = True, tu_link = Handled good_io acked, tu_store = StoreOk, tu_cursor = True\<rparr>"

definition sample_policy :: retry_policy where
  "sample_policy = \<lparr>rp_backoff = 0, rp_max_consecutive_retries = MAX_CONSECUTIVE_RETRIES\<rparr>"

lemma log_world_sel:
  "wo_log (log_world c) = Some 7" "readable (log_world c) 7" "wo_files (log_world c) 7 = c"
  by (simp_all add: log_world_def readable_def)

lemma sample_log_follows: "following H (log_world c) (sl_tailer (sample_log c)) [7] []"
  using following_begins [of "log_world c" 7] log_world_sel by (simp add: sample_log_def)

lemma sample_log_read:
  "fst (read_entries H (log_world c) (min n MAX_RECORDS_FRAME_SAFE) (2 ^ 64 - 1) (sl_tailer (sample_log c)))
     = map entry_of (taken_by (min n MAX_RECORDS_FRAME_SAFE) \<lparr>lb_left = 2 ^ 64 - 1, lb_first_is_free = True\<rparr>
         (complete_lines [] c))" if "0 < n"
  using fresh_poll [of "log_world c" 7 "min n MAX_RECORDS_FRAME_SAFE"] that log_world_sel [of c]
  by (simp add: sample_log_def MAX_RECORDS_FRAME_SAFE_def)

lemma sample_log_batch:
  assumes "0 < n"
    and "records_of (map entry_of (taken_by (min n MAX_RECORDS_FRAME_SAFE) \<lparr>lb_left = 2 ^ 64 - 1, lb_first_is_free = True\<rparr>
         (complete_lines [] c))) = rs" "rs \<noteq> []"
  shows "\<exists>t. next_batch H (log_world c) (sl_tailer (sample_log c)) seq hash n
    = (Some (let b = \<lparr>ba_seq = seq + 1, ba_prev_batch_hash = hash, ba_records = rs, ba_batch_hash = replicate 32 0\<rparr>
             in b\<lparr>ba_batch_hash := H (encode_prefix b)\<rparr>), t)"
proof -
  obtain es t where r: "read_entries H (log_world c) (min n MAX_RECORDS_FRAME_SAFE) (2 ^ 64 - 1)
      (sl_tailer (sample_log c)) = (es, t)" by fastforce
  then have "records_of es = rs" using sample_log_read [OF assms(1), of H c] assms(2) by simp
  then show ?thesis using next_batch_read [OF r, of seq hash] assms(3) by simp
qed

lemma sample_key: "is_safe_path_component sample_id" "is_safe_state_key sample_id"
  by (simp_all add: is_safe_path_component_def is_safe_state_key_def sample_id_def is_control_def)

lemma sample_hub_agreed: "agreed sample_id sample_hub" "load_or_fresh (hb_dir sample_hub) sample_id = confirmed_fresh"
  by (simp_all add: agreed_def sample_hub_def load_or_fresh_def confirmed_load_def in_sync_def current_state_def
      sample_gateway_def loaded_state_def load_state_def fresh_def confirmed_fresh_def ZERO_HASH_def)

lemma sample_digest_length: "length (sample_digest x) = 32"
  by (simp add: sample_digest_def)

lemma sample_records:
  "records_of (map entry_of (taken_by (min 5 MAX_RECORDS_FRAME_SAFE) \<lparr>lb_left = 2 ^ 64 - 1, lb_first_is_free = True\<rparr>
     (complete_lines [] [97, 98, 10, 99, 10, 100]))) = [[97, 98], [99]]"
  "records_of (map entry_of (taken_by (min 5 MAX_RECORDS_FRAME_SAFE) \<lparr>lb_left = 2 ^ 64 - 1, lb_first_is_free = True\<rparr>
     (complete_lines [] [97, 10, 10]))) = [[97], []]"
  by (simp_all add: taken_by_def MAX_LINE_BYTES_def entry_of_def utf8_chunk_def utf8_width_def records_of_def
      map_filter_def MAX_RECORD_LEN_def MAX_RECORDS_FRAME_SAFE_def)

section \<open>Properties\<close>


lemma sample_log_resting: "logs_at H k [sample_log c] [([7], [])]"
proof -
  have "\<exists>x. log_world c = (log_world c)\<lparr>wo_files := (wo_files (log_world c))(7 := wo_files (log_world c) 7 @ x)\<rparr>"
    by (rule exI [of _ "[]"]) (simp add: log_world_def fun_eq_iff)
  then have "appended (sl_files (sample_log c))"
    unfolding appended_def using log_world_sel(1) by (auto simp: sample_log_def)
  then show ?thesis
    using following_resting [OF sample_log_follows] by (simp add: logs_at_def sample_log_def)
qed

lemma sample_turn_connected: "connected (sample_turn True)"
  by (simp add: connected_def sample_turn_def good_io_def)

abbreviation sample_lines_log :: sensor_log where
  "sample_lines_log \<equiv> sample_log [97, 98, 10, 99, 10, 100]"

lemma sample_log_lines:
  "map entry_of (filter fits (written (log_world [97, 98, 10, 99, 10, 100]) [7])) = [Line [97, 98], Line [99]]"
  "length (written (log_world [97, 98, 10, 99, 10, 100]) [7]) = 2"
  by (simp_all add: written_def log_world_sel fits_def MAX_LINE_BYTES_def entry_of_def utf8_chunk_def utf8_width_def)

lemma sample_ready:
  "agreed sample_id (sample_hub\<lparr>hb_clock := k\<rparr>)" "sl_files sample_lines_log = (\<lambda>_. log_world [97, 98, 10, 99, 10, 100])"
  "appended (sl_files sample_lines_log)" "ta_cursor (sl_tailer sample_lines_log)"
  "resting H (log_world [97, 98, 10, 99, 10, 100]) (sl_tailer sample_lines_log) [7] []"
  "list_all shippable (map entry_of (filter fits (written (log_world [97, 98, 10, 99, 10, 100]) [7])))"
  "unat (cf_last_seq (load_or_fresh (hb_dir (sample_hub\<lparr>hb_clock := k\<rparr>)) sample_id))
     + length (written (log_world [97, 98, 10, 99, 10, 100]) [7]) < 2 ^ 64"
  using sample_hub_agreed sample_log_resting [of H 0 "[97, 98, 10, 99, 10, 100]"] unfolding sample_log_lines
  by (simp_all add: agreed_def sample_log_def logs_at_def with_state_def confirmed_fresh_def shippable_def MAX_RECORD_LEN_def)



text \<open>C34: With the gateway reachable, a cycle over a log that stands still ships all of it: if every line
  is non-empty and small enough for a record, the cycle ends without a stop reason and the spool has
  grown by all the lines of the log that were not shipped before.\<close>

theorem cycle_ships_everything:
  assumes "\<And>x. length (H x) = 32" "is_safe_path_component key" "is_safe_state_key key" "\<And>k. connected (net k)"
    and "0 < max_records" "agreed key h" "sl_files l = (\<lambda>_. d)" "appended (sl_files l)" "ta_cursor (sl_tailer l)"
    and "resting H d (sl_tailer l) gens out" "list_all shippable (map entry_of (filter fits (written d gens)))"
    and "unat (cf_last_seq (load_or_fresh (hb_dir h) key)) + length (written d gens) < 2 ^ 64"
  shows "\<exists>n l' h'. ship_cycle H net rp key max_records l h
      = Some (Inr \<lparr>cr_batches_shipped = n, cr_stopped = None\<rparr>, l', h')
    \<and> gw_spool (hb_gateway h') key = gw_spool (hb_gateway h) key
        @ payload (records_of (drop (length out) (map entry_of (filter fits (written d gens)))))"
  by (rule ship_cycle_all [where H = H and net = net, OF assms])

theorem cycle_ships_everything_witness:
  "\<exists>n l' h'. ship_cycle sample_digest (\<lambda>_. sample_turn True) sample_policy sample_id 5 sample_lines_log
      (sample_hub\<lparr>hb_clock := 0\<rparr>) = Some (Inr \<lparr>cr_batches_shipped = n, cr_stopped = None\<rparr>, l', h')
    \<and> gw_spool (hb_gateway h') sample_id = payload [[97, 98], [99]]"
  using cycle_ships_everything [where key = sample_id and rp = sample_policy and max_records = 5 and H = sample_digest
      and net = "\<lambda>_. sample_turn True",
      OF sample_digest_length sample_key sample_turn_connected _ sample_ready(1-4) sample_ready(5) sample_ready(6,7)]
  unfolding sample_log_lines
  by (simp add: sample_hub_def sample_gateway_def records_of_def map_filter_simps MAX_RECORD_LEN_def)

text \<open>C35: A ship cycle over a log that stands still returns, whatever the network, the gateway and the
  local disk do.\<close>

theorem cycle_returns:
  assumes "resting H d (sl_tailer l) gens out" "sl_files l = (\<lambda>_. d)" "0 < max_records"
  shows "\<exists>r. ship_cycle H net rp key max_records l h = Some r"
  unfolding ship_cycle_def by (rule ship_loop_returns [OF assms])

theorem cycle_returns_witness:
  "\<exists>r. ship_cycle sample_digest (\<lambda>_. sample_turn False) sample_policy sample_id 5 sample_lines_log sample_hub = Some r"
  by (rule cycle_returns [OF sample_ready(5,2)]) simp

text \<open>C36: Whatever the log holds, a batch cut from it has one to fifteen records and encodes within the
  frame bound, and the gateway's decoder takes the frame apart into that batch unless a record is
  empty.\<close>

theorem batch_fits_frame:
  assumes "\<And>x. length (H x) = 32" "length hash = 32" "next_batch H d t seq hash max_records = (Some b, t')"
  shows "ba_records b \<noteq> [] \<and> length (ba_records b) \<le> MAX_RECORDS_FRAME_SAFE
    \<and> length (encode_frame b) \<le> MAX_FRAME_LEN
    \<and> decode_frame H (encode_frame b) = (if [] \<in> set (ba_records b) then Inl RecordTooLarge else Inr b)"
proof -
  let ?c = "\<lparr>cf_last_seq = seq, cf_last_batch_hash = hash\<rparr>"
  have cut: "cut_from H ?c b" using next_batch_cut [of H d t ?c] assms(3) by simp
  show ?thesis
    using cut_from_decodes [OF assms(1) _ cut] assms(2) cut by (simp add: cut_from_def MAX_RECORDS_FRAME_SAFE_def)
qed

theorem batch_fits_frame_witness:
  "\<exists>b t. next_batch sample_digest (log_world [97, 98, 10, 99, 10, 100]) (sl_tailer sample_lines_log) 0 ZERO_HASH 5
      = (Some b, t) \<and> decode_frame sample_digest (encode_frame b) = Inr b"
proof -
  obtain t where nb: "next_batch sample_digest (log_world [97, 98, 10, 99, 10, 100]) (sl_tailer sample_lines_log) 0 ZERO_HASH 5
    = (Some (let b = \<lparr>ba_seq = 0 + 1, ba_prev_batch_hash = ZERO_HASH, ba_records = [[97, 98], [99]],
           ba_batch_hash = replicate 32 0\<rparr>
         in b\<lparr>ba_batch_hash := sample_digest (encode_prefix b)\<rparr>), t)"
    using sample_log_batch [of 5 _ _ sample_digest 0 ZERO_HASH, OF _ sample_records(1)] by auto
  show ?thesis
    using batch_fits_frame [OF sample_digest_length _ nb] nb by (auto simp: ZERO_HASH_def Let_def)
qed

text \<open>C37: A batch is sent at most one time more than the configured number of consecutive retries.\<close>

theorem resends_bounded:
  assumes "send_loop H net rp cid frame_bytes 0 k g = (a, k', g')"
  shows "k \<le> k' \<and> k' - k \<le> rp_max_consecutive_retries rp"
  using send_loop_bound [OF le0 assms] by linarith

theorem resends_bounded_witness:
  "\<exists>k'. send_loop sample_digest (\<lambda>_. sample_turn False) sample_policy sample_id [] 0 3 sample_gateway
      = (None, k', sample_gateway) \<and> k' - 3 \<le> rp_max_consecutive_retries sample_policy"
proof -
  have "send_loop sample_digest (\<lambda>_. sample_turn False) sample_policy sample_id [] 0 3 sample_gateway = (None, 3, sample_gateway)"
    by (rule send_loop_once)
      (simp_all add: sample_turn_def exchange_handled handle_frame_def decode_frame_def HEADER_LEN_def)
  then show ?thesis using resends_bounded by fastforce
qed

text \<open>C38: When the acknowledgement of an accepted batch is lost, the next batch the collector ships, from
  another log or re-read from the same log after it grew, is confirmed and its lines are committed,
  but the gateway never stores them; and unless the two batches have the same hash, the batch after
  that is rejected and shipping stops for good.\<close>

theorem lost_ack_loses_next_batch:
  assumes "\<And>x. length (H x) = 32" "length (cf_last_batch_hash c) = 32" "in_sync key c (hb_gateway h)"
    and "is_safe_path_component key" "is_safe_state_key key"
    and "cf_last_seq c < cf_last_seq c + 1" "cf_last_seq c + 1 < cf_last_seq c + 1 + 1"
    and "cut_from H c a" "cut_from H c b" "[] \<notin> set (ba_records a)" "[] \<notin> set (ba_records b)"
    and "tu_link (net (hb_clock h)) = Handled \<lparr>io_spool = SpoolOk, io_store = StoreOk\<rparr> False"
    and "ship_batch H net rp key a la h = (ea, la', h1)"
    and "connected (net k)" "ta_cursor (sl_tailer lb)"
    and "ship_batch H net rp key b lb (h1\<lparr>hb_clock := k\<rparr>) = (eb, lb', h2)"
  shows "ea = IoError \<and> la' = rewind_log la
    \<and> eb = Shipped (confirmed_of b) \<and> sl_tailer lb' = commit_batch (sl_tailer lb)
    \<and> gw_spool (hb_gateway h2) = (gw_spool (hb_gateway h))(key := gw_spool (hb_gateway h) key @ payload (ba_records a))
    \<and> (ba_batch_hash a \<noteq> ba_batch_hash b \<and> connected (net (hb_clock h2))
         \<and> cut_from H (confirmed_of b) d \<and> [] \<notin> set (ba_records d) \<longrightarrow>
         fst (ship_batch H net rp key d ld h2) = Stopped (Rejected ReasonHashMismatch))"
proof -
  note one = ship_batch_lost_ack [where H = H, OF assms(1,2,8,4,3,12,10,6,13)]
  have seq: "ba_seq a = cf_last_seq c + 1" "ba_seq b = cf_last_seq c + 1" using assms(8,9) by (simp_all add: cut_from_def)
  have state: "current_state (hb_gateway h1) key = state_after a" using one by simp
  have "co_last_seq (current_state (hb_gateway (h1\<lparr>hb_clock := k\<rparr>)) key) = cf_last_seq c + 1"
    using state seq(1) by (simp add: state_after_def)
  moreover have "connected (net (hb_clock (h1\<lparr>hb_clock := k\<rparr>)))" using assms(14) by simp
  ultimately have two: "eb = Shipped (confirmed_of b) \<and> sl_tailer lb' = commit_batch (sl_tailer lb)
      \<and> gw_spool (hb_gateway h2) = gw_spool (hb_gateway h1) \<and> current_state (hb_gateway h2) key = state_after a"
    using ship_batch_stale [where H = H, OF assms(1,2,9) _ assms(5) _ assms(11,15,16)] state by simp
  have "fst (ship_batch H net rp key d ld h2) = Stopped (Rejected ReasonHashMismatch)"
    if "ba_batch_hash a \<noteq> ba_batch_hash b \<and> connected (net (hb_clock h2))
      \<and> cut_from H (confirmed_of b) d \<and> [] \<notin> set (ba_records d)"
  proof (rule ship_batch_mismatch [where c = "confirmed_of b", OF assms(1)])
    show "length (cf_last_batch_hash (confirmed_of b)) = 32" using assms(1,9) by (simp add: confirmed_of_def cut_from_def)
  qed (use that two seq assms(7) in \<open>simp_all add: confirmed_of_def state_after_def\<close>)
  then show ?thesis using one two by auto
qed

text \<open>A digest that tells batches of different length apart.\<close>

definition length_digest :: "bytes \<Rightarrow> bytes" where
  "length_digest x = replicate 31 0 @ [word_of_nat (length x)]"

definition sample_cut :: "confirmed_state \<Rightarrow> bytes list \<Rightarrow> batch" where
  "sample_cut c rs =
     (let b = \<lparr>ba_seq = cf_last_seq c + 1, ba_prev_batch_hash = cf_last_batch_hash c, ba_records = rs,
               ba_batch_hash = []\<rparr>
      in b\<lparr>ba_batch_hash := length_digest (encode_prefix b)\<rparr>)"

lemma sample_cut_from:
  "rs \<noteq> [] \<Longrightarrow> length rs \<le> 15 \<Longrightarrow> \<forall>r \<in> set rs. length r \<le> MAX_RECORD_LEN \<and> 10 \<notin> set r \<Longrightarrow>
   cut_from length_digest c (sample_cut c rs)"
  by (simp add: cut_from_def sample_cut_def Let_def encode_prefix_def)

definition sample_loss :: "nat \<Rightarrow> turn" where
  "sample_loss k = sample_turn (k \<noteq> 0)"

theorem lost_ack_loses_next_batch_witness:
  "\<exists>lb' h2. ship_batch length_digest sample_loss sample_policy sample_id (sample_cut confirmed_fresh [[98, 99]])
      (sample_log []) ((snd (snd (ship_batch length_digest sample_loss sample_policy sample_id
        (sample_cut confirmed_fresh [[97]]) (sample_log []) sample_hub)))\<lparr>hb_clock := 1\<rparr>)
      = (Shipped (confirmed_of (sample_cut confirmed_fresh [[98, 99]])), lb', h2)
    \<and> gw_spool (hb_gateway h2) sample_id = payload [[97]]"
proof -
  let ?a = "sample_cut confirmed_fresh [[97]]" and ?b = "sample_cut confirmed_fresh [[98, 99]]"
  obtain ea la' h1 where one: "ship_batch length_digest sample_loss sample_policy sample_id ?a (sample_log []) sample_hub
      = (ea, la', h1)" using prod_cases3 by blast
  obtain eb lb' h2 where two: "ship_batch length_digest sample_loss sample_policy sample_id ?b (sample_log [])
      (h1\<lparr>hb_clock := 1\<rparr>) = (eb, lb', h2)" using prod_cases3 by blast
  have c: "cut_from length_digest confirmed_fresh ?a" "cut_from length_digest confirmed_fresh ?b"
    by (rule sample_cut_from; simp add: MAX_RECORD_LEN_def)+
  have len: "\<And>x. length (length_digest x) = 32" "length (cf_last_batch_hash confirmed_fresh) = 32"
    by (simp_all add: length_digest_def confirmed_fresh_def ZERO_HASH_def)
  have "in_sync sample_id confirmed_fresh (hb_gateway sample_hub)" using sample_hub_agreed by (simp add: agreed_def)
  moreover have "connected (sample_loss 1)" "ta_cursor (sl_tailer (sample_log []))"
      "tu_link (sample_loss (hb_clock sample_hub)) = Handled \<lparr>io_spool = SpoolOk, io_store = StoreOk\<rparr> False"
    using sample_turn_connected
    by (simp_all add: sample_loss_def sample_log_def with_state_def sample_hub_def sample_turn_def good_io_def)
  ultimately show ?thesis
    using lost_ack_loses_next_batch [where H = length_digest, OF len _ sample_key _ _ c _ _ _ one _ _ two] one two
    by (simp add: sample_cut_def Let_def confirmed_fresh_def sample_hub_def sample_gateway_def)
qed

text \<open>C39: A blank line in the log stops shipping: the batch that contains it is rejected by the gateway,
  nothing of it is stored, and the tailer is put back before it, so that every later cycle cuts the
  same batch again.\<close>

theorem blank_line_stops_shipping:
  assumes "\<And>x. length (H x) = 32" "length (cf_last_batch_hash (load_or_fresh (hb_dir h) key)) = 32"
    and "next_batch H (sl_files l (hb_clock h)) (sl_tailer l) (cf_last_seq (load_or_fresh (hb_dir h) key))
      (cf_last_batch_hash (load_or_fresh (hb_dir h) key)) max_records = (Some b, t)"
    and "[] \<in> set (ba_records b)" "tu_link (net (hb_clock h)) = Handled io True"
  shows "ship_cycle H net rp key max_records l h
    = Some (Inr \<lparr>cr_batches_shipped = 0, cr_stopped = Some (Rejected Oversize)\<rparr>,
        l\<lparr>sl_tailer := rewind_batch t\<rparr>, h\<lparr>hb_clock := Suc (hb_clock h)\<rparr>)"
  by (rule ship_cycle_blank [where H = H and net = net, OF assms(1) refl assms(2-5)])

lemma sample_blank_batch:
  "\<exists>b t. next_batch sample_digest (log_world [97, 10, 10]) (sl_tailer (sample_log [97, 10, 10])) seq hash 5 = (Some b, t)
     \<and> [] \<in> set (ba_records b)"
  using sample_log_batch [of 5 _ _ sample_digest seq hash, OF _ sample_records(2)] by (auto simp: Let_def)

theorem blank_line_stops_shipping_witness:
  "\<exists>l' h'. ship_cycle sample_digest (\<lambda>_. sample_turn True) sample_policy sample_id 5 (sample_log [97, 10, 10]) sample_hub
    = Some (Inr \<lparr>cr_batches_shipped = 0, cr_stopped = Some (Rejected Oversize)\<rparr>, l', h')"
proof -
  let ?c = "load_or_fresh (hb_dir sample_hub) sample_id"
  obtain b t where "next_batch sample_digest (log_world [97, 10, 10]) (sl_tailer (sample_log [97, 10, 10]))
      (cf_last_seq ?c) (cf_last_batch_hash ?c) 5 = (Some b, t)" "[] \<in> set (ba_records b)"
    using sample_blank_batch by blast
  then show ?thesis
    using blank_line_stops_shipping [where H = sample_digest and net = "\<lambda>_. sample_turn True" and h = sample_hub
        and l = "sample_log [97, 10, 10]" and key = sample_id, OF sample_digest_length] sample_hub_agreed(1)
    by (fastforce simp: agreed_def sample_log_def sample_turn_def)
qed



end
