(* ===== verification/Tail_Properties.thy ===== *)
theory Tail_Properties
  imports Tail_Follow
begin

text \<open>
  The properties of the log tailer: exactly-once delivery over a growing and renamed log, progress,
  recovery from a copytruncate, resumption after a restart, and the one rotation pattern that skips a
  file.
\<close>

section \<open>An idle poll\<close>


section \<open>A copytruncate\<close>

lemma recover_from_copy:
  assumes ev: "detect_rotation H d (ta_state t) = Truncated \<or> detect_rotation H d (ta_state t) = Replaced"
    and copy: "wo_rotated d 1 = Some k" "readable d k" "head_matches H (ta_state t) (take 256 (wo_files d k))"
      "cu_offset (ta_state t) \<le> length (wo_files d k)"
  shows "ta_pending_drains (handle_rotation H d t) = ta_pending_drains t
      @ (if cu_offset (ta_state t) < length (wo_files d k) then [(OnDisk k, cu_offset (ta_state t))] else [])"
    "cu_inode (ta_state (handle_rotation H d t)) = cu_inode (ta_state t)"
    "cu_offset (ta_state (handle_rotation H d t)) = 0" "ta_loss (handle_rotation H d t) = ta_loss t"
proof -
  let ?s = "ta_state t"
  define gens where "gens = (if cu_offset ?s < length (wo_files d k)
      then [\<lparr>ge_file = OnDisk k, ge_offset = cu_offset ?s,
             ge_fingerprint = fst (stored_fingerprint ?s (take 256 (wo_files d k))),
             ge_fingerprint_len = snd (stored_fingerprint ?s (take 256 (wo_files d k))), ge_is_stored = True\<rparr>]
      else [])"
  have og: "open_generation d 1 = Inr (OnDisk k, length (wo_files d k), take 256 (wo_files d k))"
    using copy(1,2) by (simp add: open_generation_def open_inode_def readable_def file_len_def)
  have fd: "found_at H d ?s 1 (OnDisk k) (length (wo_files d k)) (take 256 (wo_files d k))
      = \<lparr>fo_generations = gens, fo_newer_missing = None\<rparr>"
    by (simp add: found_at_def gens_def Let_def)
  have found: "find_generations H d ?s mode = Inr \<lparr>fo_generations = gens, fo_newer_missing = None\<rparr>" for mode
    unfolding find_generations_def using og copy(3,4) fd by simp
  have rot: "handle_rotation H d t = recover_copytruncated H d t"
    using ev found [of Probe] by (auto simp: handle_rotation_def is_err_def)
  have "ta_pending_drains (handle_rotation H d t) = ta_pending_drains t @ map (\<lambda>g. (ge_file g, ge_offset g)) gens
      \<and> cu_inode (ta_state (handle_rotation H d t)) = cu_inode ?s \<and> cu_offset (ta_state (handle_rotation H d t)) = 0
      \<and> ta_loss (handle_rotation H d t) = ta_loss t"
    unfolding rot recover_copytruncated_def found
    by (auto simp: Let_def gens_def queue_generation_def reset_to_current_file_def stamp_fingerprint_def split: prod.split)
  then show "ta_pending_drains (handle_rotation H d t) = ta_pending_drains t
      @ (if cu_offset (ta_state t) < length (wo_files d k) then [(OnDisk k, cu_offset (ta_state t))] else [])"
    "cu_inode (ta_state (handle_rotation H d t)) = cu_inode (ta_state t)"
    "cu_offset (ta_state (handle_rotation H d t)) = 0" "ta_loss (handle_rotation H d t) = ta_loss t"
    by (auto simp: gens_def)
qed

section \<open>A restart\<close>


section \<open>A log renamed before it was opened\<close>

lemma full_drain_leaves_log_unopened:
  assumes log: "wo_log d = Some j" "readable d j" "j \<noteq> cu_inode (ta_state t)"
    and t: "ta_file t = Some f" "ta_pending_drains t = []" "ta_uncommitted t = None" "\<not> wo_broken d (file_ino f)"
    and m: "0 < m" "m \<le> length (filter fits (source_lines d (f, cu_offset (ta_state t))))"
    and run: "read_entries H d m mb t = (es, t1)"
  shows "ta_file t1 = None" "cu_inode (ta_state t1) = j" "fst ` set (ta_pending_drains t1) \<subseteq> {f}" "ta_loss t1 = ta_loss t"
proof -
  define t0 where "t0 = handle_rotation H d t"
  note rot = renamed_rotation [OF log, of H, folded t0_def]
  have t0: "ta_pending_drains t0 = [(f, cu_offset (ta_state t))]" "ta_file t0 = None" "ta_loss t0 = ta_loss t"
      "cu_inode (ta_state t0) = j"
    using rot t log(3,1)
    by (auto simp: t0_def handle_rotation_def detect_rotation_def reset_to_current_file_def stamp_fingerprint_def Let_def
        split: prod.split)
  define s0 where "s0 = \<lparr>ds_entries = [], ds_line_count = 0, ds_bytes_taken = 0, ds_budget_hit = False,
      ds_uncommitted = begin_batch t0, ds_drains = []\<rparr>"
  define s where "s = drain_loop d m mb (ta_pending_drains t0) s0"
  obtain tss where "drained d m (ta_pending_drains t0) s0 tss s"
    unfolding s_def using drain_loop_drained [of "ta_pending_drains t0" d m s0 mb] t0(1) t(4) by auto
  note D = drainedD [OF this]
  have full: "m \<le> ds_line_count s \<or> ds_budget_hit s"
  proof (rule ccontr)
    assume "\<not> ?thesis"
    then have "tss = map (source_lines d) (ta_pending_drains t0)" "ds_line_count s < m" using D(6) by auto
    then show False using D(3) m(2) t0(1) by (simp add: s0_def)
  qed
  have t1: "t1 = refresh_last_known_size d (t0\<lparr>ta_pending_drains := ds_drains s, ta_uncommitted := Some (ds_uncommitted s)\<rparr>)"
    using run m(1) full by (simp add: read_entries_def Let_def t0_def [symmetric] s0_def [symmetric] s_def [symmetric])
  have "un_exhausted (begin_batch t0) = []"
    using rot(6) [OF t(3)] by (simp add: begin_batch_def)
  then have "set (map fst (ds_drains s)) \<subseteq> {f}"
    using arg_cong [OF D(8), of set] t0(1) by (auto simp: s0_def)
  then show "fst ` set (ta_pending_drains t1) \<subseteq> {f}" by (simp add: t1)
  show "ta_file t1 = None" "cu_inode (ta_state t1) = j" using t0 by (simp_all add: t1)
  show "ta_loss t1 = ta_loss t" using t0 by (simp add: t1 refresh_last_known_size_def split: option.split)
qed

section \<open>Properties\<close>

definition sample_world :: world where
  "sample_world = \<lparr>wo_files = (\<lambda>i. if i = 7 then [97, 98, 10, 99, 10, 100] else []), wo_denied = (\<lambda>_. False),
     wo_broken = (\<lambda>_. False), wo_log = Some 7, wo_rotated = (\<lambda>_. None), wo_gz = (\<lambda>_. None), wo_free = None,
     wo_scratch = ScratchFails, wo_expand = ExpandOk\<rparr>"



lemma sample_lines: "complete_lines [] [97, 98, 10, 99, 10, 100] = [[97, 98], [99]]" by simp








text \<open>C31: When the log was truncated or replaced in place and the rotated copy carries the content the
  read position points into, nothing is lost: the next read continues in the copy at that position and
  goes on to the new content, and no loss is recorded.\<close>

theorem copytruncate_recovered:
  assumes "wo_log d = Some (cu_inode (ta_state t))"
    and "detect_rotation H d (ta_state t) = Truncated \<or> detect_rotation H d (ta_state t) = Replaced"
    and "wo_rotated d 1 = Some k" "readable d k" "head_matches H (ta_state t) (take 256 (wo_files d k))"
    and "cu_offset (ta_state t) \<le> length (wo_files d k)"
  shows "all_lines d (sources (handle_rotation H d t)) =
      all_lines d (ta_pending_drains t) @ complete_lines [] (drop (cu_offset (ta_state t)) (wo_files d k))
      @ complete_lines [] (wo_files d (cu_inode (ta_state t)))
    \<and> ta_loss (handle_rotation H d t) = ta_loss t"
  using recover_from_copy [OF assms(2-6)] assms(6) by (simp add: sources_def source_lines_def)

definition truncated_world :: world where
  "truncated_world = sample_world\<lparr>wo_files := (\<lambda>i. if i = 9 then [97, 98, 10, 99, 10] else [120, 10]),
     wo_rotated := [1 \<mapsto> 9]\<rparr>"

definition truncated_tailer :: log_tailer where
  "truncated_tailer = with_state truncated_world True
     \<lparr>cu_inode = 7, cu_offset = 3, cu_fingerprint = [97, 98, 10], cu_fingerprint_len = Some 3\<rparr>"

theorem copytruncate_recovered_witness:
  "all_lines truncated_world (sources (handle_rotation id truncated_world truncated_tailer)) = [[99], [120]]
   \<and> ta_loss (handle_rotation id truncated_world truncated_tailer) = (0, 0)"
  using copytruncate_recovered [of truncated_world truncated_tailer id 9]
  by (simp add: truncated_world_def truncated_tailer_def with_state_def sample_world_def detect_rotation_def
      readable_def head_matches_def)



definition midway_tailer :: log_tailer where
  "midway_tailer = with_state sample_world True
     \<lparr>cu_inode = 7, cu_offset = 3, cu_fingerprint = [97, 98, 10], cu_fingerprint_len = Some 3\<rparr>"


text \<open>C33: A log that is renamed away while the tailer is still draining the log before it is skipped:
  when a poll is filled by the drain the new log is not opened, a second rename then leaves no handle on
  it, and neither its lines are read nor a loss is recorded.\<close>

theorem renamed_before_opened_is_skipped:
  assumes "wo_log d = Some j" "readable d j" "j \<noteq> cu_inode (ta_state t)"
    and "ta_file t = Some f" "ta_pending_drains t = []" "ta_uncommitted t = None" "\<not> wo_broken d (file_ino f)"
    and "0 < m" "m \<le> length (filter fits (source_lines d (f, cu_offset (ta_state t))))"
    and "read_entries H d m mb t = (es, t1)"
    and "wo_log d' = Some k" "readable d' k" "k \<noteq> j"
  shows "fst ` set (sources (handle_rotation H d' (commit_batch t1))) \<subseteq> {f, OnDisk k}
    \<and> ta_loss (handle_rotation H d' (commit_batch t1)) = ta_loss t"
proof -
  note t1 = full_drain_leaves_log_unopened [OF assms(1-10)]
  have "k \<noteq> cu_inode (ta_state (commit_batch t1))" using t1(2) assms(13) by (simp add: commit_batch_def)
  note rot = renamed_rotation [OF assms(11,12) this, of H]
  have "ta_loss (handle_rotation H d' (commit_batch t1)) = ta_loss t1"
    using t1(1,2) assms(11,13)
    by (auto simp: commit_batch_def handle_rotation_def detect_rotation_def reset_to_current_file_def stamp_fingerprint_def
        Let_def split: prod.split)
  then show ?thesis using rot(1,2) t1 by (auto simp: sources_def commit_batch_def)
qed

definition renamed_world :: "nat \<Rightarrow> world" where
  "renamed_world i = sample_world\<lparr>wo_log := Some i\<rparr>"

definition opened_tailer :: log_tailer where
  "opened_tailer = midway_tailer\<lparr>ta_file := Some (OnDisk 7)\<rparr>"

theorem renamed_before_opened_is_skipped_witness:
  "OnDisk 8 \<notin> fst ` set (sources (handle_rotation id (renamed_world 9)
     (commit_batch (snd (read_entries id (renamed_world 8) 1 100 opened_tailer)))))"
proof -
  obtain es t1 where run: "read_entries id (renamed_world 8) 1 100 opened_tailer = (es, t1)" by force
  have "fst ` set (sources (handle_rotation id (renamed_world 9) (commit_batch t1))) \<subseteq> {OnDisk 7, OnDisk 9}"
    using renamed_before_opened_is_skipped [OF _ _ _ _ _ _ _ _ _ run, of 8 "OnDisk 7" "renamed_world 9" 9]
    by (simp add: renamed_world_def sample_world_def readable_def opened_tailer_def midway_tailer_def with_state_def
        source_lines_def fits_def MAX_LINE_BYTES_def)
  then show ?thesis using run by auto
qed

end
