(* ===== verification/Spec2Isabelle.thy ===== *)
theory Spec2Isabelle
  imports Core_Properties Ship_Properties Tail_Properties
begin

text \<open>
  Propolis is a honeypot fleet. Sensors on collector hosts write one record per line to log files; a
  shipper on the host follows those logs and sends the lines in hash-chained batches to a gateway,
  which appends them to a spool; the intake turns spooled records into events, and the scoring core
  appends each event to a hash-chained ledger and folds it into one score per source address, from
  which the feeds and vendor reports are taken. The development models the two ends of that path that
  decide whether a record is kept and whether an address is listed: the scoring core
  (\<open>src/crates/core-scoring\<close>) and the log transport (\<open>src/crates/collector-wire\<close>,
  \<open>src/crates/gateway\<close>, \<open>src/crates/log-tailer\<close>, \<open>src/crates/shipper\<close>).

  \<^bold>\<open>The scoring core.\<close>
  \<^item> \<open>Domain\<close> (\<open>domain/enums.rs\<close>, \<open>types.rs\<close>, \<open>weights.rs\<close>): the enumerations, \<open>event_input\<close>,
    \<open>ip_score\<close>, the weight table and \<open>validate\<close>. Decimals keep mantissa and scale, since the hash reads
    their text.
  \<^item> \<open>Scoring\<close> (\<open>scoring/*.rs\<close>): \<open>decay\<close>, breadth, persistence, tier, eligibility, the fold
    \<open>apply_event\<close> and the read-time \<open>project_to_now\<close>. The rounding of the decimal library and its
    \<open>powd\<close> are the parameter \<open>arith\<close>, with the laws \<open>arith_ok\<close>.
  \<^item> \<open>Hashing\<close> (\<open>hashing.rs\<close>): \<open>canonical_bytes\<close> and \<open>chain_hash\<close>; SHA-256, the JSON printer and the
    timestamp printer are the parameter \<open>codec\<close>.
  \<^item> \<open>Ledger\<close> (\<open>repository/events.rs\<close>, migrations 0002 and 0005): the tables as the record \<open>db\<close>,
    \<open>append_event\<close>, \<open>append_telemetry_event\<close>, the reads. An append holds one lock inside one transaction,
    so it is one function on \<open>db\<close>; a failure returns the tables unchanged.
  \<^item> \<open>Replay\<close> (\<open>repository/replay.rs\<close>): \<open>rebuild_projection\<close>, the paged \<open>verify_chain\<close> (total: each page
    moves the id cursor), the step relation \<open>ledger_step\<close> and the invariant \<open>ledger_inv\<close> of reachable
    ledgers. \<open>Batch\<close> (\<open>repository/batch.rs\<close>): \<open>append_events\<close> and its halving loop (total: the pair of
    remaining events and slice length decreases). \<open>Tamper\<close> and \<open>History\<close>: what an intact verdict says,
    and the stored score as the run over the recorded events.
  \<^item> \<open>Core_Properties\<close>: replay equals the stored projection; every reachable chain verifies; the batch
    path equals appending one event at a time; equal heads mean equal histories and an edit or a
    removal is reported, as long as the digests of the compared rows do not collide; which contacts a
    listing or a vendor report proves; bounds and exact sums of the counters; telemetry moves no score.

  \<^bold>\<open>The log transport.\<close>
  \<^item> \<open>Bytes\<close>, \<open>Wire\<close> (\<open>collector-wire/src/frame.rs\<close>, \<open>ack.rs\<close>): the codecs byte for byte; the locale
    \<open>wire_codec\<close> (a decoder accepts exactly the encoder's image) is interpreted on both.
  \<^item> \<open>Gateway\<close> (\<open>gateway/src/verify.rs\<close>, \<open>state.rs\<close>, \<open>spool.rs\<close>, \<open>server.rs\<close>): \<open>accept\<close>,
    \<open>handle_frame\<close>, \<open>handle_connection\<close>; every outcome of a write or a rename is an input, and \<open>serves\<close>
    is the step relation over frames and restarts. No batch is accepted twice, accepted batches chain,
    accepted records stay in the spool, collectors do not affect each other.
  \<^item> \<open>Log_Lines\<close>, \<open>Tailer\<close> (\<open>log-tailer/src/cursor.rs\<close>, \<open>tailer.rs\<close>): line reading with the line and
    byte budgets, cursor files, rotation detection, recovery of renamed, compressed and truncated
    generations, commit and rewind. The file system is the record \<open>world\<close>: file contents by inode, what
    the log's name and the rotated names point to, and which opens, reads and writes fail.
  \<^item> \<open>Tail_Queue\<close>, \<open>Tail_Follow\<close>, \<open>Tail_Properties\<close>: the tailer refines a queue of complete lines
    (\<open>view\<close>): reads take from its front, a rewind puts back, a commit removes, writing and renaming in
    step extend it; hence each line is delivered once and in order, and a poll that returns nothing has
    delivered all.
  \<^item> \<open>Shipper\<close> (\<open>shipper/src/batcher.rs\<close>, \<open>state.rs\<close>, \<open>client.rs\<close>, \<open>main.rs\<close>): \<open>next_batch\<close> cuts what the
    tailer returns into a frame, \<open>ship_batch\<close> sends it to \<open>handle_frame\<close> of \<open>Gateway\<close> and acts on the
    answer, \<open>ship_loop\<close> is a cycle of one log, \<open>ship_pass\<close> a pass over all logs and \<open>run_ship_loop\<close> the
    program. What the network does to an exchange is the input \<open>turn\<close>: no connection, a frame lost, an
    answer lost, or both delivered. \<open>Ship_Follow\<close> has the invariant of a cycle (\<open>resting\<close>: rewound, the
    tailer is in step with its log) and the rule \<open>ship_loop_rule\<close>
    by which a fact kept by one batch holds of a cycle; \<open>Ship_Runs\<close> runs whole cycles over a connection
    that holds and follows the refusals; \<open>Ship_Properties\<close>: the spool grows by lines of the log, in
    order; a cycle over a connection that holds ships every complete line and returns; a frame stays
    within the limit the gateway enforces; which answers end the program, and the two situations in
    which lines are lost or shipping stops.

  \<^bold>\<open>Parameters and bounds.\<close> Digests, decimal rounding, JSON and time printing are parameters; properties
  that need a law of theirs state it, and the witnesses instantiate them. Loops of the code are
  structural recursions or have a termination proof; the cycle of the shipper and its outer loop run as
  long as the log grows, so they are \<open>partial_function (option)\<close> and their return is proved where the
  log stands still. No definition takes fuel. Offsets, line lengths and
  counts of the tailer are natural numbers (a file does not reach \<open>2 ^ 63\<close> bytes); scores, counters and
  sequence numbers follow the width the code gives them where it saturates or wraps.

  \<^bold>\<open>Not modelled.\<close> TLS, sockets and time limits (they are the outcomes of \<open>turn\<close>; a frame that the
  network delivers after the shipper has already reconnected is not among them), task scheduling and
  process set-up; the intake's JSON conversion; the
  review, feed, fleet, console and watch programs, which are database queries, HTTP and text; the
  emulated hosts of the sensors (\<open>sensor-framework\<close> and the protocol crates); deployment files and
  vendored packages.
\<close>

end
